(* ===== verification/Aptos_Prelude.thy ===== *)
theory Aptos_Prelude
  imports Main "HOL-Library.Word"
begin

text \<open>
  Shared vocabulary of the development.

  \<^item> The machine integers of the Rust sources as words of their width, with the checked and
    saturating operations of the standard library. The release profile of the workspace sets
    \<open>overflow-checks = true\<close> (Cargo.toml), so a plain \<open>+\<close>, \<open>-\<close> or \<open>*\<close> that leaves the
    range panics; models of such code use the checked operations and an explicit panic branch.
  \<^item> \<open>Result\<close> values as sums: \<open>Inl\<close> is \<open>Err\<close>, \<open>Inr\<close> is \<open>Ok\<close>; \<open>and_then\<close> is the
    question-mark operator, \<open>ensure\<close> the macro of the same name of the \<open>anyhow\<close> crate, whose
    errors are the message strings.
  \<^item> Ordered association lists for \<open>BTreeMap\<close>, with their lookup laws, and the interface they
    implement as a locale.
\<close>

named_theorems result_simps \<open>inversion of results that are Ok\<close>
named_theorems word_to_nat \<open>checked word arithmetic read off in the natural numbers\<close>

section \<open>Machine integers\<close>

type_synonym u8 = "8 word"
type_synonym u16 = "16 word"
type_synonym u32 = "32 word"
type_synonym u64 = "64 word"
type_synonym u128 = "128 word"

definition checked_add :: "'a::len word \<Rightarrow> 'a word \<Rightarrow> 'a word option" where
  "checked_add a b = (if unat a + unat b < 2 ^ LENGTH('a) then Some (a + b) else None)"

definition checked_sub :: "'a::len word \<Rightarrow> 'a word \<Rightarrow> 'a word option" where
  "checked_sub a b = (if b \<le> a then Some (a - b) else None)"

definition checked_mul :: "'a::len word \<Rightarrow> 'a word \<Rightarrow> 'a word option" where
  "checked_mul a b = (if unat a * unat b < 2 ^ LENGTH('a) then Some (a * b) else None)"

definition saturating_add :: "'a::len word \<Rightarrow> 'a word \<Rightarrow> 'a word" where
  "saturating_add a b = (case checked_add a b of Some c \<Rightarrow> c | None \<Rightarrow> - 1)"

definition saturating_sub :: "'a::len word \<Rightarrow> 'a word \<Rightarrow> 'a word" where
  "saturating_sub a b = (case checked_sub a b of Some c \<Rightarrow> c | None \<Rightarrow> 0)"

lemma unat_bound: "unat (c :: 'a::len word) < 2 ^ LENGTH('a)"
  by (rule unsigned_less)

lemma checked_add_Some [word_to_nat]:
  fixes a :: "'a::len word"
  shows "checked_add a b = Some c \<longleftrightarrow> unat c = unat a + unat b"
proof
  assume "checked_add a b = Some c"
  then show "unat c = unat a + unat b"
    by (auto simp: checked_add_def unat_add_lem split: if_splits)
next
  assume c: "unat c = unat a + unat b"
  then have "unat a + unat b < 2 ^ LENGTH('a)"
    using unat_bound [of c] by simp
  moreover from this have "unat (a + b) = unat c"
    using c by (simp add: unat_add_lem)
  ultimately show "checked_add a b = Some c"
    by (simp add: checked_add_def word_unat_eq_iff)
qed

lemma checked_sub_Some [word_to_nat]:
  fixes a :: "'a::len word"
  shows "checked_sub a b = Some c \<longleftrightarrow> unat a = unat b + unat c"
proof
  assume "checked_sub a b = Some c"
  then show "unat a = unat b + unat c"
    by (auto simp: checked_sub_def unat_sub word_le_nat_alt split: if_splits)
next
  assume c: "unat a = unat b + unat c"
  then have "b \<le> a" by (simp add: word_le_nat_alt)
  moreover from this have "unat (a - b) = unat c"
    using c by (simp add: unat_sub)
  ultimately show "checked_sub a b = Some c"
    by (simp add: checked_sub_def word_unat_eq_iff)
qed

lemma checked_mul_Some [word_to_nat]:
  fixes a :: "'a::len word"
  shows "checked_mul a b = Some c \<longleftrightarrow> unat c = unat a * unat b"
proof
  assume "checked_mul a b = Some c"
  then show "unat c = unat a * unat b"
    by (auto simp: checked_mul_def unat_mult_lem split: if_splits)
next
  assume c: "unat c = unat a * unat b"
  then have "unat a * unat b < 2 ^ LENGTH('a)"
    using unat_bound [of c] by simp
  moreover from this have "unat (a * b) = unat c"
    using c by (simp add: unat_mult_lem)
  ultimately show "checked_mul a b = Some c"
    by (simp add: checked_mul_def word_unat_eq_iff)
qed

lemma checked_add_None [word_to_nat]:
  fixes a :: "'a::len word"
  shows "checked_add a b = None \<longleftrightarrow> 2 ^ LENGTH('a) \<le> unat a + unat b"
  by (auto simp: checked_add_def)

lemma checked_sub_None [word_to_nat]: "checked_sub a b = None \<longleftrightarrow> unat a < unat b"
  by (auto simp: checked_sub_def word_le_nat_alt)

lemma unat_saturating_add [word_to_nat]:
  fixes a :: "'a::len word"
  shows "unat (saturating_add a b) = min (2 ^ LENGTH('a) - 1) (unat a + unat b)"
proof (cases "checked_add a b")
  case None
  moreover from None have "2 ^ LENGTH('a) \<le> unat a + unat b"
    by (simp add: checked_add_None)
  moreover from this have "2 ^ LENGTH('a) - 1 \<le> unat a + unat b"
    by linarith
  ultimately show ?thesis
    by (simp add: saturating_add_def unsigned_minus_1_eq_mask mask_eq_exp_minus_1 min_absorb1)
next
  case (Some c)
  then have c: "unat c = unat a + unat b" by (simp add: checked_add_Some)
  then have "unat a + unat b \<le> 2 ^ LENGTH('a) - 1"
    using unat_bound [of c] by simp
  with c Some show ?thesis by (simp add: saturating_add_def)
qed

lemma unat_saturating_sub [word_to_nat]: "unat (saturating_sub a b) = unat a - unat b"
  by (auto simp: saturating_sub_def checked_sub_def unat_sub word_le_nat_alt)

lemma unat_u64_to_u128 [word_to_nat]: "unat (ucast (x :: u64) :: u128) = unat x"
proof -
  have "unat x < 2 ^ 64" using unat_bound [of x] by simp
  then have "unat x < 2 ^ 128" by simp
  then show ?thesis by (simp add: unsigned_ucast_eq take_bit_nat_eq_self)
qed

text \<open>\<open>count_ones\<close>, \<open>trailing_zeros\<close> and \<open>leading_zeros\<close> of the unsigned integers.\<close>

definition word_count_ones :: "'a::len word \<Rightarrow> nat" where
  "word_count_ones w = length (filter (bit w) [0..<LENGTH('a)])"

definition word_trailing_zeros :: "'a::len word \<Rightarrow> nat" where
  "word_trailing_zeros w = length (takeWhile (\<lambda>i. \<not> bit w i) [0..<LENGTH('a)])"

definition word_leading_zeros :: "'a::len word \<Rightarrow> nat" where
  "word_leading_zeros w = length (takeWhile (\<lambda>i. \<not> bit w i) (rev [0..<LENGTH('a)]))"

section \<open>Results\<close>

text \<open>
  A failure is an error value of the source's error type or a panic. \<open>anyhow\<close> errors are the
  message strings.
\<close>

datatype 'e fault = Err 'e | Panic

type_synonym ('e, 'a) result = "'e fault + 'a"
type_synonym 'a anyhow = "(string, 'a) result"

fun and_then :: "'e + 'a \<Rightarrow> ('a \<Rightarrow> 'e + 'b) \<Rightarrow> 'e + 'b" where
  "and_then (Inl e) f = Inl e"
| "and_then (Inr x) f = f x"

fun map_err :: "('e \<Rightarrow> 'd) \<Rightarrow> ('e, 'a) result \<Rightarrow> ('d, 'a) result" where
  "map_err g (Inl (Err e)) = Inl (Err (g e))"
| "map_err g (Inl Panic) = Inl Panic"
| "map_err g (Inr x) = Inr x"

definition ensure :: "bool \<Rightarrow> 'e \<Rightarrow> ('e, unit) result" where
  "ensure b e = (if b then Inr () else Inl (Err e))"

definition assert_that :: "bool \<Rightarrow> ('e, unit) result" where
  "assert_that b = (if b then Inr () else Inl Panic)"

definition ok_or :: "'a option \<Rightarrow> 'e \<Rightarrow> ('e, 'a) result" where
  "ok_or x e = (case x of None \<Rightarrow> Inl (Err e) | Some v \<Rightarrow> Inr v)"

definition expect :: "'a option \<Rightarrow> ('e, 'a) result" where
  "expect x = (case x of None \<Rightarrow> Inl Panic | Some v \<Rightarrow> Inr v)"

definition unwrap :: "('e, 'a) result \<Rightarrow> ('d, 'a) result" where
  "unwrap r = (case r of Inl _ \<Rightarrow> Inl Panic | Inr x \<Rightarrow> Inr x)"

definition is_ok :: "'e + 'a \<Rightarrow> bool" where
  "is_ok r = (case r of Inl _ \<Rightarrow> False | Inr _ \<Rightarrow> True)"

lemma and_then_Inr [result_simps]:
  "and_then r f = Inr y \<longleftrightarrow> (\<exists>x. r = Inr x \<and> f x = Inr y)"
  by (cases r) auto

lemma map_err_Inr [result_simps]: "map_err g r = Inr x \<longleftrightarrow> r = Inr x"
  by (cases "(g, r)" rule: map_err.cases) auto

lemma ensure_Inr [result_simps]: "ensure b e = Inr u \<longleftrightarrow> b"
  by (auto simp: ensure_def)

lemma assert_that_Inr [result_simps]: "assert_that b = Inr u \<longleftrightarrow> b"
  by (auto simp: assert_that_def)

lemma ok_or_Inr [result_simps]: "ok_or x e = Inr v \<longleftrightarrow> x = Some v"
  by (auto simp: ok_or_def split: option.splits)

lemma expect_Inr [result_simps]: "expect x = Inr v \<longleftrightarrow> x = Some v"
  by (auto simp: expect_def split: option.splits)

lemma unwrap_Inr [result_simps]: "unwrap r = Inr x \<longleftrightarrow> r = Inr x"
  by (auto simp: unwrap_def split: sum.splits)

lemma is_ok_iff: "is_ok r \<longleftrightarrow> (\<exists>x. r = Inr x)"
  by (cases r) (auto simp: is_ok_def)

lemma is_ok_Inr [simp]: "is_ok (Inr x)" and is_ok_Inl [simp]: "\<not> is_ok (Inl e)"
  by (simp_all add: is_ok_def)

lemma and_then_cong [fundef_cong]:
  "r = r' \<Longrightarrow> (\<And>x. r' = Inr x \<Longrightarrow> f x = f' x) \<Longrightarrow> and_then r f = and_then r' f'"
  by (cases r') auto

lemma ensure_simps [simp]: "ensure True e = Inr ()" "ensure False e = Inl (Err e)"
  by (simp_all add: ensure_def)

section \<open>State and failure\<close>

text \<open>
  Methods on \<open>&mut self\<close> that return a \<open>Result\<close>: the state is passed along and kept when the call
  fails. \<open>s_bind\<close> is the question-mark operator on such calls.
\<close>

type_synonym ('s, 'e, 'a) smonad = "'s \<Rightarrow> ('e, 'a) result \<times> 's"

definition s_lift :: "('e, 'a) result \<Rightarrow> ('s, 'e, 'a) smonad" where
  "s_lift r s = (r, s)"

definition s_return :: "'a \<Rightarrow> ('s, 'e, 'a) smonad" where
  "s_return x s = (Inr x, s)"

definition s_fail :: "'e \<Rightarrow> ('s, 'e, 'a) smonad" where
  "s_fail e s = (Inl (Err e), s)"

definition s_gets :: "('s \<Rightarrow> ('e, 'a) result) \<Rightarrow> ('s, 'e, 'a) smonad" where
  "s_gets f s = (f s, s)"

definition s_modify :: "('s \<Rightarrow> 's) \<Rightarrow> ('s, 'e, unit) smonad" where
  "s_modify f s = (Inr (), f s)"

definition s_bind :: "('s, 'e, 'a) smonad \<Rightarrow> ('a \<Rightarrow> ('s, 'e, 'b) smonad) \<Rightarrow> ('s, 'e, 'b) smonad" where
  "s_bind m f s = (case m s of (Inl e, s') \<Rightarrow> (Inl e, s') | (Inr x, s') \<Rightarrow> f x s')"

lemma s_lift_eq [result_simps]: "s_lift r s = (q, t) \<longleftrightarrow> r = q \<and> t = s"
  by (auto simp: s_lift_def)

lemma s_return_eq [result_simps]: "s_return x s = (q, t) \<longleftrightarrow> q = Inr x \<and> t = s"
  by (auto simp: s_return_def)

lemma s_fail_eq [result_simps]: "s_fail e s = (q, t) \<longleftrightarrow> q = Inl (Err e) \<and> t = s"
  by (auto simp: s_fail_def)

lemma s_gets_eq [result_simps]: "s_gets f s = (q, t) \<longleftrightarrow> f s = q \<and> t = s"
  by (auto simp: s_gets_def)

lemma s_modify_eq [result_simps]: "s_modify f s = (q, t) \<longleftrightarrow> q = Inr () \<and> t = f s"
  by (auto simp: s_modify_def)

lemma s_bind_Inr [result_simps]:
  "s_bind m f s = (Inr y, t) \<longleftrightarrow> (\<exists>x s'. m s = (Inr x, s') \<and> f x s' = (Inr y, t))"
  by (auto simp: s_bind_def split: prod.splits sum.splits)

lemma s_bind_Inl:
  "s_bind m f s = (Inl e, t) \<longleftrightarrow>
     m s = (Inl e, t) \<or> (\<exists>x s'. m s = (Inr x, s') \<and> f x s' = (Inl e, t))"
  by (auto simp: s_bind_def split: prod.splits sum.splits)

text \<open>A relation between the states before and after a call, whatever it returns, composes.\<close>

definition s_preserves :: "('s \<Rightarrow> 's \<Rightarrow> bool) \<Rightarrow> ('s, 'e, 'a) smonad \<Rightarrow> bool" where
  "s_preserves R m \<longleftrightarrow> (\<forall>s. R s (snd (m s)))"

lemma s_preserves_bind:
  assumes "s_preserves R m" and "\<And>x. s_preserves R (f x)" and "transp R"
  shows "s_preserves R (s_bind m f)"
proof -
  have "R s (snd (s_bind m f s))" for s
  proof (cases "m s")
    case (Pair r t)
    then have "R s t" using assms(1) by (metis s_preserves_def snd_conv)
    moreover have "R t (snd (f x t))" for x using assms(2) by (simp add: s_preserves_def)
    ultimately show ?thesis using Pair assms(3) by (auto simp: s_bind_def split: sum.splits dest: transpD)
  qed
  then show ?thesis by (simp add: s_preserves_def)
qed

lemma s_preserves_pure:
  "reflp R \<Longrightarrow> s_preserves R (s_lift r)" "reflp R \<Longrightarrow> s_preserves R (s_return x)"
  "reflp R \<Longrightarrow> s_preserves R (s_fail e)" "reflp R \<Longrightarrow> s_preserves R (s_gets g)"
  by (simp_all add: s_preserves_def s_lift_def s_return_def s_fail_def s_gets_def reflpD)

section \<open>Ordered maps\<close>

text \<open>
  \<open>BTreeMap\<close> as its list of entries in increasing key order, which is also the order of its
  iterators. \<open>bt_entry\<close> is \<open>entry(k).or_insert(v)\<close>.
\<close>

type_synonym ('k, 'v) btree = "('k \<times> 'v) list"

fun bt_insert :: "'k::linorder \<Rightarrow> 'v \<Rightarrow> ('k, 'v) btree \<Rightarrow> ('k, 'v) btree" where
  "bt_insert k v [] = [(k, v)]"
| "bt_insert k v (e # m) =
     (if fst e < k then e # bt_insert k v m
      else if fst e = k then (k, v) # m
      else (k, v) # e # m)"

definition bt_remove :: "'k \<Rightarrow> ('k, 'v) btree \<Rightarrow> ('k, 'v) btree" where
  "bt_remove k m = filter (\<lambda>e. fst e \<noteq> k) m"

definition bt_entry :: "'k::linorder \<Rightarrow> 'v \<Rightarrow> ('k, 'v) btree \<Rightarrow> ('k, 'v) btree" where
  "bt_entry k v m = (case map_of m k of None \<Rightarrow> bt_insert k v m | Some _ \<Rightarrow> m)"

definition bt_wf :: "('k::linorder, 'v) btree \<Rightarrow> bool" where
  "bt_wf m \<longleftrightarrow> sorted_wrt (<) (map fst m)"

text \<open>The interface its clients use: what a lookup returns after an insertion or a removal.\<close>

locale ordered_map =
  fixes ins :: "'k \<Rightarrow> 'v \<Rightarrow> 'm \<Rightarrow> 'm"
    and del :: "'k \<Rightarrow> 'm \<Rightarrow> 'm"
    and look :: "'m \<Rightarrow> 'k \<Rightarrow> 'v option"
    and inv :: "'m \<Rightarrow> bool"
  assumes look_ins: "look (ins k v m) = (look m)(k \<mapsto> v)"
    and look_del: "look (del k m) = (look m)(k := None)"
    and inv_ins: "inv m \<Longrightarrow> inv (ins k v m)"
    and inv_del: "inv m \<Longrightarrow> inv (del k m)"
begin

lemma inv_fold_ins: "inv m \<Longrightarrow> inv (fold (\<lambda>(k, v). ins k v) kvs m)"
  by (induction kvs arbitrary: m) (auto simp: inv_ins)

lemma look_fold_ins: "look (fold (\<lambda>(k, v). ins k v) kvs m) = look m ++ map_of (rev kvs)"
  by (induction kvs arbitrary: m) (auto simp: look_ins map_add_def fun_eq_iff split: option.splits)

lemma dom_look_ins: "dom (look (ins k v m)) = insert k (dom (look m))"
  by (simp add: look_ins)

lemma ins_del_look: "look (del k (ins k v m)) = (look m)(k := None)"
  by (simp add: look_ins look_del)

end

lemma map_of_bt_insert: "map_of (bt_insert k v m) = (map_of m)(k \<mapsto> v)"
  by (induction k v m rule: bt_insert.induct) (auto simp: fun_eq_iff)

lemma map_of_bt_remove: "map_of (bt_remove k m) = (map_of m)(k := None)"
  by (induction m) (auto simp: bt_remove_def fun_eq_iff)

lemma keys_bt_insert: "fst ` set (bt_insert k v m) = insert k (fst ` set m)"
  by (induction k v m rule: bt_insert.induct) auto

lemma bt_wf_insert: "bt_wf m \<Longrightarrow> bt_wf (bt_insert k v m)"
proof (induction k v m rule: bt_insert.induct)
  case (2 k v e m)
  have "k < fst x" if "fst e > k" "x \<in> set m" for x
    using that "2.prems" by (fastforce simp: bt_wf_def)
  with 2 keys_bt_insert [of k v m] show ?case
    by (auto simp: bt_wf_def Ball_def image_iff)
qed (simp add: bt_wf_def)

lemma bt_wf_remove: "bt_wf m \<Longrightarrow> bt_wf (bt_remove k m)"
  by (induction m) (auto simp: bt_wf_def bt_remove_def)

interpretation btree: ordered_map bt_insert bt_remove map_of bt_wf
  by unfold_locales (simp_all add: map_of_bt_insert map_of_bt_remove bt_wf_insert bt_wf_remove)

lemma bt_wf_distinct: "bt_wf m \<Longrightarrow> distinct (map fst m)"
  by (auto simp: bt_wf_def strict_sorted_iff)

lemma bt_wf_entry: "bt_wf m \<Longrightarrow> bt_wf (bt_entry k v m)"
  by (auto simp: bt_entry_def bt_wf_insert split: option.splits)

lemma map_of_bt_entry:
  "map_of (bt_entry k v m) = (case map_of m k of None \<Rightarrow> (map_of m)(k \<mapsto> v) | Some _ \<Rightarrow> map_of m)"
  by (auto simp: bt_entry_def map_of_bt_insert split: option.splits)

lemma keys_bt_entry: "fst ` set (bt_entry k v m) = insert k (fst ` set m)"
  by (auto simp: bt_entry_def keys_bt_insert map_of_eq_None_iff split: option.splits
      dest: map_of_SomeD) (metis fst_conv image_eqI map_of_SomeD)

section \<open>Durations\<close>

text \<open>A \<open>Duration\<close> is its number of nanoseconds; a \<open>SystemTime\<close> is the duration since the Unix epoch.\<close>

type_synonym duration = nat

definition DURATION_MAX :: duration where
  "DURATION_MAX = (2 ^ 64 - 1) * 1000000000 + 999999999"

definition duration_from_secs :: "u64 \<Rightarrow> duration" where
  "duration_from_secs n = unat n * 1000000000"

definition duration_from_millis :: "u64 \<Rightarrow> duration" where
  "duration_from_millis n = unat n * 1000000"

definition duration_add :: "duration \<Rightarrow> duration \<Rightarrow> duration anyhow" where
  "duration_add a b = (if a + b \<le> DURATION_MAX then Inr (a + b) else Inl Panic)"

definition duration_saturating_add :: "duration \<Rightarrow> duration \<Rightarrow> duration" where
  "duration_saturating_add a b = min DURATION_MAX (a + b)"

definition nat_sub :: "nat \<Rightarrow> nat \<Rightarrow> nat anyhow" where
  "nat_sub a b = (if b \<le> a then Inr (a - b) else Inl Panic)"

lemma nat_sub_Inr [result_simps]: "nat_sub a b = Inr c \<longleftrightarrow> b \<le> a \<and> c = a - b"
  by (auto simp: nat_sub_def)

end
