(* ===== verification/Bit_Vec.thy ===== *)
theory Bit_Vec
  imports Aptos_Prelude
begin

unbundle bit_operations_syntax

text \<open>
  The bit vector of crates/aptos-bitvec/src/lib.rs, which records the signers of an aggregated
  signature. The bytes are kept as the code keeps them (most significant bit first); \<open>bit_at\<close>
  reads position \<open>p\<close> off them. The lemmas relate every operation to the set of positions that
  are set; \<open>index_set\<close> is the interface the signature aggregation relies on.
\<close>

section \<open>Operations\<close>

record bit_vec =
  inner :: "u8 list"

definition BUCKET_SIZE :: nat where "BUCKET_SIZE = 8"

definition MAX_BUCKETS :: nat where "MAX_BUCKETS = 8192"

definition bv_default :: bit_vec where
  "bv_default = \<lparr>inner = []\<rparr>"

definition required_buckets :: "u16 \<Rightarrow> nat" where
  "required_buckets num_bits =
     (case checked_sub num_bits 1 of None \<Rightarrow> 0 | Some pos \<Rightarrow> unat pos div BUCKET_SIZE + 1)"

definition with_num_bits :: "u16 \<Rightarrow> bit_vec" where
  "with_num_bits num_bits = \<lparr>inner = replicate (required_buckets num_bits) 0\<rparr>"

text \<open>\<open>Vec::resize\<close> in the only case the code uses, growing by zero bytes.\<close>

definition grow :: "nat \<Rightarrow> u8 list \<Rightarrow> u8 list" where
  "grow n xs = (if length xs < n then xs @ replicate (n - length xs) 0 else xs)"

definition bv_set :: "bit_vec \<Rightarrow> u16 \<Rightarrow> bit_vec" where
  "bv_set bv pos =
     (let bucket = unat pos div BUCKET_SIZE;
          xs = (if length (inner bv) \<le> bucket then grow (bucket + 1) (inner bv) else inner bv);
          bucket_pos = unat pos - bucket * BUCKET_SIZE
      in bv\<lparr>inner := xs[bucket := xs ! bucket OR drop_bit bucket_pos 128]\<rparr>)"

definition bv_is_set :: "bit_vec \<Rightarrow> u16 \<Rightarrow> bool" where
  "bv_is_set bv pos =
     (let bucket = unat pos div BUCKET_SIZE
      in if length (inner bv) \<le> bucket then False
         else let bucket_pos = unat pos - bucket * BUCKET_SIZE
              in inner bv ! bucket AND drop_bit bucket_pos 128 \<noteq> 0)"

definition all_zeros :: "bit_vec \<Rightarrow> bool" where
  "all_zeros bv = list_all (\<lambda>b. b = 0) (inner bv)"

text \<open>\<open>u8::count_ones\<close> and \<open>u8::trailing_zeros\<close> of the standard library.\<close>

definition u8_count_ones :: "u8 \<Rightarrow> nat" where
  "u8_count_ones b = length (filter (bit b) [0..<8])"

definition u8_trailing_zeros :: "u8 \<Rightarrow> nat" where
  "u8_trailing_zeros b = length (takeWhile (\<lambda>k. \<not> bit b k) [0..<8])"

definition count_ones :: "bit_vec \<Rightarrow> nat" where
  "count_ones bv = sum_list (map u8_count_ones (inner bv))"

fun find_nonzero :: "nat \<Rightarrow> u8 list \<Rightarrow> (nat \<times> u8) option" where
  "find_nonzero i [] = None"
| "find_nonzero i (b # bs) = (if b \<noteq> 0 then Some (i, b) else find_nonzero (Suc i) bs)"

definition last_set_bit :: "bit_vec \<Rightarrow> u16 option" where
  "last_set_bit bv =
     (case find_nonzero 0 (rev (inner bv)) of
        None \<Rightarrow> None
      | Some (i, b) \<Rightarrow>
          Some (of_nat (8 * (length (inner bv) - i) - u8_trailing_zeros b - 1)))"

definition iter_ones :: "bit_vec \<Rightarrow> nat list" where
  "iter_ones bv = filter (\<lambda>idx. bv_is_set bv (of_nat idx)) [0..<length (inner bv) * BUCKET_SIZE]"

definition num_buckets :: "bit_vec \<Rightarrow> nat" where
  "num_buckets bv = length (inner bv)"

definition bv_bitand :: "bit_vec \<Rightarrow> bit_vec \<Rightarrow> bit_vec" where
  "bv_bitand a b =
     (let len = min (length (inner a)) (length (inner b))
      in \<lparr>inner = map (\<lambda>i. inner a ! i AND inner b ! i) [0..<len]\<rparr>)"

text \<open>\<open>get(i).copied().unwrap_or(0)\<close>.\<close>

definition byte_or_zero :: "u8 list \<Rightarrow> nat \<Rightarrow> u8" where
  "byte_or_zero xs i = (if i < length xs then xs ! i else 0)"

definition bv_bitor :: "bit_vec \<Rightarrow> bit_vec \<Rightarrow> bit_vec" where
  "bv_bitor a b =
     (let len = max (length (inner a)) (length (inner b))
      in \<lparr>inner = map (\<lambda>i. byte_or_zero (inner a) i OR byte_or_zero (inner b) i) [0..<len]\<rparr>)"

definition bv_from_iter :: "u8 list \<Rightarrow> bit_vec" where
  "bv_from_iter bits = fold (\<lambda>b bv. bv_set bv (ucast b)) bits bv_default"

text \<open>The two conversions with an assertion give \<open>None\<close> where the code panics; the
  deserializer reports the length instead.\<close>

definition bv_from_bytes :: "u8 list \<Rightarrow> bit_vec option" where
  "bv_from_bytes raw = (if length raw \<le> MAX_BUCKETS then Some \<lparr>inner = raw\<rparr> else None)"

definition bv_from_bools :: "bool list \<Rightarrow> bit_vec option" where
  "bv_from_bools bits =
     (if length bits \<le> MAX_BUCKETS * BUCKET_SIZE
      then Some (fold (\<lambda>(index, b) bv. if b then bv_set bv (of_nat index) else bv)
             (enumerate 0 bits) (with_num_bits (of_nat (length bits))))
      else None)"

definition bv_deserialize :: "u8 list \<Rightarrow> nat + bit_vec" where
  "bv_deserialize v = (if length v > MAX_BUCKETS then Inl (length v) else Inr \<lparr>inner = v\<rparr>)"

section \<open>Reading positions off the bytes\<close>

definition bv_wf :: "bit_vec \<Rightarrow> bool" where
  "bv_wf bv \<longleftrightarrow> length (inner bv) \<le> MAX_BUCKETS"

definition bit_at :: "u8 list \<Rightarrow> nat \<Rightarrow> bool" where
  "bit_at xs p \<longleftrightarrow> p div 8 < length xs \<and> bit (xs ! (p div 8)) (7 - p mod 8)"

lemma upt_8: "[0..<8] = [0, 1, 2, 3, 4, 5, 6, 7 :: nat]"
  by code_simp

lemma mask_bit: "k < 8 \<Longrightarrow> bit (drop_bit k (128 :: u8)) n \<longleftrightarrow> n = 7 - k"
proof -
  assume k: "k < 8"
  have e: "(128 :: u8) = 2 ^ 7" by simp
  have "bit (drop_bit k (128 :: u8)) n \<longleftrightarrow> k + n = 7"
    unfolding e bit_drop_bit_eq comp_def bit_exp_iff by (auto simp: possible_bit_def)
  with k show ?thesis by arith
qed

lemma and_mask_nonzero: "k < 8 \<Longrightarrow> (b AND drop_bit k (128 :: u8) \<noteq> 0) \<longleftrightarrow> bit b (7 - k)"
proof -
  assume k: "k < 8"
  have "(b AND drop_bit k (128 :: u8) \<noteq> 0) \<longleftrightarrow> (\<exists>n. bit (b AND drop_bit k 128) n)"
    using bit_eqI [of "b AND drop_bit k 128" 0] by (auto simp: bit_0_eq)
  with k show ?thesis by (simp add: bit_and_iff mask_bit)
qed

lemma bucket_offset: "p - p div 8 * 8 = p mod (8 :: nat)"
  by (metis minus_div_mult_eq_mod)

lemma bv_is_set_iff: "bv_is_set bv pos \<longleftrightarrow> bit_at (inner bv) (unat pos)"
  by (auto simp: bv_is_set_def bit_at_def BUCKET_SIZE_def bucket_offset and_mask_nonzero Let_def)

lemma bit_at_grow: "bit_at (grow n xs) p \<longleftrightarrow> bit_at xs p"
  by (auto simp: bit_at_def grow_def nth_append)

lemma bit_at_update:
  assumes "p div 8 < length xs"
  shows "bit_at (xs[p div 8 := xs ! (p div 8) OR drop_bit (p mod 8) 128]) q \<longleftrightarrow> q = p \<or> bit_at xs q"
proof (cases "q div 8 = p div 8")
  case True
  have "q = p \<longleftrightarrow> q mod 8 = p mod 8"
    using True by (metis div_mult_mod_eq)
  moreover have "q mod 8 < 8" "p mod 8 < 8" by simp_all
  then have "7 - q mod 8 = 7 - p mod 8 \<longleftrightarrow> q mod 8 = p mod 8" by linarith
  ultimately show ?thesis
    using True assms by (auto simp: bit_at_def bit_or_iff mask_bit)
next
  case False
  then have "q \<noteq> p" by auto
  with False show ?thesis by (auto simp: bit_at_def)
qed

lemma bv_set_inner:
  "inner (bv_set bv pos) =
     (let xs = grow (unat pos div 8 + 1) (inner bv)
      in xs[unat pos div 8 := xs ! (unat pos div 8) OR drop_bit (unat pos mod 8) 128])"
  by (auto simp: bv_set_def BUCKET_SIZE_def bucket_offset Let_def grow_def)

lemma bit_at_set:
  "bit_at (inner (bv_set bv pos)) q \<longleftrightarrow> q = unat pos \<or> bit_at (inner bv) q"
proof -
  have "unat pos div 8 < length (grow (unat pos div 8 + 1) (inner bv))"
    by (auto simp: grow_def)
  from bit_at_update [OF this] show ?thesis
    by (simp add: bv_set_inner Let_def bit_at_grow)
qed

lemma length_bv_set: "length (inner (bv_set bv pos)) = max (length (inner bv)) (unat pos div 8 + 1)"
  by (auto simp: bv_set_inner Let_def grow_def max_def)


section \<open>The interface of a set of indices\<close>

text \<open>
  What the aggregation of signatures expects of the structure that collects validator indices:
  an empty structure, insertion and membership for indices below a bound.
\<close>

locale index_set =
  fixes mk :: "nat \<Rightarrow> 's"
    and add :: "'s \<Rightarrow> nat \<Rightarrow> 's"
    and mem :: "'s \<Rightarrow> nat \<Rightarrow> bool"
    and bound :: nat
  assumes mem_mk: "j < bound \<Longrightarrow> \<not> mem (mk n) j"
    and mem_add: "i < bound \<Longrightarrow> j < bound \<Longrightarrow> mem (add s i) j \<longleftrightarrow> j = i \<or> mem s j"
begin

lemma mem_fold_add:
  "\<forall>i\<in>set is. i < bound \<Longrightarrow> j < bound \<Longrightarrow>
     mem (fold (\<lambda>i s. add s i) is s) j \<longleftrightarrow> j \<in> set is \<or> mem s j"
  by (induction "is" arbitrary: s) (auto simp: mem_add)

lemma mem_collect:
  "\<forall>i\<in>set is. i < bound \<Longrightarrow> j < bound \<Longrightarrow>
     mem (fold (\<lambda>i s. add s i) is (mk n)) j \<longleftrightarrow> j \<in> set is"
  by (simp add: mem_fold_add mem_mk)

end

lemma bit_at_replicate: "\<not> bit_at (replicate n 0) p"
  by (auto simp: bit_at_def)

lemma unat_of_nat_u16: "i < 65536 \<Longrightarrow> unat (of_nat i :: u16) = i"
  by (simp add: unat_of_nat take_bit_nat_eq_self)

interpretation bv: index_set
  "\<lambda>n. with_num_bits (of_nat n)" "\<lambda>s i. bv_set s (of_nat i)" "\<lambda>s i. bv_is_set s (of_nat i)" 65536
  by unfold_locales
    (auto simp: bv_is_set_iff with_num_bits_def bit_at_replicate bit_at_set unat_of_nat_u16)

section \<open>Positions, counts and bounds\<close>

lemma bv_wf_set: "bv_wf bv \<Longrightarrow> bv_wf (bv_set bv pos)"
proof -
  assume "bv_wf bv"
  moreover have "unat pos < 65536" using unat_bound [of pos] by simp
  ultimately show ?thesis by (simp add: bv_wf_def length_bv_set MAX_BUCKETS_def)
qed

lemma bv_wf_with_num_bits: "bv_wf (with_num_bits n)"
proof -
  have "unat n < 65536" using unat_bound [of n] by simp
  then have "required_buckets n \<le> 8192"
    by (auto simp: required_buckets_def BUCKET_SIZE_def word_to_nat split: option.splits)
  then show ?thesis by (simp add: bv_wf_def with_num_bits_def MAX_BUCKETS_def)
qed

lemma iter_ones_eq:
  assumes "bv_wf bv"
  shows "iter_ones bv = filter (bit_at (inner bv)) [0..<length (inner bv) * 8]"
proof -
  have "unat (of_nat i :: u16) = i" if "i < length (inner bv) * 8" for i
    using assms that by (intro unat_of_nat_u16) (simp add: bv_wf_def MAX_BUCKETS_def)
  then show ?thesis
    by (auto simp: iter_ones_def BUCKET_SIZE_def bv_is_set_iff intro: filter_cong)
qed

lemma set_iter_ones:
  assumes "bv_wf bv"
  shows "set (iter_ones bv) = {i. bit_at (inner bv) i}"
  using assms by (auto simp: iter_ones_eq bit_at_def)

lemma distinct_iter_ones: "distinct (iter_ones bv)"
  by (simp add: iter_ones_def)

lemma sorted_iter_ones: "sorted (iter_ones bv)"
  by (simp add: iter_ones_def sorted_wrt_filter)

lemma bit_at_snoc:
  "bit_at (xs @ [b]) p \<longleftrightarrow> bit_at xs p \<or> p div 8 = length xs \<and> bit b (7 - p mod 8)"
  by (auto simp: bit_at_def nth_append less_Suc_eq)

lemma count_byte:
  "length (filter (\<lambda>p. bit_at (xs @ [b]) p) [length xs * 8..<length xs * 8 + 8]) = u8_count_ones b"
proof -
  have "[length xs * 8..<length xs * 8 + 8] = map (\<lambda>k. k + length xs * 8) [0..<8]"
    by (simp add: map_add_upt add.commute)
  moreover have "filter (\<lambda>k. bit_at (xs @ [b]) (k + length xs * 8)) [0..<8] =
      filter (\<lambda>k. bit b (7 - k)) [0..<8]"
    by (rule filter_cong) (auto simp: bit_at_def nth_append)
  moreover have "length (filter (\<lambda>k. bit b (7 - k)) [0..<8]) = u8_count_ones b"
    by (simp add: u8_count_ones_def upt_8)
  ultimately show ?thesis by (simp add: filter_map comp_def)
qed

lemma count_bytes: "length (filter (bit_at xs) [0..<length xs * 8]) = sum_list (map u8_count_ones xs)"
proof (induction xs rule: rev_induct)
  case Nil
  then show ?case by simp
next
  case (snoc b xs)
  have "[0..<length (xs @ [b]) * 8] = [0..<length xs * 8] @ [length xs * 8..<length xs * 8 + 8]"
    by (metis add.commute le_add1 length_append_singleton mult_Suc plus_nat.add_0 upt_add_eq_append)
  moreover have "filter (bit_at (xs @ [b])) [0..<length xs * 8] = filter (bit_at xs) [0..<length xs * 8]"
    by (rule filter_cong) (auto simp: bit_at_snoc)
  ultimately show ?case
    using snoc.IH count_byte [of xs b] by simp
qed

text \<open>The number of voters of an aggregated signature is the number of indices its bitmask
  enumerates: \<open>count_ones\<close> adds the ones of the bytes, \<open>iter_ones\<close> tests every position, and for
  every bit vector the deserializer accepts they count the same positions.\<close>

lemma count_ones_iter_ones:
  assumes "bv_deserialize v = Inr bv"
  shows "count_ones bv = length (iter_ones bv) \<and> set (iter_ones bv) = {i. i < 65536 \<and> bv_is_set bv (of_nat i)}"
proof -
  from assms have wf: "bv_wf bv"
    by (auto simp: bv_deserialize_def bv_wf_def split: if_splits)
  have "i < 65536" if "bit_at (inner bv) i" for i
    using that wf by (simp add: bit_at_def bv_wf_def MAX_BUCKETS_def) arith
  then have "{i. bit_at (inner bv) i} = {i. i < 65536 \<and> bv_is_set bv (of_nat i)}"
    by (auto simp: bv_is_set_iff unat_of_nat_u16)
  with wf show ?thesis
    by (simp add: set_iter_ones) (simp add: count_ones_def iter_ones_eq count_bytes)
qed

lemma u8_trailing_zeros_bit:
  assumes "b \<noteq> 0"
  shows "u8_trailing_zeros b < 8" and "bit b (u8_trailing_zeros b)"
    and "k < u8_trailing_zeros b \<Longrightarrow> \<not> bit b k"
proof -
  let ?P = "\<lambda>k. \<not> bit b k"
  obtain n where "bit b n" using assms bit_eqI [of b 0] by (auto simp: bit_0_eq)
  then have n: "n < 8" "bit b n" using bit_imp_le_length [of b n] by simp_all
  then have "length (takeWhile ?P [0..<8]) < length [0..<8::nat]"
    by (metis atLeastLessThan_iff length_takeWhile_le less_le set_upt takeWhile_eq_all_conv takeWhile_eq_take take_all zero_le)
  then show lt: "u8_trailing_zeros b < 8" by (simp add: u8_trailing_zeros_def)
  show "bit b (u8_trailing_zeros b)"
    using nth_length_takeWhile [of ?P "[0..<8]"] lt by (simp add: u8_trailing_zeros_def)
  assume k: "k < u8_trailing_zeros b"
  then have "takeWhile ?P [0..<8] ! k \<in> set (takeWhile ?P [0..<8])"
    by (simp add: u8_trailing_zeros_def)
  moreover have "takeWhile ?P [0..<8] ! k = k"
    using k lt by (simp add: takeWhile_nth u8_trailing_zeros_def)
  ultimately show "\<not> bit b k" using set_takeWhileD by fastforce
qed

lemma find_nonzero_Some:
  "find_nonzero i bs = Some (j, b) \<Longrightarrow>
     i \<le> j \<and> j - i < length bs \<and> bs ! (j - i) = b \<and> b \<noteq> 0 \<and> (\<forall>k < j - i. bs ! k = 0)"
proof (induction i bs rule: find_nonzero.induct)
  case (1 i)
  then show ?case by simp
next
  case (2 i c bs)
  show ?case
  proof (cases "c = 0")
    case True
    with 2 have "Suc i \<le> j" "j - Suc i < length bs" "bs ! (j - Suc i) = b" "b \<noteq> 0"
      "\<forall>k < j - Suc i. bs ! k = 0" by auto
    moreover from this have "j - i = Suc (j - Suc i)" by simp
    ultimately show ?thesis using True by (auto simp: nth_Cons split: nat.splits)
  qed (use 2 in auto)
qed

lemma find_nonzero_None: "find_nonzero i bs = None \<longleftrightarrow> (\<forall>b \<in> set bs. b = 0)"
  by (induction i bs rule: find_nonzero.induct) auto

lemma last_set_bit_None: "last_set_bit bv = None \<Longrightarrow> \<not> bit_at (inner bv) q"
proof
  assume "last_set_bit bv = None" and q: "bit_at (inner bv) q"
  then have "\<forall>b \<in> set (inner bv). b = 0"
    by (auto simp: last_set_bit_def find_nonzero_None split: option.splits)
  with q have "bit (0 :: u8) (7 - q mod 8)" by (metis bit_at_def nth_mem)
  then show False by simp
qed

lemma last_byte_positions:
  assumes m: "m < length xs" and b: "xs ! m \<noteq> 0" and zero: "\<forall>k. m < k \<and> k < length xs \<longrightarrow> xs ! k = 0"
    and p: "p = 8 * m + (7 - u8_trailing_zeros (xs ! m))"
  shows "bit_at xs p \<and> (\<forall>q. bit_at xs q \<longrightarrow> q \<le> p)"
proof (intro conjI allI impI)
  let ?z = "u8_trailing_zeros (xs ! m)"
  note tz = u8_trailing_zeros_bit [OF b]
  define r where "r = 7 - ?z"
  have "r < 8" "p = 8 * m + r" using p by (simp_all add: r_def)
  then have pd: "p div 8 = m" "p mod 8 = 7 - ?z" by (simp_all add: r_def [symmetric])
  show "bit_at xs p"
    using pd m tz(1,2) by (simp add: bit_at_def)
  fix q assume q: "bit_at xs q"
  have "q div 8 \<le> m"
    using q zero by (metis bit_0_eq bit_at_def bot_apply bot_bool_def not_le)
  moreover have "q mod 8 \<le> 7 - ?z" if "q div 8 = m"
  proof -
    have "\<not> 7 - q mod 8 < ?z" using q that tz(3) by (auto simp: bit_at_def)
    moreover have "q mod 8 < 8" by simp
    ultimately show ?thesis by linarith
  qed
  moreover have "q = 8 * (q div 8) + q mod 8" "q mod 8 < 8" by simp_all
  ultimately show "q \<le> p"
    using p by (cases "q div 8 = m") linarith+
qed

lemma last_set_bit_Some:
  assumes wf: "bv_wf bv" and last: "last_set_bit bv = Some p"
  shows "bit_at (inner bv) (unat p) \<and> (\<forall>q. bit_at (inner bv) q \<longrightarrow> q \<le> unat p)"
proof -
  let ?xs = "inner bv"
  from last obtain i b where f: "find_nonzero 0 (rev ?xs) = Some (i, b)"
    and p: "p = of_nat (8 * (length ?xs - i) - u8_trailing_zeros b - 1)"
    by (auto simp: last_set_bit_def split: option.splits prod.splits)
  from find_nonzero_Some [OF f] have i: "i < length ?xs" "rev ?xs ! i = b" "b \<noteq> 0"
    "\<forall>k < i. rev ?xs ! k = 0" by auto
  define m where "m = length ?xs - 1 - i"
  have m: "m < length ?xs" "?xs ! m = b" using i by (simp_all add: m_def rev_nth)
  have zero: "\<forall>k. m < k \<and> k < length ?xs \<longrightarrow> ?xs ! k = 0"
  proof (intro allI impI)
    fix k assume k: "m < k \<and> k < length ?xs"
    then have "rev ?xs ! (length ?xs - 1 - k) = 0" using i(4) by (auto simp: m_def)
    moreover have "rev ?xs ! (length ?xs - 1 - k) = ?xs ! k"
      using k by (subst rev_nth) auto
    ultimately show "?xs ! k = 0" by simp
  qed
  note tz = u8_trailing_zeros_bit(1) [OF i(3)]
  have e: "8 * (length ?xs - i) - u8_trailing_zeros b - 1 = 8 * m + (7 - u8_trailing_zeros b)"
    using i(1) tz by (simp add: m_def)
  moreover have "8 * m + (7 - u8_trailing_zeros b) < 65536"
    using m(1) wf by (simp add: bv_wf_def MAX_BUCKETS_def)
  ultimately have "unat p = 8 * m + (7 - u8_trailing_zeros (?xs ! m))"
    using p m(2) by (simp add: unat_of_nat_u16 del: of_nat_add of_nat_mult)
  with last_byte_positions [OF m(1) _ zero] i(3) m(2) show ?thesis by simp
qed

lemma bv_from_bools_fold:
  assumes "n + length bits \<le> 65536" and "j < 65536"
  shows "bv_is_set (fold (\<lambda>(index, b) bv. if b then bv_set bv (of_nat index) else bv)
             (enumerate n bits) bv) (of_nat j) \<longleftrightarrow>
         bv_is_set bv (of_nat j) \<or> (n \<le> j \<and> j < n + length bits \<and> bits ! (j - n))"
  using assms
proof (induction bits arbitrary: n bv)
  case Nil
  then show ?case by auto
next
  case (Cons b bits)
  have "n < 65536" using Cons.prems by simp
  then have "bv_is_set (if b then bv_set bv (of_nat n) else bv) (of_nat j) \<longleftrightarrow>
      bv_is_set bv (of_nat j) \<or> (b \<and> j = n)"
    using bv.mem_add [of n j bv] Cons.prems(2) by auto
  with Cons show ?case by (auto simp: nth_Cons' Suc_le_eq)
qed

text \<open>Round trip of a list of booleans through the bit vector: every list of at most 65536
  booleans is accepted, and position \<open>j\<close> of the result is set exactly where the list has true.\<close>

lemma bv_from_bools_is_set:
  assumes "length bits \<le> 65536" and "j < 65536"
  shows "\<exists>bv. bv_from_bools bits = Some bv \<and>
           (bv_is_set bv (of_nat j) \<longleftrightarrow> j < length bits \<and> bits ! j)"
  using assms bv_from_bools_fold [of 0 bits j "with_num_bits (of_nat (length bits))"]
    bv.mem_mk [of j "length bits"]
  by (simp add: bv_from_bools_def MAX_BUCKETS_def BUCKET_SIZE_def)

lemma bit_at_bitand: "bit_at (inner (bv_bitand a b)) p \<longleftrightarrow> bit_at (inner a) p \<and> bit_at (inner b) p"
  by (auto simp: bit_at_def bv_bitand_def Let_def bit_and_iff)

lemma bit_at_bitor: "bit_at (inner (bv_bitor a b)) p \<longleftrightarrow> bit_at (inner a) p \<or> bit_at (inner b) p"
proof (cases "p div 8 < max (length (inner a)) (length (inner b))")
  case True
  then have "[0..<max (length (inner a)) (length (inner b))] ! (p div 8) = p div 8" by simp
  with True show ?thesis
    by (auto simp: bit_at_def bv_bitor_def byte_or_zero_def Let_def bit_or_iff)
qed (auto simp: bit_at_def bv_bitor_def Let_def)

section \<open>Made by the interface\<close>

text \<open>The bit vectors that a caller can make.\<close>

inductive bv_made :: "bit_vec \<Rightarrow> bool" where
  made_default: "bv_made bv_default"
| made_with_num_bits: "bv_made (with_num_bits n)"
| made_from_iter: "bv_made (bv_from_iter bits)"
| made_from_bytes: "bv_from_bytes raw = Some bv \<Longrightarrow> bv_made bv"
| made_from_bools: "bv_from_bools bools = Some bv \<Longrightarrow> bv_made bv"
| made_deserialize: "bv_deserialize v = Inr bv \<Longrightarrow> bv_made bv"
| made_set: "bv_made bv \<Longrightarrow> bv_made (bv_set bv pos)"
| made_bitand: "bv_made a \<Longrightarrow> bv_made b \<Longrightarrow> bv_made (bv_bitand a b)"
| made_bitor: "bv_made a \<Longrightarrow> bv_made b \<Longrightarrow> bv_made (bv_bitor a b)"

lemma bv_wf_fold_set: "bv_wf bv \<Longrightarrow> bv_wf (fold (\<lambda>x bv. if P x then bv_set bv (f x) else bv) xs bv)"
  by (induction xs arbitrary: bv) (simp_all add: bv_wf_set)

lemma bv_made_wf: "bv_made bv \<Longrightarrow> bv_wf bv"
proof (induction rule: bv_made.induct)
  case (made_from_iter bits)
  show ?case using bv_wf_fold_set [of bv_default "\<lambda>_. True" ucast bits] by (simp add: bv_from_iter_def bv_wf_def bv_default_def)
next
  case (made_from_bools bools bv)
  then show ?case
    using bv_wf_fold_set [of "with_num_bits (of_nat (length bools))" snd "\<lambda>p. of_nat (fst p)"] bv_wf_with_num_bits
    by (auto simp: bv_from_bools_def case_prod_unfold split: if_splits)
next
  case (made_set bv pos)
  show ?case by (rule bv_wf_set [OF made_set.IH])
next
  case (made_with_num_bits n)
  show ?case by (rule bv_wf_with_num_bits)
qed (auto simp: bv_default_def bv_from_bytes_def bv_deserialize_def bv_bitand_def bv_bitor_def bv_wf_def Let_def
    split: if_splits)

text \<open>C40. Every bit vector that the interface lets a caller make has at most as many buckets as the deserializer accepts, so that
  reading back its bytes gives the bit vector again, and its positions fit into 16 bits.\<close>

theorem bit_vec_values_deserialize:
  assumes "bv_made bv"
  shows "bv_deserialize (inner bv) = Inr bv \<and> num_buckets bv \<le> MAX_BUCKETS \<and> (\<forall>i \<in> set (iter_ones bv). i < 2 ^ 16)"
  using bv_made_wf [OF assms] by (auto simp: bv_wf_def bv_deserialize_def num_buckets_def iter_ones_def BUCKET_SIZE_def MAX_BUCKETS_def)

theorem bit_vec_values_deserialize_witness:
  "bv_deserialize (inner (bv_set (with_num_bits 3) 65535)) = Inr (bv_set (with_num_bits 3) 65535)"
  using bit_vec_values_deserialize [OF made_set [OF made_with_num_bits], of 3 65535] by blast

end
