(* ===== verification/Hash_Value.thy ===== *)
theory Hash_Value
  imports Aptos_Prelude
begin

text \<open>
  Hash values, crates/aptos-crypto/src/hash.rs: 32 bytes, here the 256-bit word they are in
  big-endian order, so that bit \<open>i\<close> of the source, counted from the first byte, is bit
  \<open>255 - i\<close> of the word and the order of the words is the lexicographic order of the bytes. The
  hash functions themselves (SHA3) are not part of the sources; the models that hash take the
  function they apply as a parameter.
\<close>

type_synonym hash_value = "256 word"

definition LENGTH_IN_BITS :: nat where "LENGTH_IN_BITS = 256"

definition hash_zero :: hash_value where "hash_zero = 0"

definition hash_bit :: "hash_value \<Rightarrow> nat \<Rightarrow> bool" where
  "hash_bit v index = bit v (255 - index)"

definition iter_bits :: "hash_value \<Rightarrow> bool list" where
  "iter_bits v = map (hash_bit v) [0..<LENGTH_IN_BITS]"

definition common_prefix_bits_len :: "hash_value \<Rightarrow> hash_value \<Rightarrow> nat" where
  "common_prefix_bits_len v w = length (takeWhile (\<lambda>(x, y). x = y) (zip (iter_bits v) (iter_bits w)))"

text \<open>The literal hashes: the bytes of a name, filled up with zeros on the right.\<close>

definition create_literal_hash :: "string \<Rightarrow> hash_value" where
  "create_literal_hash s =
     foldl (\<lambda>acc c. acc * 256 + of_char c) 0 s * 256 ^ (32 - length s)"

definition ACCUMULATOR_PLACEHOLDER_HASH :: hash_value where
  "ACCUMULATOR_PLACEHOLDER_HASH = create_literal_hash ''ACCUMULATOR_PLACEHOLDER_HASH''"

definition SPARSE_MERKLE_PLACEHOLDER_HASH :: hash_value where
  "SPARSE_MERKLE_PLACEHOLDER_HASH = create_literal_hash ''SPARSE_MERKLE_PLACEHOLDER_HASH''"

lemma length_iter_bits [simp]: "length (iter_bits v) = 256"
  by (simp add: iter_bits_def LENGTH_IN_BITS_def)

lemma iter_bits_nth: "i < 256 \<Longrightarrow> iter_bits v ! i = hash_bit v i"
  by (simp add: iter_bits_def LENGTH_IN_BITS_def)

lemma takeWhile_len_ge: "n \<le> length xs \<Longrightarrow> n \<le> length (takeWhile P xs) \<longleftrightarrow> (\<forall>i<n. P (xs ! i))"
proof (induction xs arbitrary: n)
  case (Cons x xs)
  show ?case
  proof (cases n)
    case (Suc m)
    with Cons show ?thesis by (auto simp: All_less_Suc2)
  qed simp
qed simp

lemma common_prefix_bits_len_ge:
  assumes "n \<le> 256"
  shows "n \<le> common_prefix_bits_len v w \<longleftrightarrow> (\<forall>i<n. hash_bit v i = hash_bit w i)"
proof -
  have "n \<le> length (zip (iter_bits v) (iter_bits w))" using assms by simp
  from takeWhile_len_ge [OF this] show ?thesis
    using assms by (auto simp: common_prefix_bits_len_def iter_bits_nth)
qed

end
