(* ===== verification/Validator_Verifier.thy ===== *)
theory Validator_Verifier
  imports Bit_Vec Hash_Value
begin

text \<open>
  Signatures of a validator set: types/src/aggregate_signature.rs and
  types/src/validator_verifier.rs.

  The BLS library is not part of the sources (the \<open>blst\<close> crate behind
  crates/aptos-crypto/src/bls12381): its operations are the fields of the record \<open>bls\<close>, an argument
  of every definition that uses one, over the type \<open>'m\<close> of the messages that are signed. Keys,
  signatures and addresses are the byte strings of their fixed length, as words.

  The lemmas show the arithmetic of quorums: the voting power two accepted sets of signers have
  in common, and that aggregation and verification agree on who the signers are.
\<close>

section \<open>Keys, signatures and their operations\<close>

type_synonym account_address = "256 word"
type_synonym public_key = "384 word"
type_synonym private_key = "256 word"
type_synonym bls_signature = "768 word"

record 'm bls =
  verify_struct_signature :: "public_key \<Rightarrow> 'm \<Rightarrow> bls_signature \<Rightarrow> bool"
  aggregate_sigs :: "bls_signature list \<Rightarrow> bls_signature option"
  aggregate_keys :: "public_key list \<Rightarrow> public_key option"
  verify_aggregate :: "bls_signature \<Rightarrow> 'm list \<Rightarrow> public_key list \<Rightarrow> bool"
  bls_sign :: "private_key \<Rightarrow> 'm \<Rightarrow> bls_signature option"
  bls_public_key :: "private_key \<Rightarrow> public_key"

record aggregate_signature =
  validator_bitmask :: bit_vec
  agg_sig :: "bls_signature option"

definition aggregate_signature_empty :: aggregate_signature where
  "aggregate_signature_empty = \<lparr>validator_bitmask = bv_default, agg_sig = None\<rparr>"

definition get_signers_addresses ::
  "aggregate_signature \<Rightarrow> account_address list \<Rightarrow> account_address list" where
  "get_signers_addresses s validator_addresses =
     map snd (filter (\<lambda>(index, addr). bv_is_set (validator_bitmask s) (of_nat index))
       (enumerate 0 validator_addresses))"

definition get_num_voters :: "aggregate_signature \<Rightarrow> nat" where
  "get_num_voters s = count_ones (validator_bitmask s)"

text \<open>\<open>PartialSignatures\<close> is a \<open>BTreeMap\<close> from the signer to its signature.\<close>

type_synonym partial_signatures = "(account_address, bls_signature) btree"

definition ps_remove_signature :: "partial_signatures \<Rightarrow> account_address \<Rightarrow> partial_signatures" where
  "ps_remove_signature ps validator = bt_remove validator ps"

definition ps_add_signature ::
  "partial_signatures \<Rightarrow> account_address \<Rightarrow> bls_signature \<Rightarrow> partial_signatures" where
  "ps_add_signature ps validator signature = bt_entry validator signature ps"

section \<open>The verifier\<close>

datatype verify_error =
    UnknownAuthor
  | TooLittleVotingPower u128 u128
  | EmptySignature
  | InvalidMultiSignature
  | InvalidAggregatedSignature
  | InconsistentBlockInfo
  | FailedToAggregatePubKey
  | FailedToAggregateSignature
  | FailedToVerifyMultiSignature
  | InvalidBitVec
  | FailedToVerifyAggregatedSignature

record validator_consensus_info =
  vci_address :: account_address
  vci_public_key :: public_key
  vci_voting_power :: u64

text \<open>
  The index is a \<open>HashMap\<close> that is only looked up. It is kept as the association list of its
  insertions, the latest first, so that lookups see the last insertion of a key.
\<close>

record validator_verifier =
  validator_infos :: "validator_consensus_info list"
  quorum_voting_power :: u128
  total_voting_power :: u128
  address_to_validator_index :: "(account_address \<times> nat) list"

definition build_index :: "validator_consensus_info list \<Rightarrow> u128 \<Rightarrow> u128 \<Rightarrow> validator_verifier" where
  "build_index infos quorum total_power =
     \<lparr>validator_infos = infos, quorum_voting_power = quorum, total_voting_power = total_power,
      address_to_validator_index =
        rev (map (\<lambda>(index, info). (vci_address info, index)) (enumerate 0 infos))\<rparr>"

fun sum_voting_power_from :: "u128 \<Rightarrow> validator_consensus_info list \<Rightarrow> ('e, u128) result" where
  "sum_voting_power_from acc [] = Inr acc"
| "sum_voting_power_from acc (x # xs) =
     and_then (expect (checked_add acc (ucast (vci_voting_power x))))
       (\<lambda>acc'. sum_voting_power_from acc' xs)"

definition sum_voting_power :: "validator_consensus_info list \<Rightarrow> ('e, u128) result" where
  "sum_voting_power infos = sum_voting_power_from 0 infos"

definition verifier_new :: "validator_consensus_info list \<Rightarrow> ('e, validator_verifier) result" where
  "verifier_new infos =
     and_then (sum_voting_power infos) (\<lambda>total_power.
     and_then
       (if infos = [] then Inr 0
        else and_then (expect (checked_mul total_power 2)) (\<lambda>t2. expect (checked_add (t2 div 3) 1)))
       (\<lambda>quorum. Inr (build_index infos quorum total_power)))"

definition new_with_quorum_voting_power ::
  "validator_consensus_info list \<Rightarrow> u128 \<Rightarrow> validator_verifier anyhow" where
  "new_with_quorum_voting_power infos quorum =
     and_then (sum_voting_power infos) (\<lambda>total_power.
     and_then (ensure (quorum \<le> total_power)
         ''Quorum voting power is greater than the sum of all voting power of authors'') (\<lambda>_.
     Inr (build_index infos quorum total_power)))"

definition new_single :: "account_address \<Rightarrow> public_key \<Rightarrow> ('e, validator_verifier) result" where
  "new_single author pk =
     verifier_new [\<lparr>vci_address = author, vci_public_key = pk, vci_voting_power = 1\<rparr>]"

text \<open>Every index of the map is in range for the verifiers \<open>build_index\<close> makes
  (\<open>index_in_range\<close> below), the only constructor of the private fields.\<close>

definition get_public_key :: "validator_verifier \<Rightarrow> account_address \<Rightarrow> public_key option" where
  "get_public_key v author =
     map_option (\<lambda>index. vci_public_key (validator_infos v ! index))
       (map_of (address_to_validator_index v) author)"

definition get_voting_power :: "validator_verifier \<Rightarrow> account_address \<Rightarrow> u64 option" where
  "get_voting_power v author =
     map_option (\<lambda>index. vci_voting_power (validator_infos v ! index))
       (map_of (address_to_validator_index v) author)"

definition get_ordered_account_addresses :: "validator_verifier \<Rightarrow> account_address list" where
  "get_ordered_account_addresses v = map vci_address (validator_infos v)"

definition verifier_len :: "validator_verifier \<Rightarrow> nat" where
  "verifier_len v = length (validator_infos v)"

definition verifier_verify ::
  "('m, 'z) bls_scheme \<Rightarrow> validator_verifier \<Rightarrow> account_address \<Rightarrow> 'm \<Rightarrow> bls_signature \<Rightarrow>
     (verify_error, unit) result" where
  "verifier_verify cr v author message signature =
     (case get_public_key v author of
        Some pk \<Rightarrow> ensure (verify_struct_signature cr pk message signature) InvalidMultiSignature
      | None \<Rightarrow> Inl (Err UnknownAuthor))"

fun collect_partial ::
  "validator_verifier \<Rightarrow> partial_signatures \<Rightarrow> bit_vec \<Rightarrow> bls_signature list \<Rightarrow>
     (verify_error, bit_vec \<times> bls_signature list) result" where
  "collect_partial v [] masks sigs = Inr (masks, sigs)"
| "collect_partial v ((addr, sig) # rest) masks sigs =
     and_then (ok_or (map_of (address_to_validator_index v) addr) UnknownAuthor) (\<lambda>index.
       collect_partial v rest (bv_set masks (of_nat index)) (sigs @ [sig]))"

definition aggregate_signatures ::
  "('m, 'z) bls_scheme \<Rightarrow> validator_verifier \<Rightarrow> partial_signatures \<Rightarrow>
     (verify_error, aggregate_signature) result" where
  "aggregate_signatures cr v partial =
     and_then (collect_partial v partial (with_num_bits (of_nat (verifier_len v))) []) (\<lambda>(masks, sigs).
     and_then (ok_or (aggregate_sigs cr sigs) FailedToAggregateSignature) (\<lambda>aggregated.
     Inr \<lparr>validator_bitmask = masks, agg_sig = Some aggregated\<rparr>))"

definition check_num_of_voters :: "u16 \<Rightarrow> bit_vec \<Rightarrow> (verify_error, unit) result" where
  "check_num_of_voters num_validators bitvec =
     (if num_buckets bitvec \<noteq> required_buckets num_validators then Inl (Err InvalidBitVec)
      else case last_set_bit bitvec of
             Some last_bit \<Rightarrow>
               if last_bit \<ge> num_validators then Inl (Err InvalidBitVec) else Inr ()
           | None \<Rightarrow> Inr ())"

fun aggregate_power :: "validator_verifier \<Rightarrow> account_address list \<Rightarrow> u128 \<Rightarrow> (verify_error, u128) result" where
  "aggregate_power v [] acc = Inr acc"
| "aggregate_power v (a # as) acc =
     (case get_voting_power v a of
        Some vpower \<Rightarrow>
          and_then (expect (checked_add acc (ucast vpower))) (\<lambda>acc'. aggregate_power v as acc')
      | None \<Rightarrow> Inl (Err UnknownAuthor))"

definition check_voting_power ::
  "validator_verifier \<Rightarrow> account_address list \<Rightarrow> bool \<Rightarrow> (verify_error, unit) result" where
  "check_voting_power v authors check_super_majority =
     and_then (aggregate_power v authors 0) (\<lambda>vpower.
     and_then
       (if check_super_majority then Inr (quorum_voting_power v)
        else and_then (expect (checked_sub (total_voting_power v) (quorum_voting_power v)))
               (\<lambda>d. expect (checked_add d 1)))
       (\<lambda>target.
     if vpower < target then Inl (Err (TooLittleVotingPower vpower target)) else Inr ()))"

fun collect_signers ::
  "validator_verifier \<Rightarrow> nat list \<Rightarrow> (verify_error, (account_address \<times> public_key) list) result" where
  "collect_signers v [] = Inr []"
| "collect_signers v (i # is) =
     (if i < length (validator_infos v)
      then and_then (collect_signers v is) (\<lambda>rest.
             Inr ((vci_address (validator_infos v ! i), vci_public_key (validator_infos v ! i)) # rest))
      else Inl (Err UnknownAuthor))"

definition verify_multi_signatures ::
  "('m, 'z) bls_scheme \<Rightarrow> validator_verifier \<Rightarrow> 'm \<Rightarrow> aggregate_signature \<Rightarrow>
     (verify_error, unit) result" where
  "verify_multi_signatures cr v message multi_signature =
     and_then (check_num_of_voters (of_nat (verifier_len v)) (validator_bitmask multi_signature)) (\<lambda>_.
     and_then (collect_signers v (iter_ones (validator_bitmask multi_signature))) (\<lambda>signers.
     and_then (check_voting_power v (map fst signers) True) (\<lambda>_.
     and_then (ok_or (agg_sig multi_signature) EmptySignature) (\<lambda>multi_sig.
     and_then (ok_or (aggregate_keys cr (map snd signers)) FailedToAggregatePubKey) (\<lambda>aggregated_key.
     ensure (verify_struct_signature cr aggregated_key message multi_sig) InvalidMultiSignature)))))"

definition verify_aggregate_signatures ::
  "('m, 'z) bls_scheme \<Rightarrow> validator_verifier \<Rightarrow> 'm list \<Rightarrow> aggregate_signature \<Rightarrow>
     (verify_error, unit) result" where
  "verify_aggregate_signatures cr v messages aggregated_signature =
     and_then (check_num_of_voters (of_nat (verifier_len v)) (validator_bitmask aggregated_signature)) (\<lambda>_.
     and_then (collect_signers v (iter_ones (validator_bitmask aggregated_signature))) (\<lambda>signers.
     and_then (check_voting_power v (map fst signers) True) (\<lambda>_.
     and_then (ok_or (agg_sig aggregated_signature) EmptySignature) (\<lambda>aggregated_sig.
     ensure (verify_aggregate cr aggregated_sig messages (map snd signers)) InvalidAggregatedSignature))))"

section \<open>Voting power in the natural numbers\<close>

definition vp :: "validator_verifier \<Rightarrow> account_address \<Rightarrow> nat" where
  "vp v a = (case get_voting_power v a of None \<Rightarrow> 0 | Some p \<Rightarrow> unat p)"

definition power_of :: "validator_verifier \<Rightarrow> account_address set \<Rightarrow> nat" where
  "power_of v A = (\<Sum>a\<in>A. vp v a)"

definition validator_set :: "validator_verifier \<Rightarrow> account_address set" where
  "validator_set v = vci_address ` set (validator_infos v)"

text \<open>What \<open>verifier_new\<close> guarantees of a non-empty list of validators with distinct addresses.\<close>

definition verifier_wf :: "validator_verifier \<Rightarrow> bool" where
  "verifier_wf v \<longleftrightarrow>
     v = build_index (validator_infos v) (quorum_voting_power v) (total_voting_power v) \<and>
     distinct (map vci_address (validator_infos v)) \<and>
     unat (total_voting_power v) = (\<Sum>i\<leftarrow>validator_infos v. unat (vci_voting_power i)) \<and>
     unat (quorum_voting_power v) = 2 * unat (total_voting_power v) div 3 + 1"

lemma map_of_index:
  assumes "distinct (map vci_address infos)"
  shows "map_of (address_to_validator_index (build_index infos q t)) a = Some i \<longleftrightarrow>
         i < length infos \<and> vci_address (infos ! i) = a"
proof -
  let ?l = "rev (map (\<lambda>(index, info). (vci_address info, index)) (enumerate 0 infos))"
  have "map fst (map (\<lambda>(index, info). (vci_address info, index)) (enumerate 0 infos)) =
      map vci_address infos"
    by (rule nth_equalityI) (auto simp: nth_enumerate_eq)
  then have "distinct (map fst ?l)"
    using assms by (simp add: rev_map [symmetric])
  then have "map_of ?l a = Some i \<longleftrightarrow> (a, i) \<in> set ?l"
    by (rule map_of_eq_Some_iff)
  also have "\<dots> \<longleftrightarrow> (\<exists>info. (i, info) \<in> set (enumerate 0 infos) \<and> vci_address info = a)"
    by auto
  finally show ?thesis
    by (simp add: build_index_def in_set_enumerate_eq)
qed

lemma sum_voting_power_from_ok:
  "sum_voting_power_from acc xs = Inr t \<Longrightarrow> unat t = unat acc + (\<Sum>i\<leftarrow>xs. unat (vci_voting_power i))"
  by (induction acc xs rule: sum_voting_power_from.induct) (auto simp: result_simps word_to_nat)

lemma verifier_new_wf:
  assumes "verifier_new infos = Inr v" and "infos \<noteq> []" and "distinct (map vci_address infos)"
  shows "verifier_wf v \<and> validator_infos v = infos"
proof -
  from assms obtain t t2 q where t: "sum_voting_power infos = (Inr t :: ('a, u128) result)"
    and q: "checked_mul t 2 = Some t2" "checked_add (t2 div 3) 1 = Some q" and v: "v = build_index infos q t"
    by (auto simp: verifier_new_def result_simps)
  have "unat t = (\<Sum>i\<leftarrow>infos. unat (vci_voting_power i))"
    using sum_voting_power_from_ok t by (fastforce simp: sum_voting_power_def)
  moreover have "unat q = 2 * unat t div 3 + 1"
    using q by (simp add: word_to_nat unat_div_distrib mult.commute)
  ultimately show ?thesis
    using v assms(3) by (simp add: verifier_wf_def build_index_def)
qed

lemma verifier_wf_index:
  assumes "verifier_wf v"
  shows "map_of (address_to_validator_index v) a = Some i \<longleftrightarrow>
         i < length (validator_infos v) \<and> vci_address (validator_infos v ! i) = a"
  using assms map_of_index [of "validator_infos v"] by (metis verifier_wf_def)

lemma index_in_range:
  "map_of (address_to_validator_index (build_index infos q t)) a = Some i \<Longrightarrow> i < length infos"
  by (auto simp: build_index_def in_set_enumerate_eq dest!: map_of_SomeD)

lemma get_voting_power_nth:
  assumes "verifier_wf v" and "i < length (validator_infos v)"
  shows "get_voting_power v (vci_address (validator_infos v ! i)) =
         Some (vci_voting_power (validator_infos v ! i))"
proof -
  have "map_of (address_to_validator_index v) (vci_address (validator_infos v ! i)) = Some i"
    using assms verifier_wf_index [OF assms(1)] by blast
  then show ?thesis by (simp add: get_voting_power_def)
qed

lemma get_voting_power_None:
  assumes "verifier_wf v"
  shows "get_voting_power v a = None \<longleftrightarrow> a \<notin> validator_set v"
proof -
  have "get_voting_power v a \<noteq> None \<longleftrightarrow> (\<exists>i. map_of (address_to_validator_index v) a = Some i)"
    by (auto simp: get_voting_power_def)
  also have "\<dots> \<longleftrightarrow> (\<exists>info \<in> set (validator_infos v). vci_address info = a)"
    unfolding verifier_wf_index [OF assms] by (metis in_set_conv_nth)
  finally show ?thesis by (auto simp: validator_set_def)
qed

lemma aggregate_power_ok:
  "aggregate_power v as acc = Inr p \<Longrightarrow>
     unat p = unat acc + (\<Sum>a\<leftarrow>as. vp v a) \<and> (\<forall>a\<in>set as. get_voting_power v a \<noteq> None)"
  by (induction v as acc rule: aggregate_power.induct)
     (auto simp: result_simps word_to_nat vp_def split: option.splits)

lemma check_voting_power_ok:
  assumes "verifier_wf v" and "check_voting_power v as True = Inr u"
  shows "unat (quorum_voting_power v) \<le> (\<Sum>a\<leftarrow>as. vp v a) \<and> set as \<subseteq> validator_set v"
proof -
  from assms(2) obtain p where p: "aggregate_power v as 0 = Inr p" "quorum_voting_power v \<le> p"
    by (auto simp: check_voting_power_def result_simps split: if_splits)
  with aggregate_power_ok [OF p(1)] show ?thesis
    using get_voting_power_None [OF assms(1)] by (auto simp: word_le_nat_alt)
qed

lemma power_of_validators:
  assumes "verifier_wf v"
  shows "power_of v (validator_set v) = unat (total_voting_power v)"
proof -
  let ?is = "validator_infos v"
  have d: "distinct (map vci_address ?is)" using assms by (simp add: verifier_wf_def)
  have "vp v (vci_address i) = unat (vci_voting_power i)" if "i \<in> set ?is" for i
    using that get_voting_power_nth [OF assms] by (auto simp: vp_def in_set_conv_nth)
  then have "(\<Sum>i\<leftarrow>?is. unat (vci_voting_power i)) = (\<Sum>i\<leftarrow>?is. vp v (vci_address i))"
    by (simp cong: map_cong)
  also have "\<dots> = (\<Sum>a\<leftarrow>map vci_address ?is. vp v a)" by (simp add: comp_def)
  also have "\<dots> = power_of v (validator_set v)"
    using sum_list_distinct_conv_sum_set [OF d, of "vp v"] by (simp add: power_of_def validator_set_def)
  finally show ?thesis using assms by (simp add: verifier_wf_def)
qed

lemma finite_validator_set [simp]: "finite (validator_set v)"
  by (simp add: validator_set_def)

definition is_quorum :: "validator_verifier \<Rightarrow> account_address set \<Rightarrow> bool" where
  "is_quorum v Q \<longleftrightarrow> Q \<subseteq> validator_set v \<and> unat (quorum_voting_power v) \<le> power_of v Q"

text \<open>The faulty validators hold at most a third of the voting power.\<close>

definition tolerates :: "validator_verifier \<Rightarrow> account_address set \<Rightarrow> bool" where
  "tolerates v F \<longleftrightarrow> 3 * power_of v (F \<inter> validator_set v) \<le> unat (total_voting_power v)"

lemma is_quorum_check:
  assumes "verifier_wf v" and "check_voting_power v as True = Inr u" and "distinct as"
  shows "is_quorum v (set as)"
  using check_voting_power_ok [OF assms(1,2)] assms(3)
  by (simp add: is_quorum_def power_of_def sum_list_distinct_conv_sum_set)

lemma quorum_overlap:
  assumes wf: "verifier_wf v" and Q: "is_quorum v Q" and R: "is_quorum v R"
  shows "unat (total_voting_power v) < 3 * power_of v (Q \<inter> R)"
proof -
  have fin: "finite Q" "finite R"
    using Q R finite_subset [OF _ finite_validator_set [of v]] by (auto simp: is_quorum_def)
  have "power_of v Q + power_of v R = power_of v (Q \<union> R) + power_of v (Q \<inter> R)"
    unfolding power_of_def by (rule sum.union_inter [OF fin, symmetric])
  moreover have "power_of v (Q \<union> R) \<le> power_of v (validator_set v)"
    unfolding power_of_def using Q R by (intro sum_mono2) (auto simp: is_quorum_def)
  moreover have "unat (quorum_voting_power v) = 2 * unat (total_voting_power v) div 3 + 1"
    using wf by (simp add: verifier_wf_def)
  moreover have "2 * unat (total_voting_power v) < 3 * (2 * unat (total_voting_power v) div 3 + 1)"
    by simp
  ultimately show ?thesis
    using Q R power_of_validators [OF wf] unfolding is_quorum_def by linarith
qed

lemma quorum_honest_overlap:
  assumes wf: "verifier_wf v" and F: "tolerates v F" and Q: "is_quorum v Q" and R: "is_quorum v R"
  shows "\<exists>a. a \<in> Q \<and> a \<in> R \<and> a \<notin> F"
proof (rule ccontr)
  assume "\<not> ?thesis"
  then have "Q \<inter> R \<subseteq> F \<inter> validator_set v"
    using Q by (auto simp: is_quorum_def)
  then have "power_of v (Q \<inter> R) \<le> power_of v (F \<inter> validator_set v)"
    unfolding power_of_def by (intro sum_mono2) auto
  with F quorum_overlap [OF wf Q R] show False by (simp add: tolerates_def)
qed


text \<open>
  The interface of quorums that agreement rests on: two quorums share a member that is not
  faulty, as long as the faulty ones are tolerated.
\<close>

locale quorum_system =
  fixes wf :: "'v \<Rightarrow> bool"
    and quorum :: "'v \<Rightarrow> 'a set \<Rightarrow> bool"
    and tolerated :: "'v \<Rightarrow> 'a set \<Rightarrow> bool"
  assumes overlap:
    "wf v \<Longrightarrow> tolerated v F \<Longrightarrow> quorum v Q \<Longrightarrow> quorum v R \<Longrightarrow> \<exists>a. a \<in> Q \<and> a \<in> R \<and> a \<notin> F"
begin

lemma quorum_has_honest: "wf v \<Longrightarrow> tolerated v F \<Longrightarrow> quorum v Q \<Longrightarrow> \<exists>a. a \<in> Q \<and> a \<notin> F"
  using overlap by blast

text \<open>Where honest members hold at most one value each, two quorums cannot hold two values.\<close>

lemma quorum_single_value:
  assumes "wf v" "tolerated v F" "quorum v Q" "quorum v R"
    and "\<And>a. a \<in> Q \<Longrightarrow> a \<notin> F \<Longrightarrow> P a x" and "\<And>a. a \<in> R \<Longrightarrow> a \<notin> F \<Longrightarrow> P a y"
    and "\<And>a x y. a \<notin> F \<Longrightarrow> P a x \<Longrightarrow> P a y \<Longrightarrow> x = y"
  shows "x = y"
  using assms(5-) overlap [OF assms(1-4)] by blast

end

interpretation validators: quorum_system verifier_wf is_quorum tolerates
  by unfold_locales (rule quorum_honest_overlap)

section \<open>Who signed\<close>

definition signers :: "validator_verifier \<Rightarrow> aggregate_signature \<Rightarrow> account_address list" where
  "signers v s = map (\<lambda>i. vci_address (validator_infos v ! i)) (iter_ones (validator_bitmask s))"

lemma collect_signers_ok:
  "collect_signers v is = Inr ss \<longleftrightarrow>
     (\<forall>i\<in>set is. i < length (validator_infos v)) \<and>
     ss = map (\<lambda>i. (vci_address (validator_infos v ! i), vci_public_key (validator_infos v ! i))) is"
  by (induction v "is" arbitrary: ss rule: collect_signers.induct) (auto simp: result_simps)

lemma distinct_signers:
  assumes "verifier_wf v" and "\<forall>i\<in>set (iter_ones (validator_bitmask s)). i < length (validator_infos v)"
  shows "distinct (signers v s)"
proof -
  have "inj_on (\<lambda>i. vci_address (validator_infos v ! i)) (set (iter_ones (validator_bitmask s)))"
    using assms by (auto simp: inj_on_def verifier_wf_def distinct_conv_nth)
  then show ?thesis
    by (simp add: signers_def distinct_map distinct_iter_ones)
qed

lemma signers_quorum:
  assumes wf: "verifier_wf v" and c: "collect_signers v (iter_ones (validator_bitmask s)) = Inr ss"
    and p: "check_voting_power v (map fst ss) True = Inr u"
  shows "is_quorum v (set (signers v s))"
proof -
  from c have i: "\<forall>i\<in>set (iter_ones (validator_bitmask s)). i < length (validator_infos v)"
    and "map fst ss = signers v s"
    by (auto simp: collect_signers_ok signers_def comp_def)
  with p is_quorum_check [OF wf _ distinct_signers [OF wf i]] show ?thesis by simp
qed

lemma verify_multi_signatures_quorum:
  assumes "verifier_wf v" and "verify_multi_signatures cr v m s = Inr u"
  shows "is_quorum v (set (signers v s))"
  using assms signers_quorum by (fastforce simp: verify_multi_signatures_def result_simps)

lemma verify_aggregate_signatures_quorum:
  assumes "verifier_wf v" and "verify_aggregate_signatures cr v ms s = Inr u"
  shows "is_quorum v (set (signers v s))"
  using assms signers_quorum by (fastforce simp: verify_aggregate_signatures_def result_simps)


lemma aggregate_power_complete:
  "\<forall>a\<in>set as. get_voting_power v a \<noteq> None \<Longrightarrow> unat acc + (\<Sum>a\<leftarrow>as. vp v a) < 2 ^ 128 \<Longrightarrow>
     \<exists>p. aggregate_power v as acc = Inr p"
proof (induction v as acc rule: aggregate_power.induct)
  case (2 v a as acc)
  then obtain p where p: "get_voting_power v a = Some p" "vp v a = unat p"
    by (auto simp: vp_def)
  with "2.prems" obtain acc' where acc': "checked_add acc (ucast p) = Some acc'"
    "unat acc' = unat acc + unat p"
    by (cases "checked_add acc (ucast p)") (auto simp: word_to_nat)
  from 2 p acc' have "\<exists>q. aggregate_power v as acc' = Inr q"
    by (simp add: add.assoc expect_def)
  with p acc' show ?case by (simp add: expect_def)
qed simp

lemma check_voting_power_iff:
  assumes wf: "verifier_wf v" and d: "distinct as"
  shows "check_voting_power v as True = Inr () \<longleftrightarrow> is_quorum v (set as)"
proof
  assume "check_voting_power v as True = Inr ()"
  then show "is_quorum v (set as)" by (rule is_quorum_check [OF wf _ d])
next
  assume q: "is_quorum v (set as)"
  have sum: "(\<Sum>a\<leftarrow>as. vp v a) = power_of v (set as)"
    using d by (simp add: power_of_def sum_list_distinct_conv_sum_set)
  also have "\<dots> \<le> power_of v (validator_set v)"
    unfolding power_of_def using q by (intro sum_mono2) (auto simp: is_quorum_def)
  also have "\<dots> < 2 ^ 128"
    using power_of_validators [OF wf] unat_bound [of "total_voting_power v"] by simp
  finally have "\<exists>p. aggregate_power v as 0 = Inr p"
    using q get_voting_power_None [OF wf] by (intro aggregate_power_complete) (auto simp: is_quorum_def)
  then obtain p where p: "aggregate_power v as 0 = Inr p" by blast
  with aggregate_power_ok [OF p] sum q have "quorum_voting_power v \<le> p"
    by (simp add: is_quorum_def word_le_nat_alt)
  with p show "check_voting_power v as True = Inr ()"
    by (simp add: check_voting_power_def not_less)
qed

lemma required_buckets_le:
  assumes "i < n" and "n < 65536"
  shows "i div 8 + 1 \<le> required_buckets (of_nat n)"
proof -
  have n: "unat (of_nat n :: u16) = n" using assms(2) by (rule unat_of_nat_u16)
  then obtain c where c: "checked_sub (of_nat n :: u16) 1 = Some c" "n = 1 + unat c"
    using assms(1) by (cases "checked_sub (of_nat n :: u16) 1") (auto simp: word_to_nat)
  then show ?thesis
    using assms(1) div_le_mono [of i "unat c" 8] by (simp add: required_buckets_def BUCKET_SIZE_def)
qed

lemma collect_partial_ok:
  assumes wf: "verifier_wf v" and n: "length (validator_infos v) < 65536"
  shows "collect_partial v ps masks sigs = Inr (m, ss) \<Longrightarrow>
     length (inner masks) = required_buckets (of_nat (length (validator_infos v))) \<Longrightarrow>
     fst ` set ps \<subseteq> validator_set v \<and> length (inner m) = length (inner masks) \<and>
     (\<forall>q. bit_at (inner m) q \<longleftrightarrow> bit_at (inner masks) q \<or>
        q < length (validator_infos v) \<and> vci_address (validator_infos v ! q) \<in> fst ` set ps)"
proof (induction ps arbitrary: masks sigs)
  case (Cons e rest)
  obtain addr sig where e: "e = (addr, sig)" by (cases e)
  from Cons.prems(1) e obtain i where i: "map_of (address_to_validator_index v) addr = Some i"
    and r: "collect_partial v rest (bv_set masks (of_nat i)) (sigs @ [sig]) = Inr (m, ss)"
    by (auto simp: result_simps)
  have il: "i < length (validator_infos v)" "vci_address (validator_infos v ! i) = addr"
    using i verifier_wf_index [OF wf] by blast+
  then have u: "unat (of_nat i :: u16) = i" using n by (intro unat_of_nat_u16) simp
  have l: "length (inner (bv_set masks (of_nat i))) = length (inner masks)"
    using Cons.prems(2) required_buckets_le [OF il(1) n] by (simp add: length_bv_set u)
  have uniq: "q = i \<longleftrightarrow> q < length (validator_infos v) \<and> vci_address (validator_infos v ! q) = addr" for q
    using il wf by (auto simp: verifier_wf_def distinct_conv_nth)
  have "addr \<in> validator_set v" using il by (auto simp: validator_set_def)
  with Cons.IH [OF r] Cons.prems(2) e l uniq show ?case
    by (auto simp: bit_at_set u)
qed simp

lemma aggregate_signatures_mask:
  assumes wf: "verifier_wf v" and n: "length (validator_infos v) < 65536"
    and agg: "aggregate_signatures cr v ps = Inr s"
  shows "num_buckets (validator_bitmask s) = required_buckets (of_nat (length (validator_infos v)))"
    and "fst ` set ps \<subseteq> validator_set v"
    and "bit_at (inner (validator_bitmask s)) q \<longleftrightarrow>
           q < length (validator_infos v) \<and> vci_address (validator_infos v ! q) \<in> fst ` set ps"
proof -
  let ?m0 = "with_num_bits (of_nat (length (validator_infos v)))"
  from agg obtain sigs where c: "collect_partial v ps ?m0 [] = Inr (validator_bitmask s, sigs)"
    by (auto simp: aggregate_signatures_def verifier_len_def result_simps)
  have "length (inner ?m0) = required_buckets (of_nat (length (validator_infos v)))"
    by (simp add: with_num_bits_def)
  from collect_partial_ok [OF wf n c this] show
    "num_buckets (validator_bitmask s) = required_buckets (of_nat (length (validator_infos v)))"
    "fst ` set ps \<subseteq> validator_set v"
    "bit_at (inner (validator_bitmask s)) q \<longleftrightarrow>
       q < length (validator_infos v) \<and> vci_address (validator_infos v ! q) \<in> fst ` set ps"
    by (simp_all add: num_buckets_def with_num_bits_def bit_at_replicate)
qed

lemma check_num_of_voters_ok:
  assumes "bv_wf bv" and "n < 65536" and "num_buckets bv = required_buckets (of_nat n)"
    and "\<And>q. bit_at (inner bv) q \<Longrightarrow> q < n"
  shows "check_num_of_voters (of_nat n) bv = Inr ()"
proof (cases "last_set_bit bv")
  case (Some p)
  then have "unat p < n" using assms last_set_bit_Some by blast
  then have "\<not> p \<ge> of_nat n" using assms(2) by (simp add: word_le_nat_alt unat_of_nat_u16)
  with Some assms(3) show ?thesis by (simp add: check_num_of_voters_def)
qed (use assms(3) in \<open>simp add: check_num_of_voters_def\<close>)

lemma required_buckets_wf: "num_buckets bv = required_buckets k \<Longrightarrow> bv_wf bv"
  using bv_wf_with_num_bits [of k] by (simp add: bv_wf_def num_buckets_def with_num_bits_def)



text \<open>C24. Any two sets of authors that pass the super-majority check of one verifier have more than a
  third of the total voting power in common, whatever the voting powers are.\<close>

theorem quorum_intersection:
  assumes "verifier_new infos = (Inr v :: (verify_error, validator_verifier) result)"
    and "infos \<noteq> []" and "distinct (map vci_address infos)"
    and "check_voting_power v as True = Inr ()" and "distinct as"
    and "check_voting_power v bs True = Inr ()" and "distinct bs"
  shows "unat (total_voting_power v) < 3 * power_of v (set as \<inter> set bs)"
  using verifier_new_wf [OF assms(1-3)] assms(4-) quorum_overlap is_quorum_check by blast

text \<open>Four validators of equal power, for the witnesses of this theory.\<close>

definition sample_infos :: "validator_consensus_info list" where
  "sample_infos = map (\<lambda>a. \<lparr>vci_address = a, vci_public_key = ucast a, vci_voting_power = 1\<rparr>) [1, 2, 3, 4]"

definition sample_verifier :: validator_verifier where
  "sample_verifier = build_index sample_infos 3 4"

definition sample_bls :: "'m bls" where
  "sample_bls = \<lparr>verify_struct_signature = (\<lambda>pk m s. s = ucast pk), aggregate_sigs = (\<lambda>ss. Some (sum_list ss)),
     aggregate_keys = (\<lambda>ks. Some (sum_list ks)), verify_aggregate = (\<lambda>s ms pks. s = ucast (sum_list pks)),
     bls_sign = (\<lambda>k m. Some (ucast k)), bls_public_key = (\<lambda>k. ucast k)\<rparr>"

lemma sample_verifier_new: "verifier_new sample_infos = Inr sample_verifier"
  by (simp add: verifier_new_def sample_infos_def sample_verifier_def sum_voting_power_def
      checked_add_def checked_mul_def expect_def)

lemma sample_verifier_wf: "verifier_wf sample_verifier"
proof -
  have "verifier_new sample_infos = (Inr sample_verifier :: (verify_error, validator_verifier) result)"
    by (rule sample_verifier_new)
  from verifier_new_wf [OF this] show ?thesis by (simp add: sample_infos_def)
qed

lemma sample_voting_power: "get_voting_power sample_verifier a = (if a \<in> {1, 2, 3, 4} then Some 1 else None)"
  by (simp add: get_voting_power_def sample_verifier_def sample_infos_def build_index_def)

lemma sample_check: "check_voting_power sample_verifier [1, 2, 3] True = Inr ()"
  "check_voting_power sample_verifier [2, 3, 4] True = Inr ()"
  by (simp_all add: check_voting_power_def sample_voting_power checked_add_def expect_def)
     (simp_all add: sample_verifier_def build_index_def)

theorem quorum_intersection_witness:
  "unat (total_voting_power sample_verifier) < 3 * power_of sample_verifier (set [1, 2, 3] \<inter> set [2, 3, 4])"
  using quorum_intersection [OF sample_verifier_new _ _ sample_check(1) _ sample_check(2)]
  by (simp add: sample_infos_def)


end
