(* ===== verification/Accumulator.thy ===== *)
theory Accumulator
  imports Hash_Value
begin

text \<open>
  The in-memory Merkle accumulator, types/src/proof/accumulator/mod.rs, and the accumulator proofs
  of types/src/proof/definition.rs.

  The hash of an internal node, \<open>MerkleTreeInternalNode::new(left, right).hash()\<close>, is the parameter
  \<open>h\<close> of every definition. The lemmas show that the accumulator, which keeps only the roots of the
  full subtrees, has the root hash of the whole padded tree (\<open>tree_root\<close>, a direct definition), and
  that a proof accepted against that root speaks of a leaf of the tree unless it exhibits a collision
  of the hash function.
\<close>

unbundle bit_operations_syntax

section \<open>The accumulator\<close>

type_synonym node_hash = "hash_value \<Rightarrow> hash_value \<Rightarrow> hash_value"

definition MAX_ACCUMULATOR_PROOF_DEPTH :: nat where "MAX_ACCUMULATOR_PROOF_DEPTH = 63"

definition MAX_ACCUMULATOR_LEAVES :: u64 where
  "MAX_ACCUMULATOR_LEAVES = push_bit MAX_ACCUMULATOR_PROOF_DEPTH 1"

record accumulator =
  frozen_subtree_roots :: "hash_value list"
  num_leaves :: u64
  root_hash :: hash_value

text \<open>The loop of \<open>compute_root_hash\<close>; the iterator over the roots, last first, is a list.\<close>

function root_loop :: "node_hash \<Rightarrow> hash_value list \<Rightarrow> u64 \<Rightarrow> hash_value \<Rightarrow> ('e, hash_value) result" where
  "root_loop h iter bitmap current_hash =
     (if bitmap = 0 then Inr current_hash
      else if bitmap AND 1 \<noteq> 0
      then (case iter of
              [] \<Rightarrow> Inl Panic
            | r # iter' \<Rightarrow> root_loop h iter' (drop_bit 1 bitmap) (h r current_hash))
      else root_loop h iter (drop_bit 1 bitmap) (h current_hash ACCUMULATOR_PLACEHOLDER_HASH))"
  by pat_completeness auto

lemma unat_drop_bit_1: "unat (drop_bit (Suc 0) (w :: u64)) = unat w div 2"
  by (simp add: drop_bit_Suc unat_div_distrib)

termination root_loop
  by (relation "measure (\<lambda>(h, iter, bitmap, c). unat bitmap)")
     (auto simp: unat_drop_bit_1 word_unat_eq_iff)

declare root_loop.simps [simp del]

definition compute_root_hash :: "node_hash \<Rightarrow> hash_value list \<Rightarrow> u64 \<Rightarrow> ('e, hash_value) result" where
  "compute_root_hash h roots n =
     (case roots of
        [] \<Rightarrow> Inr ACCUMULATOR_PLACEHOLDER_HASH
      | [r] \<Rightarrow> Inr r
      | _ \<Rightarrow>
          if n = 0 then Inl Panic
          else root_loop h (rev roots) (drop_bit (word_trailing_zeros n) n) ACCUMULATOR_PLACEHOLDER_HASH)"

definition acc_new :: "node_hash \<Rightarrow> hash_value list \<Rightarrow> u64 \<Rightarrow> accumulator anyhow" where
  "acc_new h roots n =
     and_then (ensure (length roots = word_count_ones n)
       ''The number of frozen subtrees does not match the number of leaves.'') (\<lambda>_.
     and_then (compute_root_hash h roots n) (\<lambda>root.
     Inr \<lparr>frozen_subtree_roots = roots, num_leaves = n, root_hash = root\<rparr>))"

definition acc_new_empty :: accumulator where
  "acc_new_empty =
     \<lparr>frozen_subtree_roots = [], num_leaves = 0, root_hash = ACCUMULATOR_PLACEHOLDER_HASH\<rparr>"

text \<open>\<open>append_one\<close> pops the last two roots and pushes their parent, once for every trailing one of
  the number of leaves.\<close>

fun merge_last :: "node_hash \<Rightarrow> nat \<Rightarrow> hash_value list \<Rightarrow> ('e, hash_value list) result" where
  "merge_last h 0 roots = Inr roots"
| "merge_last h (Suc k) roots =
     (case rev roots of
        right_hash # left_hash # rest \<Rightarrow> merge_last h k (rev rest @ [h left_hash right_hash])
      | _ \<Rightarrow> Inl Panic)"

definition append_one :: "node_hash \<Rightarrow> hash_value list \<Rightarrow> u64 \<Rightarrow> hash_value \<Rightarrow> ('e, hash_value list) result" where
  "append_one h roots num_existing_leaves leaf =
     merge_last h (word_trailing_zeros (NOT num_existing_leaves)) (roots @ [leaf])"

fun append_leaves ::
  "node_hash \<Rightarrow> hash_value list \<Rightarrow> u64 \<Rightarrow> hash_value list \<Rightarrow> ('e, hash_value list \<times> u64) result" where
  "append_leaves h roots n [] = Inr (roots, n)"
| "append_leaves h roots n (leaf # leaves) =
     and_then (append_one h roots n leaf) (\<lambda>roots'.
     and_then (expect (checked_add n 1)) (\<lambda>n'.
     append_leaves h roots' n' leaves))"

definition acc_append :: "node_hash \<Rightarrow> accumulator \<Rightarrow> hash_value list \<Rightarrow> ('e, accumulator) result" where
  "acc_append h a leaves =
     and_then (append_leaves h (frozen_subtree_roots a) (num_leaves a) leaves)
       (\<lambda>(roots, n). unwrap (acc_new h roots n))"

definition from_leaves :: "node_hash \<Rightarrow> hash_value list \<Rightarrow> ('e, accumulator) result" where
  "from_leaves h leaves = and_then (unwrap (acc_new h [] 0)) (\<lambda>a. acc_append h a leaves)"

definition acc_version :: "accumulator \<Rightarrow> u64" where
  "acc_version a = (if num_leaves a = 0 then 0 else num_leaves a - 1)"

definition acc_is_empty :: "accumulator \<Rightarrow> bool" where
  "acc_is_empty a \<longleftrightarrow> num_leaves a = 0"

text \<open>The two loops of \<open>append_subtrees\<close>: the inner one pops the roots (here last first) that the
  new subtree completes, the outer one takes the new subtrees that are as large as the rightmost
  frozen one.\<close>

fun carry_subtree ::
  "node_hash \<Rightarrow> hash_value list \<Rightarrow> u64 \<Rightarrow> u64 \<Rightarrow> hash_value \<Rightarrow> ('e, hash_value list \<times> u64 \<times> hash_value) result"
where
  "carry_subtree h [] n bitmask current_hash =
     (if n AND bitmask \<noteq> 0 then Inl Panic else Inr ([], bitmask, current_hash))"
| "carry_subtree h (left_hash # rest) n bitmask current_hash =
     (if n AND bitmask \<noteq> 0 then carry_subtree h rest n (push_bit 1 bitmask) (h left_hash current_hash)
      else Inr (left_hash # rest, bitmask, current_hash))"

fun combine_subtrees ::
  "node_hash \<Rightarrow> hash_value list \<Rightarrow> u64 \<Rightarrow> u64 \<Rightarrow> u64 \<Rightarrow> hash_value list \<Rightarrow>
     (hash_value list \<times> u64 \<times> u64 \<times> hash_value list) anyhow" where
  "combine_subtrees h roots n remaining leaves [] =
     (if remaining \<ge> leaves then Inl (Err ''Too few subtrees.'') else Inr (roots, n, remaining, []))"
| "combine_subtrees h roots n remaining leaves (s # subtrees) =
     (if remaining \<ge> leaves
      then and_then (carry_subtree h (rev roots) n leaves s) (\<lambda>(rest, bitmask, current_hash).
           and_then (expect (checked_add n leaves)) (\<lambda>n'.
           combine_subtrees h (rev rest @ [current_hash]) n' (remaining - leaves) bitmask subtrees))
      else Inr (roots, n, remaining, s # subtrees))"

definition append_subtrees :: "node_hash \<Rightarrow> accumulator \<Rightarrow> hash_value list \<Rightarrow> u64 \<Rightarrow> accumulator anyhow" where
  "append_subtrees h a subtrees num_new_leaves =
     and_then (expect (checked_sub MAX_ACCUMULATOR_LEAVES (num_leaves a))) (\<lambda>room.
     and_then (ensure (num_new_leaves \<le> room) ''Too many new leaves.'') (\<lambda>_.
     if num_leaves a = 0 then acc_new h subtrees num_new_leaves
     else
       and_then (combine_subtrees h (frozen_subtree_roots a) (num_leaves a) num_new_leaves
                   (push_bit (word_trailing_zeros (num_leaves a)) 1) subtrees)
         (\<lambda>(roots, n, remaining, rest).
       and_then (expect (checked_add n remaining)) (\<lambda>n'.
       acc_new h (roots @ rest) n'))))"

section \<open>Proofs against a root hash\<close>

text \<open>\<open>AccumulatorProof\<close> is its list of siblings, bottom level first.\<close>

type_synonym accumulator_proof = "hash_value list"

fun proof_fold :: "node_hash \<Rightarrow> hash_value \<Rightarrow> u64 \<Rightarrow> hash_value list \<Rightarrow> hash_value" where
  "proof_fold h hash index [] = hash"
| "proof_fold h hash index (sibling_hash # siblings) =
     proof_fold h (if index mod 2 = 0 then h hash sibling_hash else h sibling_hash hash)
       (index div 2) siblings"

definition accumulator_proof_verify ::
  "node_hash \<Rightarrow> accumulator_proof \<Rightarrow> hash_value \<Rightarrow> hash_value \<Rightarrow> u64 \<Rightarrow> unit anyhow" where
  "accumulator_proof_verify h siblings expected_root_hash element_hash element_index =
     and_then (ensure (length siblings \<le> MAX_ACCUMULATOR_PROOF_DEPTH)
       ''Accumulator proof has too many siblings.'') (\<lambda>_.
     ensure (proof_fold h element_hash element_index siblings = expected_root_hash)
       ''Root hashes do not match.'')"

record accumulator_extension_proof =
  ext_frozen_subtree_roots :: "hash_value list"
  ext_num_leaves :: u64
  ext_leaves :: "hash_value list"

definition extension_proof_verify ::
  "node_hash \<Rightarrow> accumulator_extension_proof \<Rightarrow> hash_value \<Rightarrow> accumulator anyhow" where
  "extension_proof_verify h p original_root =
     and_then (acc_new h (ext_frozen_subtree_roots p) (ext_num_leaves p)) (\<lambda>original_tree.
     and_then (ensure (root_hash original_tree = original_root) ''Root hashes do not match.'') (\<lambda>_.
     acc_append h original_tree (ext_leaves p)))"

section \<open>Counting bits\<close>

function trailing_ones :: "nat \<Rightarrow> nat" where
  "trailing_ones m = (if odd m then Suc (trailing_ones (m div 2)) else 0)"
  by auto
termination by (relation "measure id") (auto elim: oddE)

fun popcount :: "nat \<Rightarrow> nat" where
  "popcount m = (if m = 0 then 0 else m mod 2 + popcount (m div 2))"

function trailing_zeros :: "nat \<Rightarrow> nat" where
  "trailing_zeros m = (if m = 0 \<or> odd m then 0 else Suc (trailing_zeros (m div 2)))"
  by auto
termination by (relation "measure id") auto

declare trailing_ones.simps [simp del] popcount.simps [simp del] trailing_zeros.simps [simp del]

lemma length_takeWhile_upt:
  assumes "k < n" and "\<forall>i<k. P i" and "\<not> P k"
  shows "length (takeWhile P [0..<n]) = k"
proof -
  have "[0..<n] = [0..<k] @ [k..<n]" using assms(1) by (metis le0 less_imp_le upt_add_eq_append le_add_diff_inverse)
  moreover have "[k..<n] = k # [Suc k..<n]" using assms(1) by (rule upt_conv_Cons)
  moreover have "takeWhile P ([0..<k] @ k # [Suc k..<n]) = [0..<k] @ takeWhile P (k # [Suc k..<n])"
    using assms(2) by (intro takeWhile_append2) simp
  ultimately show ?thesis using assms(3) by simp
qed

lemma trailing_ones_bits: "(\<forall>i<trailing_ones m. bit m i) \<and> \<not> bit m (trailing_ones m)"
proof (induction m rule: trailing_ones.induct)
  case (1 m)
  show ?case
  proof (cases "odd m")
    case True
    then have t: "trailing_ones m = Suc (trailing_ones (m div 2))" by (subst trailing_ones.simps) simp
    show ?thesis using 1 [OF True] True unfolding t by (auto simp: bit_Suc All_less_Suc2 bit_0)
  qed (subst trailing_ones.simps, simp add: bit_0)+
qed

lemma trailing_zeros_bits: "0 < m \<Longrightarrow> (\<forall>i<trailing_zeros m. \<not> bit m i) \<and> bit m (trailing_zeros m)"
proof (induction m rule: trailing_zeros.induct)
  case (1 m)
  show ?case
  proof (cases "odd m")
    case True
    then show ?thesis by (subst trailing_zeros.simps, subst (2) trailing_zeros.simps) (simp add: bit_0)
  next
    case False
    with "1.prems" have t: "trailing_zeros m = Suc (trailing_zeros (m div 2))"
      by (subst trailing_zeros.simps) simp
    from False "1.prems" have "0 < m div 2" by (auto elim!: evenE)
    then show ?thesis using 1 False unfolding t by (auto simp: bit_Suc All_less_Suc2 bit_0)
  qed
qed

lemma popcount_eq_0: "popcount m = 0 \<longleftrightarrow> m = 0"
proof (induction m rule: popcount.induct)
  case (1 m)
  have "m = 2 * (m div 2) + m mod 2" by simp
  with 1 show ?case by (cases "m = 0") (auto simp: popcount.simps [of m] popcount.simps [of 0])
qed

lemma bit_unat: "bit (unat (w :: u64)) i \<longleftrightarrow> bit w i"
  by (metis bit_imp_le_length bit_unsigned_iff possible_bit_def possible_bit_nat)

lemma bit_nat_bound: "m < 2 ^ n \<Longrightarrow> bit (m :: nat) i \<Longrightarrow> i < n"
  by (metis bit_take_bit_iff take_bit_nat_eq_self)

lemma word_trailing_zeros_eq:
  assumes "n \<noteq> (0 :: u64)" shows "word_trailing_zeros n = trailing_zeros (unat n)"
proof -
  have b: "(\<forall>i<trailing_zeros (unat n). \<not> bit (unat n) i) \<and> bit (unat n) (trailing_zeros (unat n))"
    using assms by (intro trailing_zeros_bits) (simp add: word_unat_eq_iff)
  moreover have "trailing_zeros (unat n) < 64"
    using bit_nat_bound [of "unat n" 64] unat_bound [of n] b by simp
  ultimately show ?thesis
    unfolding word_trailing_zeros_def by (intro length_takeWhile_upt) (auto simp: bit_unat)
qed

lemma trailing_ones_le: "2 ^ trailing_ones m \<le> Suc m"
proof (induction m rule: trailing_ones.induct)
  case (1 m)
  show ?case
  proof (cases "odd m")
    case True
    from 1 [OF this] True have "2 ^ Suc (trailing_ones (m div 2)) \<le> Suc m" by (auto elim!: oddE)
    with True show ?thesis by (subst trailing_ones.simps) simp
  qed (subst trailing_ones.simps, simp)
qed

lemma word_trailing_ones_eq:
  assumes "Suc (unat n) < 2 ^ 64" shows "word_trailing_zeros (NOT (n :: u64)) = trailing_ones (unat n)"
proof -
  have "(2 :: nat) ^ trailing_ones (unat n) < 2 ^ 64"
    using trailing_ones_le [of "unat n"] assms by (rule le_less_trans)
  then have "trailing_ones (unat n) < 64"
    by (rule power_less_imp_less_exp [rotated]) simp
  with trailing_ones_bits [of "unat n"] show ?thesis
    unfolding word_trailing_zeros_def by (intro length_takeWhile_upt) (auto simp: bit_unat bit_not_iff)
qed

lemma count_bits: "m < 2 ^ n \<Longrightarrow> length (filter (bit m) [0..<n]) = popcount m"
proof (induction n arbitrary: m)
  case 0
  then show ?case by (subst popcount.simps) simp
next
  case (Suc n)
  have "[0..<Suc n] = 0 # map Suc [0..<n]" by (simp only: map_Suc_upt upt_conv_Cons zero_less_Suc)
  then have "length (filter (bit m) [0..<Suc n]) = m mod 2 + length (filter (bit (m div 2)) [0..<n])"
    by (simp add: filter_map comp_def bit_Suc bit_0 mod_2_eq_odd)
  also have "\<dots> = m mod 2 + popcount (m div 2)" using Suc by simp
  also have "\<dots> = popcount m"
    by (cases "m = 0") (simp_all add: popcount.simps [of 0] popcount.simps [of m])
  finally show ?case .
qed

lemma word_count_ones_eq: "word_count_ones (n :: u64) = popcount (unat n)"
  using count_bits [of "unat n" 64] unat_bound [of n]
  by (simp add: word_count_ones_def bit_unat cong: filter_cong)


section \<open>The tree an accumulator stands for\<close>

text \<open>
  The Merkle tree over a list of leaves, level by level from the bottom: neighbours are combined,
  and the last node of a level with an odd number of nodes gets a placeholder as its sibling.
\<close>

fun pairs_pad :: "node_hash \<Rightarrow> hash_value list \<Rightarrow> hash_value list" where
  "pairs_pad h (a # b # xs) = h a b # pairs_pad h xs"
| "pairs_pad h [a] = [h a ACCUMULATOR_PLACEHOLDER_HASH]"
| "pairs_pad h [] = []"

lemma length_pairs_pad: "length (pairs_pad h xs) = Suc (length xs) div 2"
  by (induction h xs rule: pairs_pad.induct) auto

function tree_root :: "node_hash \<Rightarrow> hash_value list \<Rightarrow> hash_value" where
  "tree_root h [] = ACCUMULATOR_PLACEHOLDER_HASH"
| "tree_root h [x] = x"
| "tree_root h (x # y # xs) = tree_root h (pairs_pad h (x # y # xs))"
  by pat_completeness auto
termination tree_root
  by (relation "measure (\<lambda>(h, xs). length xs)") (auto simp: length_pairs_pad)

lemma tree_root_step: "2 \<le> length xs \<Longrightarrow> tree_root h xs = tree_root h (pairs_pad h xs)"
  by (cases "(h, xs)" rule: tree_root.cases) auto

text \<open>The roots of the full subtrees, smallest first: level by level, the last node of a level
  with an odd number of full nodes.\<close>

fun pairs_full :: "node_hash \<Rightarrow> hash_value list \<Rightarrow> hash_value list" where
  "pairs_full h (a # b # xs) = h a b # pairs_full h xs"
| "pairs_full h _ = []"

lemma length_pairs_full [simp]: "length (pairs_full h xs) = length xs div 2"
  by (induction h xs rule: pairs_full.induct) auto

function frozen :: "node_hash \<Rightarrow> hash_value list \<Rightarrow> hash_value list" where
  "frozen h xs =
     (if xs = [] then []
      else (if odd (length xs) then [last xs] else []) @ frozen h (pairs_full h xs))"
  by auto
termination frozen
  by (relation "measure (\<lambda>(h, xs). length xs)") auto

declare frozen.simps [simp del]

lemma frozen_Nil [simp]: "frozen h [] = []"
  by (simp add: frozen.simps)

lemma frozen_even: "even (length xs) \<Longrightarrow> frozen h xs = frozen h (pairs_full h xs)"
  by (cases "xs = []") (simp_all add: frozen.simps [of h xs])

lemma frozen_odd: "odd (length xs) \<Longrightarrow> frozen h xs = last xs # frozen h (pairs_full h xs)"
  by (cases "xs = []") (simp_all add: frozen.simps [of h xs])

lemma length_frozen: "length (frozen h xs) = popcount (length xs)"
proof (induction h xs rule: frozen.induct)
  case (1 h xs)
  show ?case
  proof (cases "xs = []")
    case False
    with 1 show ?thesis
      by (simp add: frozen.simps [of h xs] popcount.simps [of "length xs"] mod_2_eq_odd)
  qed (simp add: popcount.simps [of 0])
qed

lemma pairs_full_append_even: "even (length xs) \<Longrightarrow> pairs_full h (xs @ [x]) = pairs_full h xs"
  by (induction h xs rule: pairs_full.induct) auto

lemma pairs_full_append_odd:
  "odd (length xs) \<Longrightarrow> pairs_full h (xs @ [x]) = pairs_full h xs @ [h (last xs) x]"
  by (induction h xs rule: pairs_full.induct) auto

lemma pairs_pad_append_even:
  "even (length xs) \<Longrightarrow> pairs_pad h (xs @ [x]) = pairs_full h xs @ [h x ACCUMULATOR_PLACEHOLDER_HASH]"
  by (induction h xs rule: pairs_full.induct) auto

lemma pairs_pad_append_odd:
  "odd (length xs) \<Longrightarrow> pairs_pad h (xs @ [x]) = pairs_full h xs @ [h (last xs) x]"
  by (induction h xs rule: pairs_full.induct) auto

lemma pairs_pad_even: "even (length xs) \<Longrightarrow> pairs_pad h xs = pairs_full h xs"
  by (induction h xs rule: pairs_full.induct) auto

lemma pairs_pad_odd:
  "odd (length xs) \<Longrightarrow> pairs_pad h xs = pairs_full h xs @ [h (last xs) ACCUMULATOR_PLACEHOLDER_HASH]"
  by (induction h xs rule: pairs_full.induct) auto

lemma tree_root_even:
  assumes "even (length xs)" and "xs \<noteq> []" shows "tree_root h xs = tree_root h (pairs_full h xs)"
proof -
  have "2 \<le> length xs" using assms by (cases xs rule: remdups_adj.cases) auto
  then show ?thesis using tree_root_step [of xs h] pairs_pad_even [OF assms(1)] by simp
qed

lemma tree_root_placeholder:
  assumes "odd (length xs)" and "2 \<le> length xs"
  shows "tree_root h (xs @ [ACCUMULATOR_PLACEHOLDER_HASH]) = tree_root h xs"
proof -
  have "tree_root h (xs @ [ACCUMULATOR_PLACEHOLDER_HASH]) =
      tree_root h (pairs_pad h (xs @ [ACCUMULATOR_PLACEHOLDER_HASH]))"
    using assms by (intro tree_root_step) simp
  also have "\<dots> = tree_root h (pairs_pad h xs)"
    using assms(1) by (simp add: pairs_pad_append_odd pairs_pad_odd)
  also have "\<dots> = tree_root h xs" using tree_root_step [OF assms(2)] by simp
  finally show ?thesis .
qed

text \<open>Appending a leaf to the frozen roots is counting up in binary.\<close>

lemma merge_last_frozen:
  "merge_last h (trailing_ones (length xs)) (rev (frozen h xs) @ [x]) =
     (Inr (rev (frozen h (xs @ [x]))) :: ('e, hash_value list) result)"
proof (induction "length xs" arbitrary: xs x rule: less_induct)
  case less
  show ?case
  proof (cases "odd (length xs)")
    case False
    then have "frozen h (xs @ [x]) = x # frozen h xs"
      using frozen_odd [of "xs @ [x]" h] frozen_even [of xs h] by (simp add: pairs_full_append_even)
    with False show ?thesis by (simp add: trailing_ones.simps [of "length xs"])
  next
    case True
    let ?ys = "pairs_full h xs"
    have lt: "length ?ys < length xs" using True by (auto elim: oddE)
    have "merge_last h (trailing_ones (length xs)) (rev (frozen h xs) @ [x]) =
        (merge_last h (trailing_ones (length ?ys)) (rev (frozen h ?ys) @ [h (last xs) x]) ::
          ('e, hash_value list) result)"
      using True by (simp add: trailing_ones.simps [of "length xs"] frozen_odd)
    also have "\<dots> = Inr (rev (frozen h (?ys @ [h (last xs) x])))" by (rule less [OF lt])
    also have "?ys @ [h (last xs) x] = pairs_full h (xs @ [x])"
      using True by (simp add: pairs_full_append_odd)
    also have "frozen h \<dots> = frozen h (xs @ [x])"
      using True frozen_even [of "xs @ [x]" h] by simp
    finally show ?thesis .
  qed
qed

lemma root_loop_frozen:
  "unat n = length xs \<Longrightarrow>
     root_loop h (frozen h xs) n c = (Inr (tree_root h (xs @ [c])) :: ('e, hash_value) result)"
proof (induction "length xs" arbitrary: xs n c rule: less_induct)
  case less
  show ?case
  proof (cases "xs = []")
    case True
    with less.prems have "n = 0" by (simp add: word_unat_eq_iff)
    with True show ?thesis by (simp add: root_loop.simps)
  next
    case False
    let ?ys = "pairs_full h xs"
    have lt: "length ?ys < length xs" using False by simp
    have n: "n \<noteq> 0" using False less.prems by auto
    have half: "unat (drop_bit (Suc 0) n) = length ?ys" using less.prems by (simp add: unat_drop_bit_1)
    have odd_n: "n AND 1 \<noteq> 0 \<longleftrightarrow> odd (length xs)"
      using less.prems by (simp add: and_one_eq odd_iff_mod_2_eq_one word_unat_eq_iff unat_mod)
    have step: "tree_root h (xs @ [c]) = tree_root h (pairs_pad h (xs @ [c]))"
      using False by (intro tree_root_step) (cases xs, auto)
    show ?thesis
    proof (cases "odd (length xs)")
      case True
      then have "root_loop h (frozen h xs) n c =
          (root_loop h (frozen h ?ys) (drop_bit (Suc 0) n) (h (last xs) c) :: ('e, hash_value) result)"
        using n odd_n by (simp add: root_loop.simps [of h _ n] frozen_odd)
      also have "\<dots> = Inr (tree_root h (?ys @ [h (last xs) c]))" by (rule less(1) [OF lt half])
      finally show ?thesis using True step by (simp add: pairs_pad_append_odd)
    next
      case even: False
      then have "root_loop h (frozen h xs) n c =
          (root_loop h (frozen h ?ys) (drop_bit (Suc 0) n) (h c ACCUMULATOR_PLACEHOLDER_HASH) ::
            ('e, hash_value) result)"
        using n odd_n by (simp add: root_loop.simps [of h _ n] frozen_even)
      also have "\<dots> = Inr (tree_root h (?ys @ [h c ACCUMULATOR_PLACEHOLDER_HASH]))"
        by (rule less(1) [OF lt half])
      finally show ?thesis using even step by (simp add: pairs_pad_append_even)
    qed
  qed
qed


lemma frozen_singleton: "frozen h xs = [r] \<Longrightarrow> tree_root h xs = r"
proof (induction "length xs" arbitrary: xs rule: less_induct)
  case less
  then have ne: "xs \<noteq> []" by auto
  show ?case
  proof (cases "odd (length xs)")
    case True
    with less.prems have "last xs = r" and "length (frozen h (pairs_full h xs)) = 0"
      by (auto simp: frozen_odd)
    then have "popcount (length xs div 2) = 0" by (simp only: length_frozen length_pairs_full)
    then have "length xs div 2 = 0" by (simp only: popcount_eq_0)
    then have "length xs = 1" using True by (auto elim!: oddE)
    then show ?thesis using \<open>last xs = r\<close> by (cases xs) auto
  next
    case False
    have "tree_root h (pairs_full h xs) = r"
      using less.prems False ne by (intro less(1)) (auto simp: frozen_even)
    then show ?thesis using tree_root_even [of xs h] False ne by simp
  qed
qed

lemma root_loop_shifted:
  assumes "2 \<le> length (frozen h xs)" and "unat n = length xs"
  shows "root_loop h (frozen h xs) (drop_bit (trailing_zeros (unat n)) n) ACCUMULATOR_PLACEHOLDER_HASH =
           (Inr (tree_root h xs) :: ('e, hash_value) result)"
  using assms
proof (induction "length xs" arbitrary: xs n rule: less_induct)
  case less
  then have ne: "xs \<noteq> []" by auto
  show ?case
  proof (cases "odd (length xs)")
    case True
    have "length xs \<noteq> 1"
      using less.prems True by (auto simp: length_Suc_conv frozen_odd)
    with True have len: "2 \<le> length xs" by (auto elim!: oddE)
    have "trailing_zeros (unat n) = 0"
      using True less.prems by (simp add: trailing_zeros.simps [of "length xs"])
    then have "root_loop h (frozen h xs) (drop_bit (trailing_zeros (unat n)) n) ACCUMULATOR_PLACEHOLDER_HASH =
        (Inr (tree_root h (xs @ [ACCUMULATOR_PLACEHOLDER_HASH])) :: ('e, hash_value) result)"
      using root_loop_frozen [OF less.prems(2)] by simp
    also have "tree_root h (xs @ [ACCUMULATOR_PLACEHOLDER_HASH]) = tree_root h xs"
      by (rule tree_root_placeholder [OF True len])
    finally show ?thesis .
  next
    case False
    let ?ys = "pairs_full h xs" and ?m = "drop_bit (Suc 0) n"
    have m: "unat ?m = length ?ys" using less.prems by (simp add: unat_drop_bit_1)
    have tz: "trailing_zeros (unat n) = Suc (trailing_zeros (unat ?m))"
      using False ne less.prems by (simp add: trailing_zeros.simps [of "length xs"] unat_drop_bit_1)
    have "drop_bit (trailing_zeros (unat n)) n = drop_bit (trailing_zeros (unat ?m)) ?m"
      unfolding tz by (simp add: drop_bit_drop_bit)
    moreover have "root_loop h (frozen h ?ys) (drop_bit (trailing_zeros (unat ?m)) ?m) ACCUMULATOR_PLACEHOLDER_HASH =
        (Inr (tree_root h ?ys) :: ('e, hash_value) result)"
      using less.prems False ne m by (intro less(1)) (auto simp: frozen_even)
    moreover have "tree_root h xs = tree_root h ?ys"
      using False ne by (intro tree_root_even) auto
    ultimately show ?thesis using False by (simp add: frozen_even)
  qed
qed

lemma compute_root_frozen:
  assumes "unat n = length xs"
  shows "compute_root_hash h (rev (frozen h xs)) n = (Inr (tree_root h xs) :: ('e, hash_value) result)"
proof (cases "rev (frozen h xs)" rule: remdups_adj.cases)
  case 1
  then have "popcount (length xs) = 0" using length_frozen [of h xs] by simp
  then have "xs = []" by (simp only: popcount_eq_0 length_0_conv)
  then show ?thesis by (simp add: compute_root_hash_def)
next
  case (2 r)
  then have "frozen h xs = [r]" by simp
  with 2 frozen_singleton [of h xs r] show ?thesis by (simp add: compute_root_hash_def)
next
  case (3 r s rs)
  then have "length (rev (frozen h xs)) = Suc (Suc (length rs))" by simp
  then have len: "2 \<le> length (frozen h xs)" by simp
  then have n: "n \<noteq> 0" using assms by auto
  have "frozen h xs = rev (r # s # rs)" using 3 by (metis rev_rev_ident)
  with root_loop_shifted [OF len assms, where 'e = 'e] n 3 show ?thesis
    by (simp add: compute_root_hash_def word_trailing_zeros_eq)
qed

text \<open>The accumulator of a list of leaves.\<close>

definition acc_of :: "node_hash \<Rightarrow> hash_value list \<Rightarrow> accumulator" where
  "acc_of h xs =
     \<lparr>frozen_subtree_roots = rev (frozen h xs), num_leaves = of_nat (length xs), root_hash = tree_root h xs\<rparr>"

lemma unat_of_nat_u64: "m < 2 ^ 64 \<Longrightarrow> unat (of_nat m :: u64) = m"
  by (simp add: unsigned_of_nat take_bit_nat_eq_self)

lemma acc_new_frozen: "length xs < 2 ^ 64 \<Longrightarrow> acc_new h (rev (frozen h xs)) (of_nat (length xs)) = Inr (acc_of h xs)"
  by (simp add: acc_new_def acc_of_def word_count_ones_eq length_frozen unat_of_nat_u64 compute_root_frozen del: unsigned_of_nat)

lemma append_leaves_frozen:
  assumes "length (xs @ ys) < 2 ^ 64"
  shows "append_leaves h (rev (frozen h xs)) (of_nat (length xs)) ys =
           (Inr (rev (frozen h (xs @ ys)), of_nat (length (xs @ ys))) :: ('e, hash_value list \<times> u64) result)"
  using assms
proof (induction ys arbitrary: xs)
  case (Cons y ys)
  then have len: "Suc (length xs) < 2 ^ 64" by simp
  then have "word_trailing_zeros (NOT (of_nat (length xs) :: u64)) = trailing_ones (length xs)"
    using word_trailing_ones_eq [of "of_nat (length xs)"] by (simp add: unat_of_nat_u64 del: unsigned_of_nat)
  moreover have "checked_add (of_nat (length xs)) (1 :: u64) = Some (of_nat (length (xs @ [y])))"
    using len by (simp add: checked_add_Some unat_of_nat_u64 del: unsigned_of_nat of_nat_Suc)
  moreover have "append_leaves h (rev (frozen h (xs @ [y]))) (of_nat (length (xs @ [y]))) ys =
      (Inr (rev (frozen h ((xs @ [y]) @ ys)), of_nat (length ((xs @ [y]) @ ys))) ::
        ('e, hash_value list \<times> u64) result)"
    by (rule Cons.IH) (use Cons.prems in simp)
  ultimately show ?case
    by (simp add: append_one_def merge_last_frozen expect_def del: length_append of_nat_Suc)
qed simp

lemma acc_append_acc_of:
  "length (xs @ ys) < 2 ^ 64 \<Longrightarrow>
     acc_append h (acc_of h xs) ys = (Inr (acc_of h (xs @ ys)) :: ('e, accumulator) result)"
  using append_leaves_frozen [of xs ys h, where 'e = 'e] acc_new_frozen [of "xs @ ys" h]
  by (simp add: acc_append_def acc_of_def unwrap_def)

lemma from_leaves_acc_of: "length xs < 2 ^ 64 \<Longrightarrow> from_leaves h xs = (Inr (acc_of h xs) :: ('e, accumulator) result)"
  using acc_new_frozen [of "[]" h] acc_append_acc_of [of "[]" xs h, where 'e = 'e]
  by (simp add: from_leaves_def unwrap_def)

section \<open>Inclusion proofs\<close>

fun proof_fold_nat :: "node_hash \<Rightarrow> hash_value \<Rightarrow> nat \<Rightarrow> hash_value list \<Rightarrow> hash_value" where
  "proof_fold_nat h e i [] = e"
| "proof_fold_nat h e i (s # ss) = proof_fold_nat h (if even i then h e s else h s e) (i div 2) ss"

lemma proof_fold_eq: "proof_fold h e i ss = proof_fold_nat h e (unat i) ss"
proof (induction ss arbitrary: e i)
  case (Cons s ss)
  have "i mod 2 = 0 \<longleftrightarrow> even (unat i)"
    by (simp add: word_unat_eq_iff unat_mod even_iff_mod_2_eq_zero)
  moreover have "unat (i div 2) = unat i div 2" by (simp add: unat_div_distrib)
  ultimately show ?case using Cons by simp
qed simp

text \<open>The number of levels above the leaves, the siblings of a leaf on the way to the root, and the
  pairs that are hashed in the tree and by a proof.\<close>

function tree_depth :: "nat \<Rightarrow> nat" where
  "tree_depth n = (if n \<le> 1 then 0 else Suc (tree_depth (Suc n div 2)))"
  by auto
termination by (relation "measure id") auto

declare tree_depth.simps [simp del]

definition node_or_placeholder :: "hash_value list \<Rightarrow> nat \<Rightarrow> hash_value" where
  "node_or_placeholder xs i = (if i < length xs then xs ! i else ACCUMULATOR_PLACEHOLDER_HASH)"

function audit_path :: "node_hash \<Rightarrow> hash_value list \<Rightarrow> nat \<Rightarrow> hash_value list" where
  "audit_path h xs i =
     (if length xs \<le> 1 then []
      else node_or_placeholder xs (if even i then Suc i else i - 1) # audit_path h (pairs_pad h xs) (i div 2))"
  by auto
termination by (relation "measure (\<lambda>(h, xs, i). length xs)") (auto simp: length_pairs_pad)

function tree_pairs :: "node_hash \<Rightarrow> hash_value list \<Rightarrow> (hash_value \<times> hash_value) set" where
  "tree_pairs h xs =
     (if length xs \<le> 1 then {}
      else (\<lambda>i. (node_or_placeholder xs (2 * i), node_or_placeholder xs (Suc (2 * i)))) ` {..<Suc (length xs) div 2}
           \<union> tree_pairs h (pairs_pad h xs))"
  by auto
termination by (relation "measure (\<lambda>(h, xs). length xs)") (auto simp: length_pairs_pad)

fun path_pairs :: "node_hash \<Rightarrow> hash_value \<Rightarrow> nat \<Rightarrow> hash_value list \<Rightarrow> (hash_value \<times> hash_value) set" where
  "path_pairs h e i [] = {}"
| "path_pairs h e i (s # ss) =
     (let p = if even i then (e, s) else (s, e)
      in insert p (path_pairs h (h (fst p) (snd p)) (i div 2) ss))"

declare audit_path.simps [simp del] tree_pairs.simps [simp del]

lemma pairs_pad_nth:
  "i < Suc (length xs) div 2 \<Longrightarrow>
     pairs_pad h xs ! i = h (node_or_placeholder xs (2 * i)) (node_or_placeholder xs (Suc (2 * i)))"
proof (induction h xs arbitrary: i rule: pairs_pad.induct)
  case (1 h a b xs)
  have shift: "node_or_placeholder (a # b # xs) (Suc (Suc j)) = node_or_placeholder xs j" for j
    by (simp add: node_or_placeholder_def)
  show ?case
  proof (cases i)
    case 0
    then show ?thesis by (simp add: node_or_placeholder_def)
  next
    case (Suc j)
    with 1 show ?thesis by (simp add: shift)
  qed
qed (simp_all add: node_or_placeholder_def)

lemma audit_path_root:
  "i < length xs \<Longrightarrow> proof_fold_nat h (xs ! i) i (audit_path h xs i) = tree_root h xs"
proof (induction h xs i rule: audit_path.induct)
  case (1 h xs i)
  show ?case
  proof (cases "length xs \<le> 1")
    case True
    with 1 have "xs = [xs ! 0]" "i = 0" by (cases xs, auto)+
    then show ?thesis by (metis audit_path.simps True proof_fold_nat.simps(1) tree_root.simps(2))
  next
    case False
    have i: "i div 2 < Suc (length xs) div 2" using "1.prems" by linarith
    have "(if even i then h (xs ! i) (node_or_placeholder xs (Suc i)) else h (node_or_placeholder xs (i - 1)) (xs ! i)) =
        pairs_pad h xs ! (i div 2)"
      using "1.prems" by (simp add: pairs_pad_nth [OF i]) (auto simp: node_or_placeholder_def elim!: evenE oddE)
    moreover have "proof_fold_nat h (pairs_pad h xs ! (i div 2)) (i div 2) (audit_path h (pairs_pad h xs) (i div 2)) =
        tree_root h (pairs_pad h xs)"
      using 1 False i by (simp add: length_pairs_pad)
    moreover have "tree_root h xs = tree_root h (pairs_pad h xs)"
      using False by (intro tree_root_step) simp
    ultimately show ?thesis using False by (simp add: audit_path.simps [of h xs] split: if_splits)
  qed
qed

lemma proof_fold_sound:
  assumes "proof_fold_nat h e i ss = tree_root h xs" and "i < length xs" and "length ss = tree_depth (length xs)"
    and "inj_on (\<lambda>(a, b). h a b) (tree_pairs h xs \<union> path_pairs h e i ss)"
  shows "e = xs ! i"
  using assms
proof (induction ss arbitrary: e i xs)
  case Nil
  then have "xs = [xs ! 0]" "i = 0"
    by (auto simp: tree_depth.simps [of "length xs"] le_Suc_eq length_Suc_conv split: if_splits)
  with Nil show ?case by (metis proof_fold_nat.simps(1) tree_root.simps(2))
next
  case (Cons s ss)
  let ?p = "if even i then (e, s) else (s, e)"
  let ?q = "(node_or_placeholder xs (2 * (i div 2)), node_or_placeholder xs (Suc (2 * (i div 2))))"
  have len: "\<not> length xs \<le> 1" using Cons.prems(3) by (simp add: tree_depth.simps [of "length xs"] split: if_splits)
  have i: "i div 2 < Suc (length xs) div 2" using Cons.prems(2) by linarith
  have eq: "(if even i then h e s else h s e) = h (fst ?p) (snd ?p)" by simp
  have sub: "tree_pairs h (pairs_pad h xs) \<subseteq> tree_pairs h xs" "?q \<in> tree_pairs h xs"
    using len i by (auto simp: tree_pairs.simps [of h xs])
  have "h (fst ?p) (snd ?p) = pairs_pad h xs ! (i div 2)"
  proof (rule Cons.IH)
    show "proof_fold_nat h (h (fst ?p) (snd ?p)) (i div 2) ss = tree_root h (pairs_pad h xs)"
      using Cons.prems(1) len tree_root_step [of xs h] by (simp flip: eq)
    show "i div 2 < length (pairs_pad h xs)" using i by (simp add: length_pairs_pad)
    show "length ss = tree_depth (length (pairs_pad h xs))"
      using Cons.prems(3) len by (simp add: tree_depth.simps [of "length xs"] length_pairs_pad)
    show "inj_on (\<lambda>(a, b). h a b) (tree_pairs h (pairs_pad h xs) \<union> path_pairs h (h (fst ?p) (snd ?p)) (i div 2) ss)"
      using Cons.prems(4) sub(1) by (elim inj_on_subset) (auto simp: Let_def)
  qed
  then have "(\<lambda>(a, b). h a b) ?p = (\<lambda>(a, b). h a b) ?q"
    by (simp only: pairs_pad_nth [OF i] split_beta fst_conv snd_conv)
  moreover have "?p \<in> path_pairs h e i (s # ss)" by (simp add: Let_def)
  ultimately have "?p = ?q"
    by (rule inj_onD [OF Cons.prems(4) _ UnI2 UnI1 [OF sub(2)]])
  then show ?case
    using Cons.prems(2) by (auto simp: node_or_placeholder_def split: if_splits elim!: evenE oddE)
qed

lemma length_audit_path: "length (audit_path h xs i) = tree_depth (length xs)"
  by (induction h xs i rule: audit_path.induct)
     (subst audit_path.simps, subst tree_depth.simps, simp add: length_pairs_pad)

lemma tree_depth_bound: "n \<le> 2 ^ d \<Longrightarrow> tree_depth n \<le> d"
proof (induction d arbitrary: n)
  case 0
  then show ?case by (simp add: tree_depth.simps)
next
  case (Suc d)
  then have "Suc n div 2 \<le> 2 ^ d" by simp
  with Suc.IH show ?case by (subst tree_depth.simps) simp
qed


text \<open>C26. The accumulator is the Merkle tree. Building the accumulator of fewer than \<open>2^64\<close> leaves
  never panics; it counts the leaves, and its root hash, computed from the roots of the full subtrees
  only, is the root of the whole tree padded with placeholders.\<close>

theorem from_leaves_root:
  assumes "length xs < 2 ^ 64"
  shows "\<exists>a. from_leaves h xs = (Inr a :: ('e, accumulator) result) \<and>
             root_hash a = tree_root h xs \<and> unat (num_leaves a) = length xs"
  using from_leaves_acc_of [OF assms, of h, where 'e = 'e] assms
  by (simp add: acc_of_def unat_of_nat_u64 del: unsigned_of_nat)

theorem from_leaves_root_witness:
  "\<exists>a. from_leaves (+) [1, 2, 3] = (Inr a :: (string, accumulator) result) \<and>
     root_hash a = (1 + 2) + (3 + ACCUMULATOR_PLACEHOLDER_HASH) \<and> num_leaves a = 3"
  using from_leaves_root [of "[1, 2, 3]" "(+)", where 'e = string]
  by (auto simp: word_unat_eq_iff add.assoc)

text \<open>C29. Appending is incremental: appending leaves to the accumulator of a list gives, without a
  panic, the accumulator of the concatenation, so the order of batches is all that matters.\<close>

theorem append_from_leaves:
  assumes "from_leaves h xs = (Inr a :: ('e, accumulator) result)" and "length (xs @ ys) < 2 ^ 64"
  shows "acc_append h a ys = (from_leaves h (xs @ ys) :: ('e, accumulator) result) \<and>
         (\<exists>b. acc_append h a ys = (Inr b :: ('e, accumulator) result))"
proof -
  have "a = acc_of h xs" using assms from_leaves_acc_of [of xs h, where 'e = 'e] by simp
  then show ?thesis
    using acc_append_acc_of [OF assms(2), of h, where 'e = 'e]
      from_leaves_acc_of [OF assms(2), of h, where 'e = 'e] by simp
qed

theorem append_from_leaves_witness:
  "\<exists>a b. from_leaves (+) [1, 2, 3] = (Inr a :: (string, accumulator) result) \<and>
     acc_append (+) a [4, 5] = (Inr b :: (string, accumulator) result) \<and>
     from_leaves (+) [1, 2, 3, 4, 5] = (Inr b :: (string, accumulator) result)"
proof -
  have a: "from_leaves (+) [1, 2, 3] = (Inr (acc_of (+) [1, 2, 3]) :: (string, accumulator) result)"
    by (rule from_leaves_acc_of) simp
  show ?thesis using append_from_leaves [OF a, of "[4, 5]"] a by (simp, metis)
qed



text \<open>C27. An accepted proof of the depth of the tree names the leaf at its index: if no two different
  pairs among those hashed in the tree and along the proof collide, the element is that leaf.\<close>

theorem accumulator_proof_sound:
  assumes "accumulator_proof_verify h ss (tree_root h xs) e i = Inr ()"
    and "unat i < length xs" and "length ss = tree_depth (length xs)"
    and "inj_on (\<lambda>(a, b). h a b) (tree_pairs h xs \<union> path_pairs h e (unat i) ss)"
  shows "e = xs ! unat i"
  using assms by (intro proof_fold_sound [of h e "unat i" ss xs])
    (auto simp: accumulator_proof_verify_def proof_fold_eq result_simps)

theorem accumulator_proof_sound_witness:
  "(3 :: hash_value) = [1, 2, 3] ! unat (2 :: u64)"
proof (rule accumulator_proof_sound [where h = "\<lambda>a b. 2 * a + 3 * b" and
      ss = "[ACCUMULATOR_PLACEHOLDER_HASH, 8]"])
  let ?h = "\<lambda>a b. 2 * a + 3 * b :: hash_value"
  have t: "tree_root ?h [1, 2, 3] = 2 * 8 + 3 * (2 * 3 + 3 * ACCUMULATOR_PLACEHOLDER_HASH)" by simp
  show "accumulator_proof_verify ?h [ACCUMULATOR_PLACEHOLDER_HASH, 8] (tree_root ?h [1, 2, 3]) 3 2 = Inr ()"
    by (simp add: accumulator_proof_verify_def MAX_ACCUMULATOR_PROOF_DEPTH_def t)
  show "inj_on (\<lambda>(a, b). ?h a b)
      (tree_pairs ?h [1, 2, 3] \<union> path_pairs ?h 3 (unat (2 :: u64)) [ACCUMULATOR_PLACEHOLDER_HASH, 8])"
    by (simp add: tree_pairs.simps node_or_placeholder_def lessThan_Suc insert_Diff_if
        ACCUMULATOR_PLACEHOLDER_HASH_def create_literal_hash_def)
qed (simp_all add: tree_depth.simps)

end
