(* ===== verification/Chain_Data.thy ===== *)
theory Chain_Data
  imports Validator_Verifier Accumulator
begin

text \<open>
  The data that validators agree on and exchange: the ledger types of types/src and the messages of
  consensus/consensus-types/src, each struct as a record with the source's fields, each enum as a
  datatype, and the record \<open>crypto\<close> of the cryptographic functions the sources call but do not
  implement.

  \<^item> \<open>LedgerInfoWithSignatures\<close> has the single variant \<open>V0\<close>, which is the record of its contents.
  \<^item> The payload and the authenticator of a transaction are opaque bytes: consensus never looks
    inside. The fetching status of an \<open>InQuorumStore\<close> payload, which is skipped by serialisation, is
    left out.
\<close>

section \<open>Ledger\<close>

type_synonym round = u64
type_synonym version = u64
type_synonym author = account_address

record epoch_state =
  es_epoch :: u64
  es_verifier :: validator_verifier

record block_info =
  bi_epoch :: u64
  bi_round :: round
  bi_id :: hash_value
  bi_executed_state_id :: hash_value
  bi_version :: version
  bi_timestamp_usecs :: u64
  bi_next_epoch_state :: "epoch_state option"

record ledger_info =
  li_commit_info :: block_info
  li_consensus_data_hash :: hash_value

record ledger_info_with_signatures =
  lis_ledger_info :: ledger_info
  lis_signatures :: aggregate_signature

record ledger_info_with_partial_signatures =
  lip_ledger_info :: ledger_info
  lip_partial_sigs :: partial_signatures

record waypoint =
  wp_version :: version
  wp_value :: hash_value

record ledger2waypoint_converter =
  l2w_epoch :: u64
  l2w_root_hash :: hash_value
  l2w_version :: version
  l2w_timestamp_usecs :: u64
  l2w_next_epoch_state :: "epoch_state option"

record epoch_change_proof =
  ecp_ledger_info_with_sigs :: "ledger_info_with_signatures list"
  ecp_more :: bool

section \<open>Votes, certificates and timeouts\<close>

record vote_data =
  vd_proposed :: block_info
  vd_parent :: block_info

record quorum_cert =
  qc_vote_data :: vote_data
  qc_signed_ledger_info :: ledger_info_with_signatures

record two_chain_timeout =
  to_epoch :: u64
  to_round :: round
  to_quorum_cert :: quorum_cert

record timeout_signing_repr =
  tsr_epoch :: u64
  tsr_round :: round
  tsr_hqc_round :: round

record aggregate_signature_with_rounds =
  asr_sig :: aggregate_signature
  asr_rounds :: "round list"

record two_chain_timeout_certificate =
  tc_timeout :: two_chain_timeout
  tc_signatures_with_rounds :: aggregate_signature_with_rounds

text \<open>\<open>PartialSignaturesWithRound\<close> is a \<open>BTreeMap\<close> from the signer to its round and signature.\<close>

type_synonym partial_signatures_with_round = "(account_address, round \<times> bls_signature) btree"

record two_chain_timeout_with_partial_signatures =
  tp_timeout :: two_chain_timeout
  tp_signatures :: partial_signatures_with_round

record vote =
  v_vote_data :: vote_data
  v_author :: author
  v_ledger_info :: ledger_info
  v_signature :: bls_signature
  v_two_chain_timeout :: "(two_chain_timeout \<times> bls_signature) option"

section \<open>Payloads, blocks and messages\<close>

record raw_transaction =
  rt_sender :: account_address
  rt_sequence_number :: u64
  rt_payload :: "u8 list"
  rt_max_gas_amount :: u64
  rt_gas_unit_price :: u64
  rt_expiration_timestamp_secs :: u64
  rt_chain_id :: u8

record signed_transaction =
  st_raw_txn :: raw_transaction
  st_authenticator :: "u8 list"

record batch_id =
  batch_seq :: u64
  batch_nonce :: u64

record batch_info =
  ba_author :: account_address
  ba_batch_id :: batch_id
  ba_epoch :: u64
  ba_expiration :: u64
  ba_digest :: hash_value
  ba_num_txns :: u64
  ba_num_bytes :: u64
  ba_gas_bucket_start :: u64

record proof_of_store =
  pos_info :: batch_info
  pos_multi_signature :: aggregate_signature

datatype payload =
    DirectMempool "signed_transaction list"
  | InQuorumStore "proof_of_store list"

datatype block_type =
    Proposal payload author "(round \<times> author) list"
  | NilBlock "(round \<times> author) list"
  | Genesis

record block_data =
  bd_epoch :: u64
  bd_round :: round
  bd_timestamp_usecs :: u64
  bd_quorum_cert :: quorum_cert
  bd_block_type :: block_type

record block =
  b_id :: hash_value
  b_block_data :: block_data
  b_signature :: "bls_signature option"

record vote_proposal =
  vp_accumulator_extension_proof :: accumulator_extension_proof
  vp_block :: block
  vp_next_epoch_state :: "epoch_state option"
  vp_decoupled_execution :: bool

record sync_info =
  si_highest_quorum_cert :: quorum_cert
  si_highest_ordered_cert :: "quorum_cert option"
  si_highest_commit_cert :: quorum_cert
  si_highest_2chain_timeout_cert :: "two_chain_timeout_certificate option"

record safety_data =
  sd_epoch :: u64
  sd_last_voted_round :: u64
  sd_preferred_round :: u64
  sd_one_chain_round :: u64
  sd_last_vote :: "vote option"

section \<open>Signing and hashing\<close>

text \<open>
  The structures that validators sign. The signing message of a structure starts with the hash of
  its type name (\<open>signing_message\<close> of crates/aptos-crypto/src/traits.rs), so structures of different
  types are different messages: the constructors of \<open>signable\<close>.
\<close>

datatype signable =
    SignLedgerInfo ledger_info
  | SignTimeout timeout_signing_repr
  | SignBlockData block_data
  | SignBatchInfo batch_info

text \<open>The BLS operations on these messages, and the hashes (SHA3 of the BCS encoding) of the
  structures that are hashed.\<close>

record crypto = "signable bls" +
  hash_vote_data :: "vote_data \<Rightarrow> hash_value"
  hash_block_data :: "block_data \<Rightarrow> hash_value"
  hash_waypoint :: "ledger2waypoint_converter \<Rightarrow> hash_value"
  hash_txn_node :: node_hash

end
