(* ===== verification/Ledger.thy ===== *)
theory Ledger
  imports Chain_Data
begin

text \<open>
  Ledger infos and how a client follows the chain of epochs: types/src/block_info.rs,
  ledger_info.rs, epoch_state.rs, waypoint.rs, epoch_change.rs, trusted_state.rs, the accumulator
  summary of proof/definition.rs, and the conversion of the on-chain validator set.

  The trait \<open>Verifier\<close> is an interface: \<open>EpochChangeProof::verify\<close> takes the two functions it calls
  as arguments, and the locale \<open>epoch_verifier\<close> has the law its three implementors satisfy. The lemmas
  show that an accepted chain of ledger infos is signed, link by link, by quorums of the epochs it
  passes through, and that the trusted state of a light client only moves along such chains.
\<close>

section \<open>Block infos and ledger infos\<close>

definition GENESIS_EPOCH :: u64 where "GENESIS_EPOCH = 0"
definition GENESIS_ROUND :: round where "GENESIS_ROUND = 0"
definition GENESIS_VERSION :: version where "GENESIS_VERSION = 0"
definition GENESIS_TIMESTAMP_USECS :: u64 where "GENESIS_TIMESTAMP_USECS = 0"

definition block_info_empty :: block_info where
  "block_info_empty =
     \<lparr>bi_epoch = 0, bi_round = 0, bi_id = hash_zero, bi_executed_state_id = hash_zero, bi_version = 0,
      bi_timestamp_usecs = 0, bi_next_epoch_state = None\<rparr>"

definition next_block_epoch :: "block_info \<Rightarrow> u64" where
  "next_block_epoch b = (case bi_next_epoch_state b of None \<Rightarrow> bi_epoch b | Some e \<Rightarrow> es_epoch e)"

definition has_reconfiguration :: "block_info \<Rightarrow> bool" where
  "has_reconfiguration b \<longleftrightarrow> bi_next_epoch_state b \<noteq> None"

definition allow_timestamp_change :: "block_info \<Rightarrow> u64 \<Rightarrow> bool" where
  "allow_timestamp_change b timestamp \<longleftrightarrow> has_reconfiguration b \<and> bi_timestamp_usecs b \<ge> timestamp"

definition change_timestamp :: "block_info \<Rightarrow> u64 \<Rightarrow> ('e, block_info) result" where
  "change_timestamp b timestamp =
     and_then (assert_that (allow_timestamp_change b timestamp)) (\<lambda>_.
     Inr (b\<lparr>bi_timestamp_usecs := timestamp\<rparr>))"

definition match_ordered_only :: "block_info \<Rightarrow> block_info \<Rightarrow> bool" where
  "match_ordered_only b executed \<longleftrightarrow>
     bi_epoch b = bi_epoch executed \<and> bi_round b = bi_round executed \<and> bi_id b = bi_id executed \<and>
     (bi_timestamp_usecs b = bi_timestamp_usecs executed \<or>
      bi_timestamp_usecs b > bi_timestamp_usecs executed \<and> has_reconfiguration executed)"

definition is_ordered_only :: "block_info \<Rightarrow> bool" where
  "is_ordered_only b \<longleftrightarrow>
     b \<noteq> block_info_empty \<and> bi_next_epoch_state b = None \<and>
     bi_executed_state_id b = ACCUMULATOR_PLACEHOLDER_HASH \<and> bi_version b = 0"

definition li_epoch :: "ledger_info \<Rightarrow> u64" where
  "li_epoch li = bi_epoch (li_commit_info li)"

definition li_next_block_epoch :: "ledger_info \<Rightarrow> u64" where
  "li_next_block_epoch li = next_block_epoch (li_commit_info li)"

definition li_version :: "ledger_info \<Rightarrow> version" where
  "li_version li = bi_version (li_commit_info li)"

definition li_next_epoch_state :: "ledger_info \<Rightarrow> epoch_state option" where
  "li_next_epoch_state li = bi_next_epoch_state (li_commit_info li)"

definition li_ends_epoch :: "ledger_info \<Rightarrow> bool" where
  "li_ends_epoch li \<longleftrightarrow> li_next_epoch_state li \<noteq> None"

definition transaction_accumulator_hash :: "ledger_info \<Rightarrow> hash_value" where
  "transaction_accumulator_hash li = bi_executed_state_id (li_commit_info li)"

definition set_consensus_data_hash :: "ledger_info \<Rightarrow> hash_value \<Rightarrow> ledger_info" where
  "set_consensus_data_hash li h = li\<lparr>li_consensus_data_hash := h\<rparr>"

definition lis_get_voters :: "ledger_info_with_signatures \<Rightarrow> account_address list \<Rightarrow> account_address list" where
  "lis_get_voters l addresses = get_signers_addresses (lis_signatures l) addresses"

definition lis_get_num_voters :: "ledger_info_with_signatures \<Rightarrow> nat" where
  "lis_get_num_voters l = get_num_voters (lis_signatures l)"

definition lis_verify_signatures ::
  "crypto \<Rightarrow> ledger_info_with_signatures \<Rightarrow> validator_verifier \<Rightarrow> (verify_error, unit) result" where
  "lis_verify_signatures cr l v =
     verify_multi_signatures cr v (SignLedgerInfo (lis_ledger_info l)) (lis_signatures l)"

definition lis_check_voting_power ::
  "ledger_info_with_signatures \<Rightarrow> validator_verifier \<Rightarrow> (verify_error, unit) result" where
  "lis_check_voting_power l v =
     check_voting_power v (lis_get_voters l (get_ordered_account_addresses v)) True"

definition lip_remove_signature ::
  "ledger_info_with_partial_signatures \<Rightarrow> account_address \<Rightarrow> ledger_info_with_partial_signatures" where
  "lip_remove_signature l a = l\<lparr>lip_partial_sigs := ps_remove_signature (lip_partial_sigs l) a\<rparr>"

definition lip_add_signature ::
  "ledger_info_with_partial_signatures \<Rightarrow> account_address \<Rightarrow> bls_signature \<Rightarrow>
     ledger_info_with_partial_signatures" where
  "lip_add_signature l a s = l\<lparr>lip_partial_sigs := ps_add_signature (lip_partial_sigs l) a s\<rparr>"

definition lip_aggregate_signatures ::
  "crypto \<Rightarrow> ledger_info_with_partial_signatures \<Rightarrow> validator_verifier \<Rightarrow>
     (verify_error, ledger_info_with_signatures) result" where
  "lip_aggregate_signatures cr l v =
     and_then (aggregate_signatures cr v (lip_partial_sigs l)) (\<lambda>aggregated.
     Inr \<lparr>lis_ledger_info = lip_ledger_info l, lis_signatures = aggregated\<rparr>)"

section \<open>Errors as messages\<close>

text \<open>
  An error that becomes an \<open>anyhow\<close> error is its message: for a \<open>VerifyError\<close> the one of its
  \<open>#[error]\<close> attribute, without the two numbers of \<open>TooLittleVotingPower\<close>. \<open>context\<close> replaces the
  message that is shown.
\<close>

fun verify_error_message :: "verify_error \<Rightarrow> string" where
  "verify_error_message UnknownAuthor = ''Author is unknown''"
| "verify_error_message (TooLittleVotingPower _ _) = ''The voting power is less than expected voting power''"
| "verify_error_message EmptySignature = ''Signature is empty''"
| "verify_error_message InvalidMultiSignature = ''Multi signature is invalid''"
| "verify_error_message InvalidAggregatedSignature = ''Aggregated signature is invalid''"
| "verify_error_message InconsistentBlockInfo = ''Inconsistent Block Info''"
| "verify_error_message FailedToAggregatePubKey = ''Failed to aggregate public keys''"
| "verify_error_message FailedToAggregateSignature = ''Failed to aggregate signatures''"
| "verify_error_message FailedToVerifyMultiSignature = ''Failed to verify multi-signature''"
| "verify_error_message InvalidBitVec = ''Invalid bitvec from the multi-signature''"
| "verify_error_message FailedToVerifyAggregatedSignature = ''Failed to verify aggreagated signature''"

definition into_anyhow :: "(verify_error, 'a) result \<Rightarrow> 'a anyhow" where
  "into_anyhow r = map_err verify_error_message r"

definition with_context :: "string \<Rightarrow> ('e, 'a) result \<Rightarrow> 'a anyhow" where
  "with_context msg r = map_err (\<lambda>_. msg) r"

lemma into_anyhow_Inr [result_simps]: "into_anyhow r = Inr x \<longleftrightarrow> r = Inr x"
  by (simp add: into_anyhow_def result_simps)

lemma with_context_Inr [result_simps]: "with_context msg r = Inr x \<longleftrightarrow> r = Inr x"
  by (simp add: with_context_def result_simps)

section \<open>Verifiers of ledger infos\<close>

definition epoch_state_empty :: "('e, epoch_state) result" where
  "epoch_state_empty = and_then (verifier_new []) (\<lambda>v. Inr \<lparr>es_epoch = 0, es_verifier = v\<rparr>)"

definition epoch_state_verify :: "crypto \<Rightarrow> epoch_state \<Rightarrow> ledger_info_with_signatures \<Rightarrow> unit anyhow" where
  "epoch_state_verify cr es l =
     and_then (ensure (es_epoch es = li_epoch (lis_ledger_info l)) ''LedgerInfo has unexpected epoch'') (\<lambda>_.
     into_anyhow (lis_verify_signatures cr l (es_verifier es)))"

definition epoch_state_change_required :: "epoch_state \<Rightarrow> u64 \<Rightarrow> bool" where
  "epoch_state_change_required es epoch \<longleftrightarrow> es_epoch es < epoch"

definition epoch_state_stale :: "epoch_state \<Rightarrow> ledger_info \<Rightarrow> bool" where
  "epoch_state_stale es li \<longleftrightarrow> li_epoch li < es_epoch es"

definition converter_new :: "ledger_info \<Rightarrow> ledger2waypoint_converter" where
  "converter_new li =
     \<lparr>l2w_epoch = li_epoch li, l2w_root_hash = transaction_accumulator_hash li, l2w_version = li_version li,
      l2w_timestamp_usecs = bi_timestamp_usecs (li_commit_info li), l2w_next_epoch_state = li_next_epoch_state li\<rparr>"

definition waypoint_new_any :: "crypto \<Rightarrow> ledger_info \<Rightarrow> waypoint" where
  "waypoint_new_any cr li = \<lparr>wp_version = li_version li, wp_value = hash_waypoint cr (converter_new li)\<rparr>"

definition waypoint_new_epoch_boundary :: "crypto \<Rightarrow> ledger_info \<Rightarrow> waypoint anyhow" where
  "waypoint_new_epoch_boundary cr li =
     and_then (ensure (li_ends_epoch li) ''No validator set'') (\<lambda>_. Inr (waypoint_new_any cr li))"

definition waypoint_verify :: "crypto \<Rightarrow> waypoint \<Rightarrow> ledger_info \<Rightarrow> unit anyhow" where
  "waypoint_verify cr w li =
     and_then (ensure (li_version li = wp_version w) ''Waypoint version mismatch'') (\<lambda>_.
     ensure (hash_waypoint cr (converter_new li) = wp_value w) ''Waypoint value mismatch'')"

definition waypoint_verifier_verify :: "crypto \<Rightarrow> waypoint \<Rightarrow> ledger_info_with_signatures \<Rightarrow> unit anyhow" where
  "waypoint_verifier_verify cr w l = waypoint_verify cr w (lis_ledger_info l)"

definition waypoint_change_required :: "waypoint \<Rightarrow> u64 \<Rightarrow> bool" where
  "waypoint_change_required w epoch = True"

definition waypoint_stale :: "waypoint \<Rightarrow> ledger_info \<Rightarrow> bool" where
  "waypoint_stale w li \<longleftrightarrow> li_version li < wp_version w"

section \<open>Epoch change proofs\<close>

definition ecp_epoch :: "epoch_change_proof \<Rightarrow> u64 anyhow" where
  "ecp_epoch p =
     (case ecp_ledger_info_with_sigs p of
        [] \<Rightarrow> Inl (Err ''Empty EpochChangeProof'')
      | l # _ \<Rightarrow> Inr (li_epoch (lis_ledger_info l)))"

fun verify_epochs ::
  "crypto \<Rightarrow> (ledger_info_with_signatures \<Rightarrow> unit anyhow) \<Rightarrow> ledger_info_with_signatures list \<Rightarrow> unit anyhow" where
  "verify_epochs cr verify_with [] = Inr ()"
| "verify_epochs cr verify_with (l # ls) =
     and_then (verify_with l) (\<lambda>_.
     and_then (ok_or (li_next_epoch_state (lis_ledger_info l)) ''LedgerInfo doesn't carry a ValidatorSet'') (\<lambda>es.
     verify_epochs cr (epoch_state_verify cr es) ls))"

definition ecp_verify ::
  "crypto \<Rightarrow> (ledger_info_with_signatures \<Rightarrow> unit anyhow) \<Rightarrow> (ledger_info \<Rightarrow> bool) \<Rightarrow> epoch_change_proof \<Rightarrow>
     ledger_info_with_signatures anyhow" where
  "ecp_verify cr verify_with stale p =
     (let ls = ecp_ledger_info_with_sigs p in
      and_then (ensure (ls \<noteq> []) ''The EpochChangeProof is empty'') (\<lambda>_.
      and_then (ensure (\<not> stale (lis_ledger_info (last ls))) ''The EpochChangeProof is stale'') (\<lambda>_.
      and_then (verify_epochs cr verify_with (dropWhile (\<lambda>l. stale (lis_ledger_info l)) ls)) (\<lambda>_.
      Inr (last ls)))))"

section \<open>The trusted state of a client\<close>

datatype trusted_state = EpochWaypoint waypoint | TrustedEpochState waypoint epoch_state

datatype trusted_state_change =
    VersionChange trusted_state
  | EpochChange trusted_state ledger_info_with_signatures
  | NoChange

fun ts_waypoint :: "trusted_state \<Rightarrow> waypoint" where
  "ts_waypoint (EpochWaypoint w) = w"
| "ts_waypoint (TrustedEpochState w es) = w"

definition ts_version :: "trusted_state \<Rightarrow> version" where
  "ts_version s = wp_version (ts_waypoint s)"

fun ts_verify :: "crypto \<Rightarrow> trusted_state \<Rightarrow> ledger_info_with_signatures \<Rightarrow> unit anyhow" where
  "ts_verify cr (EpochWaypoint w) l = waypoint_verifier_verify cr w l"
| "ts_verify cr (TrustedEpochState w es) l = epoch_state_verify cr es l"

fun ts_change_required :: "trusted_state \<Rightarrow> u64 \<Rightarrow> bool" where
  "ts_change_required (EpochWaypoint w) epoch = waypoint_change_required w epoch"
| "ts_change_required (TrustedEpochState w es) epoch = epoch_state_change_required es epoch"

fun ts_stale :: "trusted_state \<Rightarrow> ledger_info \<Rightarrow> bool" where
  "ts_stale (EpochWaypoint w) li = waypoint_stale w li"
| "ts_stale (TrustedEpochState w es) li = epoch_state_stale es li"

definition verify_and_ratchet_inner ::
  "crypto \<Rightarrow> trusted_state \<Rightarrow> ledger_info_with_signatures \<Rightarrow> epoch_change_proof \<Rightarrow> trusted_state_change anyhow"
where
  "verify_and_ratchet_inner cr s latest_li p =
     (let latest = lis_ledger_info latest_li in
      and_then (ensure (li_version latest \<ge> ts_version s) ''The target latest ledger info version is stale'') (\<lambda>_.
      if ts_change_required s (li_next_block_epoch latest)
      then
        and_then (ecp_verify cr (ts_verify cr s) (ts_stale s) p) (\<lambda>epoch_change_li.
        and_then (ok_or (li_next_epoch_state (lis_ledger_info epoch_change_li))
            ''A valid EpochChangeProof will never return a non-epoch change ledger info'') (\<lambda>new_epoch_state.
        and_then
          (if epoch_change_li = latest_li then Inr latest_li
           else if li_epoch latest = es_epoch new_epoch_state
           then and_then (epoch_state_verify cr new_epoch_state latest_li) (\<lambda>_. Inr latest_li)
           else if li_epoch latest > es_epoch new_epoch_state \<and> ecp_more p then Inr epoch_change_li
           else Inl (Err ''Inconsistent epoch change proof and latest ledger info'')) (\<lambda>verified_ledger_info.
        Inr (EpochChange
          (TrustedEpochState (waypoint_new_any cr (lis_ledger_info verified_ledger_info)) new_epoch_state)
          epoch_change_li))))
      else
        (case s of
           EpochWaypoint _ \<Rightarrow> Inl (Err ''EpochWaypoint can only verify an epoch change ledger info'')
         | TrustedEpochState curr_waypoint curr_epoch_state \<Rightarrow>
             (let new_waypoint = waypoint_new_any cr latest in
              if wp_version new_waypoint = wp_version curr_waypoint
              then and_then (ensure (new_waypoint = curr_waypoint) ''LedgerInfo doesn't match verified state'')
                     (\<lambda>_. Inr NoChange)
              else and_then (epoch_state_verify cr curr_epoch_state latest_li) (\<lambda>_.
                   Inr (VersionChange (TrustedEpochState new_waypoint curr_epoch_state)))))))"

fun change_new_state :: "trusted_state_change \<Rightarrow> trusted_state option" where
  "change_new_state (VersionChange s) = Some s"
| "change_new_state (EpochChange s l) = Some s"
| "change_new_state NoChange = None"

section \<open>Accumulator summaries\<close>

type_synonym accumulator_consistency_proof = "hash_value list"

definition summary_new :: "accumulator \<Rightarrow> accumulator anyhow" where
  "summary_new a = and_then (ensure (\<not> acc_is_empty a) ''empty accumulator'') (\<lambda>_. Inr a)"

definition verify_consistency :: "accumulator \<Rightarrow> ledger_info \<Rightarrow> unit anyhow" where
  "verify_consistency a li =
     and_then (ensure (li_version li = acc_version a)
       ''ledger info and accumulator must be at the same version'') (\<lambda>_.
     ensure (transaction_accumulator_hash li = root_hash a)
       ''ledger info root hash and accumulator root hash must match'')"

definition try_from_genesis_proof :: "node_hash \<Rightarrow> accumulator_consistency_proof \<Rightarrow> version \<Rightarrow> accumulator anyhow" where
  "try_from_genesis_proof h p target_version = acc_new h p (saturating_add target_version 1)"

definition try_extend_with_proof ::
  "node_hash \<Rightarrow> accumulator \<Rightarrow> accumulator_consistency_proof \<Rightarrow> ledger_info \<Rightarrow> accumulator anyhow" where
  "try_extend_with_proof h a p target_li =
     and_then (ensure (li_version target_li \<ge> acc_version a)
       ''target ledger info version must be newer than our current accumulator summary version'') (\<lambda>_.
     and_then (append_subtrees h a p (li_version target_li - acc_version a)) (\<lambda>new_accumulator.
     and_then (with_context
       ''accumulator is not consistent with the target ledger info after applying consistency proof''
       (verify_consistency new_accumulator target_li)) (\<lambda>_.
     Inr new_accumulator)))"

definition try_from_epoch_change_li :: "crypto \<Rightarrow> ledger_info \<Rightarrow> accumulator \<Rightarrow> trusted_state anyhow" where
  "try_from_epoch_change_li cr li a =
     and_then (verify_consistency a li) (\<lambda>_.
     and_then (ok_or (li_next_epoch_state li)
       ''No EpochState in LedgerInfo; it must not be on an epoch boundary'') (\<lambda>es.
     and_then (waypoint_new_epoch_boundary cr li) (\<lambda>w.
     Inr (TrustedEpochState w es))))"

section \<open>The interface of verifiers\<close>

text \<open>What every implementor of \<open>Verifier\<close> promises: a ledger info it accepts is not stale for it.\<close>

locale epoch_verifier =
  fixes verify_with :: "ledger_info_with_signatures \<Rightarrow> unit anyhow"
    and stale :: "ledger_info \<Rightarrow> bool"
  assumes fresh: "verify_with l = Inr () \<Longrightarrow> \<not> stale (lis_ledger_info l)"
begin

text \<open>A chain that verifies link by link from this verifier is accepted as a whole: no link is
  skipped, because the first is not stale.\<close>

lemma chain_accepted:
  assumes "ls \<noteq> []" and "verify_epochs cr verify_with ls = Inr ()" and "\<not> stale (lis_ledger_info (last ls))"
  shows "ecp_verify cr verify_with stale \<lparr>ecp_ledger_info_with_sigs = ls, ecp_more = m\<rparr> = Inr (last ls)"
proof -
  have "\<not> stale (lis_ledger_info (hd ls))"
    using assms(1,2) by (cases ls) (auto simp: result_simps dest: fresh)
  then have "dropWhile (\<lambda>l. stale (lis_ledger_info l)) ls = ls"
    using assms(1) by (cases ls) auto
  with assms show ?thesis by (simp add: ecp_verify_def)
qed

lemma link_accepted:
  assumes "verify_with l = Inr ()" and "li_ends_epoch (lis_ledger_info l)"
  shows "ecp_verify cr verify_with stale \<lparr>ecp_ledger_info_with_sigs = [l], ecp_more = m\<rparr> = Inr l"
  using assms chain_accepted [of "[l]" cr m]
  by (auto simp: li_ends_epoch_def ok_or_def dest: fresh)

end

interpretation waypoints: epoch_verifier "waypoint_verifier_verify cr w" "waypoint_stale w" for cr w
  by unfold_locales (simp add: waypoint_verifier_verify_def waypoint_verify_def waypoint_stale_def result_simps)

interpretation epochs: epoch_verifier "epoch_state_verify cr es" "epoch_state_stale es" for cr es
  by unfold_locales (simp add: epoch_state_verify_def epoch_state_stale_def result_simps)

interpretation trusted: epoch_verifier "ts_verify cr s" "ts_stale s" for cr s
  by unfold_locales (cases s; simp add: waypoints.fresh epochs.fresh)

section \<open>Chains of epochs\<close>

lemma epoch_state_verify_ok:
  assumes "epoch_state_verify cr es l = Inr ()"
  shows "li_epoch (lis_ledger_info l) = es_epoch es"
    and "verifier_wf (es_verifier es) \<Longrightarrow>
      is_quorum (es_verifier es) (set (signers (es_verifier es) (lis_signatures l)))"
  using assms verify_multi_signatures_quorum
  by (auto simp: epoch_state_verify_def lis_verify_signatures_def result_simps)

text \<open>The link from one ledger info to the next of a chain.\<close>

definition epoch_link :: "ledger_info_with_signatures \<Rightarrow> ledger_info_with_signatures \<Rightarrow> bool" where
  "epoch_link l l' \<longleftrightarrow>
     (\<exists>es. li_next_epoch_state (lis_ledger_info l) = Some es \<and>
           li_epoch (lis_ledger_info l') = es_epoch es \<and>
           (verifier_wf (es_verifier es) \<longrightarrow>
              is_quorum (es_verifier es) (set (signers (es_verifier es) (lis_signatures l')))))"

lemma verify_epochs_ok:
  assumes "verify_epochs cr verify_with ls = Inr ()" and "ls \<noteq> []"
  shows "verify_with (hd ls) = Inr () \<and> (\<forall>l\<in>set ls. li_ends_epoch (lis_ledger_info l)) \<and>
         (\<forall>k. Suc k < length ls \<longrightarrow> epoch_link (ls ! k) (ls ! Suc k))"
  using assms
proof (induction ls arbitrary: verify_with)
  case (Cons l ls)
  from Cons.prems obtain es where l: "verify_with l = Inr ()" "li_next_epoch_state (lis_ledger_info l) = Some es"
    and rest: "verify_epochs cr (epoch_state_verify cr es) ls = Inr ()"
    by (auto simp: result_simps)
  show ?case
  proof (cases ls)
    case Nil
    with l show ?thesis by (simp add: li_ends_epoch_def)
  next
    case (Cons l' ls')
    with Cons.IH [OF rest] have IH: "epoch_state_verify cr es l' = Inr ()"
      "\<forall>l\<in>set ls. li_ends_epoch (lis_ledger_info l)" "\<forall>k. Suc k < length ls \<longrightarrow> epoch_link (ls ! k) (ls ! Suc k)"
      by auto
    have "epoch_link l l'" using l(2) epoch_state_verify_ok [OF IH(1)] by (auto simp: epoch_link_def)
    moreover have "epoch_link ((l # ls) ! k) ((l # ls) ! Suc k)" if "Suc k < length (l # ls)" for k
      using that IH(3) \<open>epoch_link l l'\<close> Cons by (cases k) auto
    ultimately show ?thesis using l IH(2) by (simp add: li_ends_epoch_def)
  qed
qed simp

lemma dropWhile_last: "xs \<noteq> [] \<Longrightarrow> \<not> P (last xs) \<Longrightarrow> dropWhile P xs \<noteq> [] \<and> last (dropWhile P xs) = last xs"
  by (induction xs) auto


text \<open>Ledger infos that are already in the trusted prefix do not change the outcome of a proof:
  with or without a stale prefix the proof is accepted with the same result or rejected with the
  same error.\<close>

lemma epoch_change_proof_stale_prefix:
  assumes "\<forall>l\<in>set pre. stale (lis_ledger_info l)" and "ls \<noteq> []"
  shows "ecp_verify cr verify_with stale \<lparr>ecp_ledger_info_with_sigs = pre @ ls, ecp_more = m\<rparr> =
         ecp_verify cr verify_with stale \<lparr>ecp_ledger_info_with_sigs = ls, ecp_more = m\<rparr>"
  using assms by (simp add: ecp_verify_def Let_def dropWhile_append2)



section \<open>Sample data\<close>

text \<open>A crypto record, ledger infos and a signature of three of the four sample validators, for the
  witnesses.\<close>

definition sample_crypto :: crypto where
  "sample_crypto = bls.extend sample_bls
     \<lparr>hash_vote_data = (\<lambda>vd. ucast (bi_round (vd_proposed vd)) + 1), hash_block_data = (\<lambda>bd. ucast (bd_round bd)),
      hash_waypoint = (\<lambda>c. ucast (l2w_version c)), hash_txn_node = (\<lambda>a b. 2 * a + 3 * b)\<rparr>"

definition sample_signature :: aggregate_signature where
  "sample_signature = \<lparr>validator_bitmask = \<lparr>inner = [224]\<rparr>, agg_sig = Some 6\<rparr>"

lemma sample_iter_ones: "iter_ones \<lparr>inner = [224]\<rparr> = [0, 1, 2]"
  by code_simp

lemma sample_multi_signature:
  "verify_multi_signatures sample_crypto sample_verifier m sample_signature = Inr ()"
proof -
  have "check_num_of_voters (of_nat (verifier_len sample_verifier)) \<lparr>inner = [224]\<rparr> = Inr ()"
    by code_simp
  moreover have "collect_signers sample_verifier [0, 1, 2] = Inr [(1, 1), (2, 2), (3, 3)]"
    by (simp add: sample_verifier_def sample_infos_def build_index_def)
  ultimately show ?thesis
    using sample_check(1)
    by (simp add: verify_multi_signatures_def sample_signature_def sample_iter_ones ok_or_def sample_crypto_def
        bls.defs sample_bls_def)
qed


definition sample_ledger_info :: "u64 \<Rightarrow> version \<Rightarrow> ledger_info" where
  "sample_ledger_info epoch v =
     \<lparr>li_commit_info = \<lparr>bi_epoch = epoch, bi_round = 1, bi_id = 1, bi_executed_state_id = 1, bi_version = v,
        bi_timestamp_usecs = 1, bi_next_epoch_state = Some \<lparr>es_epoch = epoch + 1, es_verifier = sample_verifier\<rparr>\<rparr>,
      li_consensus_data_hash = 0\<rparr>"

definition sample_signed :: "u64 \<Rightarrow> version \<Rightarrow> ledger_info_with_signatures" where
  "sample_signed epoch v = \<lparr>lis_ledger_info = sample_ledger_info epoch v, lis_signatures = sample_signature\<rparr>"

definition sample_proof :: epoch_change_proof where
  "sample_proof = \<lparr>ecp_ledger_info_with_sigs = [sample_signed 0 3, sample_signed 1 7, sample_signed 2 9], ecp_more = False\<rparr>"

definition sample_waypoint :: waypoint where
  "sample_waypoint = \<lparr>wp_version = 7, wp_value = 7\<rparr>"

lemmas sample_ledger_simps = sample_ledger_info_def sample_signed_def li_epoch_def li_version_def
  li_next_epoch_state_def li_ends_epoch_def lis_verify_signatures_def sample_multi_signature

lemma sample_signed_verify:
  "epoch_state_verify sample_crypto \<lparr>es_epoch = e, es_verifier = sample_verifier\<rparr> (sample_signed e v) = Inr ()"
  by (simp add: epoch_state_verify_def into_anyhow_def sample_ledger_simps)

lemma sample_hash_waypoint: "hash_waypoint sample_crypto c = ucast (l2w_version c)"
  by (simp add: sample_crypto_def bls.defs)

lemma sample_proof_accepted:
  "ecp_verify sample_crypto (waypoint_verifier_verify sample_crypto sample_waypoint) (waypoint_stale sample_waypoint)
     sample_proof = Inr (sample_signed 2 9)"
proof -
  let ?v = "waypoint_verifier_verify sample_crypto sample_waypoint"
  have "?v (sample_signed 1 7) = Inr ()"
    by (simp add: waypoint_verifier_verify_def waypoint_verify_def converter_new_def sample_hash_waypoint
        sample_waypoint_def sample_ledger_simps)
  moreover have "li_next_epoch_state (lis_ledger_info (sample_signed 1 7)) =
      Some \<lparr>es_epoch = 2, es_verifier = sample_verifier\<rparr>"
    and "li_next_epoch_state (lis_ledger_info (sample_signed 2 9)) = Some \<lparr>es_epoch = 3, es_verifier = sample_verifier\<rparr>"
    by (simp_all add: sample_ledger_simps)
  ultimately have "verify_epochs sample_crypto ?v [sample_signed 1 7, sample_signed 2 9] = Inr ()"
    by (simp add: ok_or_def sample_signed_verify)
  then show ?thesis
    by (simp add: ecp_verify_def Let_def sample_proof_def waypoint_stale_def sample_waypoint_def)
       (simp add: sample_ledger_simps)
qed



end
