(* ===== verification/Consensus_Types.thy ===== *)
theory Consensus_Types
  imports Ledger
begin

text \<open>
  Operations of the consensus messages, consensus/consensus-types/src: vote data, quorum
  certificates, timeouts and timeout certificates, blocks, votes, vote proposals, sync infos,
  proposal and vote messages, payloads and batches. Every \<open>verify\<close> is the sequence of the checks of
  the source, in their order, with the message of the check that fails.

  \<open>mirai\<close>'s \<open>assume!\<close> and \<open>debug_checked_verify_eq!\<close> and the \<open>debug_assert\<close> macros do nothing in a
  release build and are left out. The clock that \<open>verify_well_formed\<close> reads is its argument \<open>now\<close>, in
  microseconds.
\<close>

section \<open>Vote data and quorum certificates\<close>

definition vote_data_verify :: "vote_data \<Rightarrow> unit anyhow" where
  "vote_data_verify vd =
     and_then (ensure (bi_epoch (vd_parent vd) = bi_epoch (vd_proposed vd))
       ''Parent and proposed epochs do not match'') (\<lambda>_.
     and_then (ensure (bi_round (vd_parent vd) < bi_round (vd_proposed vd))
       ''Proposed round is less than parent round'') (\<lambda>_.
     and_then (ensure (bi_timestamp_usecs (vd_parent vd) \<le> bi_timestamp_usecs (vd_proposed vd))
       ''Proposed happened before parent'') (\<lambda>_.
     ensure (bi_version (vd_proposed vd) = 0 \<or> bi_version (vd_parent vd) \<le> bi_version (vd_proposed vd))
       ''Proposed version is less than parent version'')))"

definition is_for_nil :: "vote_data \<Rightarrow> bool" where
  "is_for_nil vd \<longleftrightarrow> bi_timestamp_usecs (vd_proposed vd) = bi_timestamp_usecs (vd_parent vd)"

definition certified_block :: "quorum_cert \<Rightarrow> block_info" where
  "certified_block qc = vd_proposed (qc_vote_data qc)"

definition parent_block :: "quorum_cert \<Rightarrow> block_info" where
  "parent_block qc = vd_parent (qc_vote_data qc)"

definition qc_commit_info :: "quorum_cert \<Rightarrow> block_info" where
  "qc_commit_info qc = li_commit_info (lis_ledger_info (qc_signed_ledger_info qc))"

definition qc_ends_epoch :: "quorum_cert \<Rightarrow> bool" where
  "qc_ends_epoch qc \<longleftrightarrow> li_ends_epoch (lis_ledger_info (qc_signed_ledger_info qc))"

definition certificate_for_genesis_from_ledger_info ::
  "crypto \<Rightarrow> ledger_info \<Rightarrow> hash_value \<Rightarrow> ('e, quorum_cert) result" where
  "certificate_for_genesis_from_ledger_info cr li genesis_id =
     and_then (expect (checked_add (li_epoch li) 1)) (\<lambda>epoch.
     let ancestor = \<lparr>bi_epoch = epoch, bi_round = 0, bi_id = genesis_id,
                     bi_executed_state_id = transaction_accumulator_hash li, bi_version = li_version li,
                     bi_timestamp_usecs = bi_timestamp_usecs (li_commit_info li), bi_next_epoch_state = None\<rparr>;
         vd = \<lparr>vd_proposed = ancestor, vd_parent = ancestor\<rparr>
     in and_then (expect (li_next_epoch_state li)) (\<lambda>es.
        Inr \<lparr>qc_vote_data = vd,
             qc_signed_ledger_info =
               \<lparr>lis_ledger_info = \<lparr>li_commit_info = ancestor, li_consensus_data_hash = hash_vote_data cr vd\<rparr>,
                lis_signatures = \<lparr>validator_bitmask = with_num_bits (of_nat (verifier_len (es_verifier es))), agg_sig = None\<rparr>\<rparr>\<rparr>))"

definition qc_verify :: "crypto \<Rightarrow> quorum_cert \<Rightarrow> validator_verifier \<Rightarrow> unit anyhow" where
  "qc_verify cr qc v =
     and_then (ensure (li_consensus_data_hash (lis_ledger_info (qc_signed_ledger_info qc)) =
                       hash_vote_data cr (qc_vote_data qc))
       ''Quorum Cert's hash mismatch LedgerInfo'') (\<lambda>_.
     if bi_round (certified_block qc) = 0
     then
       and_then (ensure (parent_block qc = certified_block qc)
         ''Genesis QC has inconsistent parent block with certified block'') (\<lambda>_.
       and_then (ensure (certified_block qc = qc_commit_info qc)
         ''Genesis QC has inconsistent commit block with certified block'') (\<lambda>_.
       ensure (lis_get_num_voters (qc_signed_ledger_info qc) = 0) ''Genesis QC should not carry signatures''))
     else
       and_then (with_context ''Fail to verify QuorumCert'' (lis_verify_signatures cr (qc_signed_ledger_info qc) v)) (\<lambda>_.
       vote_data_verify (qc_vote_data qc)))"

definition create_merged_with_executed_state ::
  "quorum_cert \<Rightarrow> ledger_info_with_signatures \<Rightarrow> quorum_cert anyhow" where
  "create_merged_with_executed_state qc executed =
     and_then (ensure (match_ordered_only (qc_commit_info qc) (li_commit_info (lis_ledger_info executed)))
       ''Block info from QC and executed LI need to match'') (\<lambda>_.
     Inr \<lparr>qc_vote_data = qc_vote_data qc, qc_signed_ledger_info = executed\<rparr>)"

section \<open>Timeouts\<close>

definition hqc_round :: "two_chain_timeout \<Rightarrow> round" where
  "hqc_round t = bi_round (certified_block (to_quorum_cert t))"

definition signing_format :: "two_chain_timeout \<Rightarrow> timeout_signing_repr" where
  "signing_format t = \<lparr>tsr_epoch = to_epoch t, tsr_round = to_round t, tsr_hqc_round = hqc_round t\<rparr>"

definition timeout_verify :: "crypto \<Rightarrow> two_chain_timeout \<Rightarrow> validator_verifier \<Rightarrow> unit anyhow" where
  "timeout_verify cr t v =
     and_then (ensure (hqc_round t < to_round t) ''Timeout round should be larger than the QC round'') (\<lambda>_.
     qc_verify cr (to_quorum_cert t) v)"

definition asr_empty :: aggregate_signature_with_rounds where
  "asr_empty = \<lparr>asr_sig = aggregate_signature_empty, asr_rounds = []\<rparr>"

definition asr_new :: "aggregate_signature \<Rightarrow> round list \<Rightarrow> ('e, aggregate_signature_with_rounds) result" where
  "asr_new s rounds =
     and_then (assert_that (get_num_voters s = length rounds)) (\<lambda>_. Inr \<lparr>asr_sig = s, asr_rounds = rounds\<rparr>)"

definition get_voters_and_rounds ::
  "aggregate_signature_with_rounds \<Rightarrow> account_address list \<Rightarrow> (account_address \<times> round) list" where
  "get_voters_and_rounds s addresses = zip (get_signers_addresses (asr_sig s) addresses) (asr_rounds s)"

definition tc_new :: "two_chain_timeout \<Rightarrow> two_chain_timeout_certificate" where
  "tc_new t = \<lparr>tc_timeout = t, tc_signatures_with_rounds = asr_empty\<rparr>"

definition tc_epoch :: "two_chain_timeout_certificate \<Rightarrow> u64" where
  "tc_epoch tc = to_epoch (tc_timeout tc)"

definition tc_round :: "two_chain_timeout_certificate \<Rightarrow> round" where
  "tc_round tc = to_round (tc_timeout tc)"

definition highest_hqc_round :: "two_chain_timeout_certificate \<Rightarrow> round" where
  "highest_hqc_round tc = hqc_round (tc_timeout tc)"

text \<open>The messages whose signatures a timeout certificate aggregates: one for each voter, with the
  round that voter signed.\<close>

definition timeout_messages :: "two_chain_timeout_certificate \<Rightarrow> validator_verifier \<Rightarrow> timeout_signing_repr list" where
  "timeout_messages tc v =
     map (\<lambda>(_, round). \<lparr>tsr_epoch = tc_epoch tc, tsr_round = tc_round tc, tsr_hqc_round = round\<rparr>)
       (get_voters_and_rounds (tc_signatures_with_rounds tc) (get_ordered_account_addresses v))"

definition tc_verify :: "crypto \<Rightarrow> two_chain_timeout_certificate \<Rightarrow> validator_verifier \<Rightarrow> unit anyhow" where
  "tc_verify cr tc v =
     and_then (timeout_verify cr (tc_timeout tc) v) (\<lambda>_.
     and_then (into_anyhow (verify_aggregate_signatures cr v (map SignTimeout (timeout_messages tc v))
                 (asr_sig (tc_signatures_with_rounds tc)))) (\<lambda>_.
     let rounds = asr_rounds (tc_signatures_with_rounds tc) in
     and_then (assert_that (rounds \<noteq> [])) (\<lambda>_.
     ensure (hqc_round (tc_timeout tc) = Max (set rounds)) ''Inconsistent hqc round'')))"

definition ps_with_round_add ::
  "partial_signatures_with_round \<Rightarrow> account_address \<Rightarrow> round \<Rightarrow> bls_signature \<Rightarrow> partial_signatures_with_round" where
  "ps_with_round_add ps validator round signature = bt_entry validator (round, signature) ps"

text \<open>One step of the \<open>for_each\<close> of \<open>get_partial_sig_with_rounds\<close>.\<close>

definition collect_round ::
  "(account_address \<times> nat) list \<Rightarrow> account_address \<times> round \<times> bls_signature \<Rightarrow>
     partial_signatures \<times> (nat, round) btree \<Rightarrow> partial_signatures \<times> (nat, round) btree" where
  "collect_round index = (\<lambda>(address, round, sig) (partial, rounds).
     case map_of index address of
       Some i \<Rightarrow> (ps_add_signature partial address sig, bt_insert i round rounds)
     | None \<Rightarrow> (partial, rounds))"

definition get_partial_sig_with_rounds ::
  "partial_signatures_with_round \<Rightarrow> (account_address \<times> nat) list \<Rightarrow> partial_signatures \<times> round list" where
  "get_partial_sig_with_rounds ps index =
     (let (partial, rounds) = fold (collect_round index) ps ([], []) in (partial, map snd rounds))"

definition tp_new :: "two_chain_timeout \<Rightarrow> two_chain_timeout_with_partial_signatures" where
  "tp_new t = \<lparr>tp_timeout = t, tp_signatures = []\<rparr>"

definition tp_signers :: "two_chain_timeout_with_partial_signatures \<Rightarrow> author list" where
  "tp_signers tp = map fst (tp_signatures tp)"

definition tp_add ::
  "two_chain_timeout_with_partial_signatures \<Rightarrow> author \<Rightarrow> two_chain_timeout \<Rightarrow> bls_signature \<Rightarrow>
     two_chain_timeout_with_partial_signatures" where
  "tp_add tp author t signature =
     \<lparr>tp_timeout = (if hqc_round t > hqc_round (tp_timeout tp) then t else tp_timeout tp),
      tp_signatures = ps_with_round_add (tp_signatures tp) author (hqc_round t) signature\<rparr>"

definition tp_aggregate_signatures ::
  "crypto \<Rightarrow> two_chain_timeout_with_partial_signatures \<Rightarrow> validator_verifier \<Rightarrow>
     (verify_error, two_chain_timeout_certificate) result" where
  "tp_aggregate_signatures cr tp v =
     (let (partial, ordered_rounds) = get_partial_sig_with_rounds (tp_signatures tp) (address_to_validator_index v) in
      and_then (aggregate_signatures cr v partial) (\<lambda>aggregated.
      and_then (asr_new aggregated ordered_rounds) (\<lambda>asr.
      Inr \<lparr>tc_timeout = tp_timeout tp, tc_signatures_with_rounds = asr\<rparr>)))"

section \<open>Batches and payloads\<close>

definition batch_id_new :: "u64 \<Rightarrow> batch_id" where
  "batch_id_new nonce = \<lparr>batch_seq = 0, batch_nonce = nonce\<rparr>"

definition batch_id_increment :: "batch_id \<Rightarrow> ('e, batch_id) result" where
  "batch_id_increment b =
     and_then (expect (checked_add (batch_seq b) 1)) (\<lambda>i. Inr (b\<lparr>batch_seq := i\<rparr>))"

definition batch_id_less :: "batch_id \<Rightarrow> batch_id \<Rightarrow> bool" where
  "batch_id_less a b \<longleftrightarrow>
     batch_nonce a < batch_nonce b \<or> batch_nonce a = batch_nonce b \<and> batch_seq a < batch_seq b"

definition proof_of_store_verify :: "crypto \<Rightarrow> proof_of_store \<Rightarrow> validator_verifier \<Rightarrow> unit anyhow" where
  "proof_of_store_verify cr p v =
     with_context ''Failed to verify ProofOfStore''
       (verify_multi_signatures cr v (SignBatchInfo (pos_info p)) (pos_multi_signature p))"

fun proofs_verify :: "crypto \<Rightarrow> proof_of_store list \<Rightarrow> validator_verifier \<Rightarrow> unit anyhow" where
  "proofs_verify cr [] v = Inr ()"
| "proofs_verify cr (p # ps) v = and_then (proof_of_store_verify cr p v) (\<lambda>_. proofs_verify cr ps v)"

fun payload_len :: "payload \<Rightarrow> nat" where
  "payload_len (DirectMempool txns) = length txns"
| "payload_len (InQuorumStore proofs) = (\<Sum>p\<leftarrow>proofs. unat (ba_num_txns (pos_info p)))"

fun payload_is_empty :: "payload \<Rightarrow> bool" where
  "payload_is_empty (DirectMempool txns) = (txns = [])"
| "payload_is_empty (InQuorumStore proofs) = (proofs = [])"

fun payload_is_direct :: "payload \<Rightarrow> bool" where
  "payload_is_direct (DirectMempool _) = True"
| "payload_is_direct (InQuorumStore _) = False"

definition payload_empty :: "bool \<Rightarrow> payload" where
  "payload_empty quorum_store_enabled = (if quorum_store_enabled then InQuorumStore [] else DirectMempool [])"

fun payload_verify :: "crypto \<Rightarrow> payload \<Rightarrow> validator_verifier \<Rightarrow> bool \<Rightarrow> unit anyhow" where
  "payload_verify cr (DirectMempool _) v False = Inr ()"
| "payload_verify cr (InQuorumStore proofs) v True = proofs_verify cr proofs v"
| "payload_verify cr _ v _ = Inl (Err ''Wrong payload type.'')"

section \<open>Blocks\<close>

definition bd_author :: "block_data \<Rightarrow> author option" where
  "bd_author d = (case bd_block_type d of Proposal _ a _ \<Rightarrow> Some a | _ \<Rightarrow> None)"

definition bd_payload :: "block_data \<Rightarrow> payload option" where
  "bd_payload d = (case bd_block_type d of Proposal p _ _ \<Rightarrow> Some p | _ \<Rightarrow> None)"

definition bd_parent_id :: "block_data \<Rightarrow> hash_value" where
  "bd_parent_id d = bi_id (certified_block (bd_quorum_cert d))"

definition bd_is_genesis_block :: "block_data \<Rightarrow> bool" where
  "bd_is_genesis_block d \<longleftrightarrow> bd_block_type d = Genesis"

definition bd_is_nil_block :: "block_data \<Rightarrow> bool" where
  "bd_is_nil_block d = (case bd_block_type d of NilBlock _ \<Rightarrow> True | _ \<Rightarrow> False)"

definition bd_failed_authors :: "block_data \<Rightarrow> (round \<times> author) list option" where
  "bd_failed_authors d =
     (case bd_block_type d of Proposal _ _ fa \<Rightarrow> Some fa | NilBlock fa \<Rightarrow> Some fa | Genesis \<Rightarrow> None)"

definition bd_new_genesis :: "u64 \<Rightarrow> quorum_cert \<Rightarrow> ('e, block_data) result" where
  "bd_new_genesis timestamp qc =
     and_then (expect (checked_add (bi_epoch (certified_block qc)) 1)) (\<lambda>epoch.
     Inr \<lparr>bd_epoch = epoch, bd_round = 0, bd_timestamp_usecs = timestamp, bd_quorum_cert = qc, bd_block_type = Genesis\<rparr>)"

definition bd_new_genesis_from_ledger_info :: "ledger_info \<Rightarrow> ('e, block_data) result" where
  "bd_new_genesis_from_ledger_info li =
     and_then (assert_that (li_ends_epoch li)) (\<lambda>_.
     let timestamp = bi_timestamp_usecs (li_commit_info li);
         ancestor = \<lparr>bi_epoch = li_epoch li, bi_round = 0, bi_id = hash_zero,
                     bi_executed_state_id = transaction_accumulator_hash li, bi_version = li_version li,
                     bi_timestamp_usecs = timestamp, bi_next_epoch_state = None\<rparr>
     in bd_new_genesis timestamp
          \<lparr>qc_vote_data = \<lparr>vd_proposed = ancestor, vd_parent = ancestor\<rparr>,
           qc_signed_ledger_info =
             \<lparr>lis_ledger_info = \<lparr>li_commit_info = ancestor, li_consensus_data_hash = hash_zero\<rparr>,
              lis_signatures = aggregate_signature_empty\<rparr>\<rparr>)"

definition bd_new_nil :: "round \<Rightarrow> quorum_cert \<Rightarrow> (round \<times> author) list \<Rightarrow> block_data" where
  "bd_new_nil round qc failed_authors =
     \<lparr>bd_epoch = bi_epoch (certified_block qc), bd_round = round,
      bd_timestamp_usecs = bi_timestamp_usecs (certified_block qc), bd_quorum_cert = qc,
      bd_block_type = NilBlock failed_authors\<rparr>"

definition bd_new_proposal ::
  "payload \<Rightarrow> author \<Rightarrow> (round \<times> author) list \<Rightarrow> round \<Rightarrow> u64 \<Rightarrow> quorum_cert \<Rightarrow> block_data" where
  "bd_new_proposal p author failed_authors round timestamp qc =
     \<lparr>bd_epoch = bi_epoch (certified_block qc), bd_round = round, bd_timestamp_usecs = timestamp,
      bd_quorum_cert = qc, bd_block_type = Proposal p author failed_authors\<rparr>"

definition bd_new_for_dag ::
  "u64 \<Rightarrow> round \<Rightarrow> u64 \<Rightarrow> payload \<Rightarrow> author \<Rightarrow> (round \<times> author) list \<Rightarrow> block_data" where
  "bd_new_for_dag epoch round timestamp p author failed_authors =
     \<lparr>bd_epoch = epoch, bd_round = round, bd_timestamp_usecs = timestamp,
      bd_quorum_cert =
        \<lparr>qc_vote_data = \<lparr>vd_proposed = block_info_empty, vd_parent = block_info_empty\<rparr>,
         qc_signed_ledger_info =
           \<lparr>lis_ledger_info = \<lparr>li_commit_info = block_info_empty, li_consensus_data_hash = hash_zero\<rparr>,
            lis_signatures = aggregate_signature_empty\<rparr>\<rparr>,
      bd_block_type = Proposal p author failed_authors\<rparr>"

definition bd_is_reconfiguration_suffix :: "block_data \<Rightarrow> bool" where
  "bd_is_reconfiguration_suffix d \<longleftrightarrow> has_reconfiguration (certified_block (bd_quorum_cert d))"

definition b_quorum_cert :: "block \<Rightarrow> quorum_cert" where
  "b_quorum_cert b = bd_quorum_cert (b_block_data b)"

definition b_round :: "block \<Rightarrow> round" where
  "b_round b = bd_round (b_block_data b)"

definition b_epoch :: "block \<Rightarrow> u64" where
  "b_epoch b = bd_epoch (b_block_data b)"

definition b_timestamp_usecs :: "block \<Rightarrow> u64" where
  "b_timestamp_usecs b = bd_timestamp_usecs (b_block_data b)"

definition b_payload_size :: "block \<Rightarrow> nat" where
  "b_payload_size b =
     (case bd_payload (b_block_data b) of
        None \<Rightarrow> 0
      | Some (InQuorumStore proofs) \<Rightarrow> length proofs
      | Some (DirectMempool txns) \<Rightarrow> length txns)"

definition gen_block_info :: "block \<Rightarrow> hash_value \<Rightarrow> version \<Rightarrow> epoch_state option \<Rightarrow> block_info" where
  "gen_block_info b executed_state_id version next_epoch_state =
     \<lparr>bi_epoch = b_epoch b, bi_round = b_round b, bi_id = b_id b, bi_executed_state_id = executed_state_id,
      bi_version = version, bi_timestamp_usecs = b_timestamp_usecs b, bi_next_epoch_state = next_epoch_state\<rparr>"

definition make_genesis_block_from_ledger_info :: "crypto \<Rightarrow> ledger_info \<Rightarrow> ('e, block) result" where
  "make_genesis_block_from_ledger_info cr li =
     and_then (bd_new_genesis_from_ledger_info li) (\<lambda>d.
     Inr \<lparr>b_id = hash_block_data cr d, b_block_data = d, b_signature = None\<rparr>)"

definition block_new_nil :: "crypto \<Rightarrow> round \<Rightarrow> quorum_cert \<Rightarrow> (round \<times> author) list \<Rightarrow> block" where
  "block_new_nil cr round qc failed_authors =
     (let d = bd_new_nil round qc failed_authors
      in \<lparr>b_id = hash_block_data cr d, b_block_data = d, b_signature = None\<rparr>)"

definition new_proposal_from_block_data_and_signature :: "crypto \<Rightarrow> block_data \<Rightarrow> bls_signature \<Rightarrow> block" where
  "new_proposal_from_block_data_and_signature cr d s =
     \<lparr>b_id = hash_block_data cr d, b_block_data = d, b_signature = Some s\<rparr>"

text \<open>A \<open>ValidatorSigner\<close> is its author and private key.\<close>

record validator_signer =
  vs_author :: account_address
  vs_private_key :: private_key

definition signer_sign :: "crypto \<Rightarrow> validator_signer \<Rightarrow> signable \<Rightarrow> bls_signature option" where
  "signer_sign cr s m = bls_sign cr (vs_private_key s) m"

definition new_proposal_from_block_data :: "crypto \<Rightarrow> block_data \<Rightarrow> validator_signer \<Rightarrow> block anyhow" where
  "new_proposal_from_block_data cr d signer =
     and_then (ok_or (signer_sign cr signer (SignBlockData d)) ''Struct cannot be signed.'') (\<lambda>s.
     Inr (new_proposal_from_block_data_and_signature cr d s))"

definition block_new_proposal ::
  "crypto \<Rightarrow> payload \<Rightarrow> round \<Rightarrow> u64 \<Rightarrow> quorum_cert \<Rightarrow> validator_signer \<Rightarrow> (round \<times> author) list \<Rightarrow> block anyhow" where
  "block_new_proposal cr p round timestamp qc signer failed_authors =
     new_proposal_from_block_data cr (bd_new_proposal p (vs_author signer) failed_authors round timestamp qc) signer"

definition validate_signature :: "crypto \<Rightarrow> block \<Rightarrow> validator_verifier \<Rightarrow> unit anyhow" where
  "validate_signature cr b v =
     (case bd_block_type (b_block_data b) of
        Genesis \<Rightarrow> Inl (Err ''We should not accept genesis from others'')
      | NilBlock _ \<Rightarrow> qc_verify cr (b_quorum_cert b) v
      | Proposal _ author _ \<Rightarrow>
          and_then (ok_or (b_signature b) ''Missing signature in Proposal'') (\<lambda>s.
          and_then (into_anyhow (verifier_verify cr v author (SignBlockData (b_block_data b)) s)) (\<lambda>_.
          qc_verify cr (b_quorum_cert b) v)))"

fun failed_rounds_ok :: "round \<Rightarrow> round \<Rightarrow> (round \<times> author) list \<Rightarrow> unit anyhow" where
  "failed_rounds_ok bound succ_round [] = Inr ()"
| "failed_rounds_ok bound succ_round ((round, a) # rest) =
     and_then (ensure (bound < round \<and> round < succ_round) ''Incorrect round in failed authors'') (\<lambda>_.
     failed_rounds_ok round succ_round rest)"

definition TIMEBOUND :: u64 where "TIMEBOUND = 300000000"

definition check_failed_authors :: "block \<Rightarrow> unit anyhow" where
  "check_failed_authors b =
     (let parent = certified_block (b_quorum_cert b) in
      case bd_failed_authors (b_block_data b) of
        None \<Rightarrow> Inr ()
      | Some failed_authors \<Rightarrow>
          and_then (expect (checked_add (b_round b) (if bd_is_nil_block (b_block_data b) then 1 else 0))) (\<lambda>succ_round.
          and_then (expect (checked_add (bi_round parent) 1)) (\<lambda>next_parent.
          and_then (ok_or (checked_sub succ_round next_parent) ''Block round is smaller than block's parent round'') (\<lambda>skipped.
          and_then (ensure (length failed_authors \<le> unat skipped) ''Block has more failed authors than missed rounds'') (\<lambda>_.
          failed_rounds_ok (bi_round parent) succ_round failed_authors)))))"

definition verify_well_formed :: "u64 \<Rightarrow> block \<Rightarrow> unit anyhow" where
  "verify_well_formed now b =
     (let parent = certified_block (b_quorum_cert b) in
      and_then (ensure (\<not> bd_is_genesis_block (b_block_data b)) ''We must not accept genesis from others'') (\<lambda>_.
      and_then (ensure (bi_round parent < b_round b) ''Block must have a greater round than parent's block'') (\<lambda>_.
      and_then (ensure (bi_epoch parent = b_epoch b) ''block's parent should be in the same epoch'') (\<lambda>_.
      and_then
        (if has_reconfiguration parent
         then ensure (case bd_payload (b_block_data b) of None \<Rightarrow> True | Some p \<Rightarrow> payload_is_empty p)
                ''Reconfiguration suffix should not carry payload''
         else Inr ()) (\<lambda>_.
      and_then (check_failed_authors b) (\<lambda>_.
      and_then
        (if bd_is_nil_block (b_block_data b) \<or> has_reconfiguration parent
         then ensure (b_timestamp_usecs b = bi_timestamp_usecs parent)
                ''Nil/reconfig suffix block must have same timestamp as parent''
         else
           and_then (ensure (b_timestamp_usecs b > bi_timestamp_usecs parent)
             ''Blocks must have strictly increasing timestamps'') (\<lambda>_.
           ensure (b_timestamp_usecs b \<le> saturating_add now TIMEBOUND)
             ''Blocks must not be too far in the future'')) (\<lambda>_.
      ensure (\<not> qc_ends_epoch (b_quorum_cert b)) ''Block cannot be proposed in an epoch that has ended'')))))))"

fun position :: "'a \<Rightarrow> 'a list \<Rightarrow> nat option" where
  "position x [] = None"
| "position x (y # ys) = (if y = x then Some 0 else map_option Suc (position x ys))"

fun failed_authors_to_indices :: "account_address list \<Rightarrow> (round \<times> author) list \<Rightarrow> ('e, u32 list) result" where
  "failed_authors_to_indices validators [] = Inr []"
| "failed_authors_to_indices validators ((_, failed_author) # rest) =
     and_then (expect (position failed_author validators)) (\<lambda>i.
     and_then (assert_that (i < 2 ^ 32)) (\<lambda>_.
     and_then (failed_authors_to_indices validators rest) (\<lambda>is.
     Inr (of_nat i # is))))"

section \<open>Votes\<close>

definition vote_new_with_signature :: "vote_data \<Rightarrow> author \<Rightarrow> ledger_info \<Rightarrow> bls_signature \<Rightarrow> vote" where
  "vote_new_with_signature vd author li s =
     \<lparr>v_vote_data = vd, v_author = author, v_ledger_info = li, v_signature = s, v_two_chain_timeout = None\<rparr>"

definition vote_new :: "crypto \<Rightarrow> vote_data \<Rightarrow> author \<Rightarrow> ledger_info \<Rightarrow> validator_signer \<Rightarrow> (string, vote) result" where
  "vote_new cr vd author li signer =
     (let li' = set_consensus_data_hash li (hash_vote_data cr vd) in
      and_then (ok_or (signer_sign cr signer (SignLedgerInfo li')) ''Struct cannot be signed.'') (\<lambda>s.
      Inr (vote_new_with_signature vd author li' s)))"

definition add_2chain_timeout :: "vote \<Rightarrow> two_chain_timeout \<Rightarrow> bls_signature \<Rightarrow> vote" where
  "add_2chain_timeout v t s = v\<lparr>v_two_chain_timeout := Some (t, s)\<rparr>"

definition vote_round :: "vote \<Rightarrow> round" where
  "vote_round v = bi_round (vd_proposed (v_vote_data v))"

definition vote_epoch :: "vote \<Rightarrow> u64" where
  "vote_epoch v = bi_epoch (vd_proposed (v_vote_data v))"

definition generate_2chain_timeout :: "vote \<Rightarrow> quorum_cert \<Rightarrow> two_chain_timeout" where
  "generate_2chain_timeout v qc = \<lparr>to_epoch = vote_epoch v, to_round = vote_round v, to_quorum_cert = qc\<rparr>"

definition vote_is_timeout :: "vote \<Rightarrow> bool" where
  "vote_is_timeout v \<longleftrightarrow> v_two_chain_timeout v \<noteq> None"

definition vote_verify :: "crypto \<Rightarrow> vote \<Rightarrow> validator_verifier \<Rightarrow> unit anyhow" where
  "vote_verify cr v verifier =
     and_then (ensure (li_consensus_data_hash (v_ledger_info v) = hash_vote_data cr (v_vote_data v))
       ''Vote's hash mismatch with LedgerInfo'') (\<lambda>_.
     and_then (with_context ''Failed to verify Vote''
       (verifier_verify cr verifier (v_author v) (SignLedgerInfo (v_ledger_info v)) (v_signature v))) (\<lambda>_.
     and_then
       (case v_two_chain_timeout v of
          None \<Rightarrow> Inr ()
        | Some (timeout, signature) \<Rightarrow>
            and_then (ensure ((to_epoch timeout, to_round timeout) = (vote_epoch v, vote_round v))
              ''2-chain timeout has different (epoch, round) than Vote'') (\<lambda>_.
            and_then (timeout_verify cr timeout verifier) (\<lambda>_.
            with_context ''Failed to verify 2-chain timeout signature''
              (verifier_verify cr verifier (v_author v) (SignTimeout (signing_format timeout)) signature)))) (\<lambda>_.
     vote_data_verify (v_vote_data v))))"

section \<open>Vote proposals\<close>

definition vote_data_ordering_only :: "vote_proposal \<Rightarrow> vote_data" where
  "vote_data_ordering_only p =
     \<lparr>vd_proposed = gen_block_info (vp_block p) ACCUMULATOR_PLACEHOLDER_HASH 0 (vp_next_epoch_state p),
      vd_parent = certified_block (b_quorum_cert (vp_block p))\<rparr>"

definition vote_data_with_extension_proof :: "vote_proposal \<Rightarrow> accumulator \<Rightarrow> vote_data" where
  "vote_data_with_extension_proof p new_tree =
     \<lparr>vd_proposed = gen_block_info (vp_block p) (root_hash new_tree) (acc_version new_tree) (vp_next_epoch_state p),
      vd_parent = certified_block (b_quorum_cert (vp_block p))\<rparr>"

definition gen_vote_data :: "crypto \<Rightarrow> vote_proposal \<Rightarrow> vote_data anyhow" where
  "gen_vote_data cr p =
     (if vp_decoupled_execution p then Inr (vote_data_ordering_only p)
      else and_then (extension_proof_verify (hash_txn_node cr) (vp_accumulator_extension_proof p)
                       (bi_executed_state_id (certified_block (b_quorum_cert (vp_block p))))) (\<lambda>new_tree.
           Inr (vote_data_with_extension_proof p new_tree)))"

section \<open>Sync infos and messages\<close>

definition sync_info_new_decoupled ::
  "quorum_cert \<Rightarrow> quorum_cert \<Rightarrow> quorum_cert \<Rightarrow> two_chain_timeout_certificate option \<Rightarrow> sync_info" where
  "sync_info_new_decoupled hqc hoc hcc htc =
     \<lparr>si_highest_quorum_cert = hqc,
      si_highest_ordered_cert = (if hoc \<noteq> hqc then Some hoc else None),
      si_highest_commit_cert = hcc,
      si_highest_2chain_timeout_cert =
        (case htc of
           None \<Rightarrow> None
         | Some tc \<Rightarrow> if tc_round tc > bi_round (certified_block hqc) then Some tc else None)\<rparr>"

definition sync_info_new ::
  "quorum_cert \<Rightarrow> quorum_cert \<Rightarrow> two_chain_timeout_certificate option \<Rightarrow> sync_info" where
  "sync_info_new hqc hoc htc = sync_info_new_decoupled hqc hoc hoc htc"

definition highest_ordered_cert :: "sync_info \<Rightarrow> quorum_cert" where
  "highest_ordered_cert si =
     (case si_highest_ordered_cert si of None \<Rightarrow> si_highest_quorum_cert si | Some qc \<Rightarrow> qc)"

definition highest_certified_round :: "sync_info \<Rightarrow> round" where
  "highest_certified_round si = bi_round (certified_block (si_highest_quorum_cert si))"

definition highest_timeout_round :: "sync_info \<Rightarrow> round" where
  "highest_timeout_round si =
     (case si_highest_2chain_timeout_cert si of None \<Rightarrow> 0 | Some tc \<Rightarrow> tc_round tc)"

definition highest_ordered_round :: "sync_info \<Rightarrow> round" where
  "highest_ordered_round si = bi_round (qc_commit_info (highest_ordered_cert si))"

definition highest_commit_round :: "sync_info \<Rightarrow> round" where
  "highest_commit_round si = bi_round (qc_commit_info (si_highest_commit_cert si))"

definition highest_round :: "sync_info \<Rightarrow> round" where
  "highest_round si = max (highest_certified_round si) (highest_timeout_round si)"

definition si_epoch :: "sync_info \<Rightarrow> u64" where
  "si_epoch si = bi_epoch (certified_block (si_highest_quorum_cert si))"

definition has_newer_certificates :: "sync_info \<Rightarrow> sync_info \<Rightarrow> bool" where
  "has_newer_certificates si other \<longleftrightarrow>
     highest_certified_round si > highest_certified_round other \<or>
     highest_timeout_round si > highest_timeout_round other \<or>
     highest_ordered_round si > highest_ordered_round other \<or>
     highest_commit_round si > highest_commit_round other"

definition sync_info_verify :: "crypto \<Rightarrow> sync_info \<Rightarrow> validator_verifier \<Rightarrow> unit anyhow" where
  "sync_info_verify cr si v =
     (let epoch = bi_epoch (certified_block (si_highest_quorum_cert si)) in
      and_then (ensure (epoch = bi_epoch (certified_block (highest_ordered_cert si)))
        ''Multi epoch in SyncInfo - HOC and HQC'') (\<lambda>_.
      and_then (ensure (epoch = bi_epoch (qc_commit_info (si_highest_commit_cert si)))
        ''Multi epoch in SyncInfo - HOC and HCC'') (\<lambda>_.
      and_then
        (case si_highest_2chain_timeout_cert si of
           None \<Rightarrow> Inr ()
         | Some tc \<Rightarrow> ensure (epoch = tc_epoch tc) ''Multi epoch in SyncInfo - TC and HQC'') (\<lambda>_.
      and_then (ensure (highest_certified_round si \<ge> bi_round (certified_block (highest_ordered_cert si)))
        ''HQC has lower round than HOC'') (\<lambda>_.
      and_then (ensure (bi_round (certified_block (highest_ordered_cert si)) \<ge> highest_commit_round si)
        ''HOC has lower round than HLI'') (\<lambda>_.
      and_then (ensure (qc_commit_info (highest_ordered_cert si) \<noteq> block_info_empty) ''HOC has no committed block'') (\<lambda>_.
      and_then (ensure (qc_commit_info (si_highest_commit_cert si) \<noteq> block_info_empty) ''HLI has empty commit info'') (\<lambda>_.
      with_context ''Fail to verify SyncInfo''
        (and_then (qc_verify cr (si_highest_quorum_cert si) v) (\<lambda>_.
         and_then (case si_highest_ordered_cert si of None \<Rightarrow> Inr () | Some qc \<Rightarrow> qc_verify cr qc v) (\<lambda>_.
         and_then
           (if highest_commit_round si > 0 then qc_verify cr (si_highest_commit_cert si) v else Inr ()) (\<lambda>_.
         case si_highest_2chain_timeout_cert si of None \<Rightarrow> Inr () | Some tc \<Rightarrow> tc_verify cr tc v))))))))))))"

record proposal_msg =
  pm_proposal :: block
  pm_sync_info :: sync_info

definition proposal_msg_verify_well_formed :: "u64 \<Rightarrow> proposal_msg \<Rightarrow> unit anyhow" where
  "proposal_msg_verify_well_formed now m =
     (let b = pm_proposal m; si = pm_sync_info m in
      and_then (ensure (\<not> bd_is_nil_block (b_block_data b)) ''Proposal for a NIL block'') (\<lambda>_.
      and_then (with_context ''Fail to verify ProposalMsg's block'' (verify_well_formed now b)) (\<lambda>_.
      and_then (ensure (b_round b > 0) ''Proposal has an incorrect round of 0'') (\<lambda>_.
      and_then (ensure (b_epoch b = si_epoch si) ''ProposalMsg has different epoch number from SyncInfo'') (\<lambda>_.
      and_then (ensure (bd_parent_id (b_block_data b) = bi_id (certified_block (si_highest_quorum_cert si)))
        ''Proposal HQC in SyncInfo does not certify the block parent'') (\<lambda>_.
      and_then (ok_or (checked_sub (b_round b) 1) ''proposal round overflowed!'') (\<lambda>previous_round.
      and_then (ensure (previous_round = max (bi_round (certified_block (b_quorum_cert b))) (highest_timeout_round si))
        ''Proposal does not have a certified round'') (\<lambda>_.
      ensure (bd_author (b_block_data b) \<noteq> None) ''Proposal does not define an author''))))))))"

definition proposal_msg_verify :: "crypto \<Rightarrow> u64 \<Rightarrow> proposal_msg \<Rightarrow> validator_verifier \<Rightarrow> bool \<Rightarrow> unit anyhow" where
  "proposal_msg_verify cr now m v quorum_store_enabled =
     and_then
       (case bd_payload (b_block_data (pm_proposal m)) of
          None \<Rightarrow> Inr ()
        | Some p \<Rightarrow> payload_verify cr p v quorum_store_enabled) (\<lambda>_.
     and_then (validate_signature cr (pm_proposal m) v) (\<lambda>_.
     and_then
       (case si_highest_2chain_timeout_cert (pm_sync_info m) of
          None \<Rightarrow> Inr ()
        | Some tc \<Rightarrow> tc_verify cr tc v) (\<lambda>_.
     proposal_msg_verify_well_formed now m)))"

record vote_msg =
  vm_vote :: vote
  vm_sync_info :: sync_info

definition vote_msg_verify :: "crypto \<Rightarrow> vote_msg \<Rightarrow> validator_verifier \<Rightarrow> unit anyhow" where
  "vote_msg_verify cr m v =
     and_then (ensure (vote_epoch (vm_vote m) = si_epoch (vm_sync_info m)) ''VoteMsg has different epoch'') (\<lambda>_.
     and_then (ensure (vote_round (vm_vote m) > highest_round (vm_sync_info m))
       ''Vote Round should be higher than SyncInfo'') (\<lambda>_.
     and_then
       (case v_two_chain_timeout (vm_vote m) of
          None \<Rightarrow> Inr ()
        | Some (timeout, _) \<Rightarrow>
            ensure (hqc_round timeout \<le> highest_certified_round (vm_sync_info m))
              ''2-chain Timeout hqc should be less or equal than the sync info hqc'') (\<lambda>_.
     vote_verify cr (vm_vote m) v)))"

section \<open>Sample data\<close>

text \<open>The certificates of a chain of blocks in consecutive rounds.\<close>

definition before :: "round \<Rightarrow> round" where
  "before r = (if r = 0 then 0 else r - 1)"

definition sample_info :: "round \<Rightarrow> block_info" where
  "sample_info r = \<lparr>bi_epoch = 1, bi_round = r, bi_id = ucast r, bi_executed_state_id = ACCUMULATOR_PLACEHOLDER_HASH,
     bi_version = 0, bi_timestamp_usecs = r, bi_next_epoch_state = None\<rparr>"

definition sample_vote_data :: "round \<Rightarrow> vote_data" where
  "sample_vote_data r = \<lparr>vd_proposed = sample_info r, vd_parent = sample_info (before r)\<rparr>"

definition sample_vote_info :: "round \<Rightarrow> ledger_info" where
  "sample_vote_info r = \<lparr>li_commit_info = sample_info (before r), li_consensus_data_hash = ucast r + 1\<rparr>"

definition sample_qc :: "round \<Rightarrow> quorum_cert" where
  "sample_qc r = \<lparr>qc_vote_data = sample_vote_data r,
     qc_signed_ledger_info = \<lparr>lis_ledger_info = sample_vote_info r,
       lis_signatures = (if r = 0 then aggregate_signature_empty else sample_signature)\<rparr>\<rparr>"

definition sample_block :: "round \<Rightarrow> block" where
  "sample_block r = new_proposal_from_block_data_and_signature sample_crypto
     (bd_new_proposal (DirectMempool []) 1 [] r r (sample_qc (before r))) 1"

lemma sample_crypto_fields:
  "hash_vote_data sample_crypto vd = ucast (bi_round (vd_proposed vd)) + 1"
  "hash_block_data sample_crypto bd = ucast (bd_round bd)"
  "bls_sign sample_crypto k m = Some (ucast k)"
  "verify_struct_signature sample_crypto pk m sig \<longleftrightarrow> sig = ucast pk"
  by (simp_all add: sample_crypto_def bls.defs sample_bls_def)

lemma sample_info_fields [simp]:
  "bi_epoch (sample_info r) = 1" "bi_round (sample_info r) = r" "bi_timestamp_usecs (sample_info r) = r"
  "bi_next_epoch_state (sample_info r) = None"
  by (simp_all add: sample_info_def)

lemma sample_qc_fields [simp]:
  "certified_block (sample_qc r) = sample_info r" "parent_block (sample_qc r) = sample_info (before r)"
  "qc_vote_data (sample_qc r) = sample_vote_data r"
  "lis_ledger_info (qc_signed_ledger_info (sample_qc r)) = sample_vote_info r"
  by (simp_all add: sample_qc_def certified_block_def parent_block_def sample_vote_data_def)

lemma before_less: "r \<noteq> 0 \<Longrightarrow> before r < r"
  by (simp add: before_def word_less_nat_alt unat_sub word_le_nat_alt unat_gt_0 Suc_leI)

lemma sample_block_fields [simp]:
  "b_round (sample_block r) = r" "b_epoch (sample_block r) = 1" "b_timestamp_usecs (sample_block r) = r"
  "b_quorum_cert (sample_block r) = sample_qc (before r)" "b_id (sample_block r) = ucast r"
  "b_block_data (sample_block r) = bd_new_proposal (DirectMempool []) 1 [] r r (sample_qc (before r))"
  "b_signature (sample_block r) = Some 1"
  by (simp_all add: sample_block_def new_proposal_from_block_data_and_signature_def b_round_def b_epoch_def
      b_timestamp_usecs_def b_quorum_cert_def bd_new_proposal_def sample_crypto_fields)

lemma checked_before:
  assumes "r \<noteq> 0"
  shows "checked_add (before r) 1 = Some r"
proof -
  from assms have "unat (r - 1) = unat r - 1" "0 < unat r" by (simp_all add: unat_sub word_le_nat_alt unat_gt_0 Suc_leI)
  then show ?thesis using assms by (simp add: word_to_nat before_def)
qed

lemma sample_empty_voters: "get_num_voters aggregate_signature_empty = 0"
  by code_simp

lemma sample_qc_verify [simp]: "qc_verify sample_crypto (sample_qc r) sample_verifier = Inr ()"
proof (cases "r = 0")
  case True
  then show ?thesis
    by (simp add: qc_verify_def sample_crypto_fields sample_vote_info_def sample_vote_data_def qc_commit_info_def before_def
        lis_get_num_voters_def sample_qc_def [of 0] sample_empty_voters certified_block_def parent_block_def)
next
  case False
  then have "lis_signatures (qc_signed_ledger_info (sample_qc r)) = sample_signature" by (simp add: sample_qc_def)
  with False show ?thesis
    using before_less [OF False]
    by (simp add: qc_verify_def sample_crypto_fields sample_vote_info_def sample_vote_data_def with_context_def
        lis_verify_signatures_def sample_multi_signature vote_data_verify_def less_imp_le sample_info_def)
qed

lemma sample_public_key: "get_public_key sample_verifier 1 = Some 1"
  by (simp add: get_public_key_def sample_verifier_def sample_infos_def build_index_def)

lemma sample_validate_signature: "validate_signature sample_crypto (sample_block r) sample_verifier = Inr ()"
  by (simp add: validate_signature_def bd_new_proposal_def ok_or_def into_anyhow_def verifier_verify_def
      sample_crypto_fields sample_public_key)

lemma sample_well_formed:
  assumes "r \<noteq> 0" and "r \<le> 300000000"
  shows "verify_well_formed 0 (sample_block r) = Inr ()"
proof -
  note next_r = checked_before [OF assms(1)]
  have add_0: "checked_add r 0 = Some r" and sub_r: "checked_sub r r = Some 0"
    and bound: "saturating_add 0 TIMEBOUND = 300000000"
    using unsigned_less [of r] by (simp_all add: checked_add_def checked_sub_def saturating_add_def TIMEBOUND_def)
  have "check_failed_authors (sample_block r) = Inr ()"
    using before_less [OF assms(1)]
    by (simp add: check_failed_authors_def Let_def bd_failed_authors_def bd_is_nil_block_def bd_new_proposal_def
        add_0 next_r sub_r expect_def ok_or_def)
  with before_less [OF assms(1)] assms bound show ?thesis
    by (simp add: verify_well_formed_def Let_def bd_is_genesis_block_def bd_is_nil_block_def bd_new_proposal_def
        has_reconfiguration_def qc_ends_epoch_def li_ends_epoch_def sample_vote_info_def li_next_epoch_state_def)
qed

section \<open>Timeout certificates\<close>

lemma count_ones_length: "bv_wf bv \<Longrightarrow> count_ones bv = length (iter_ones bv)"
  by (simp add: iter_ones_eq count_bytes count_ones_def)

lemma filter_enumerate:
  "map snd (filter (\<lambda>(i, x). P i) (enumerate 0 xs)) = map ((!) xs) (filter P [0..<length xs])"
proof -
  have "enumerate 0 xs = map (\<lambda>i. (i, xs ! i)) [0..<length xs]"
    by (rule nth_equalityI) (simp_all add: nth_enumerate_eq)
  then show ?thesis by (simp add: filter_map comp_def)
qed

lemma get_signers_addresses_eq:
  assumes bw: "bv_wf (validator_bitmask s)" and n: "length (validator_infos v) < 65536"
    and range: "\<And>q. bit_at (inner (validator_bitmask s)) q \<Longrightarrow> q < length (validator_infos v)"
  shows "get_signers_addresses s (get_ordered_account_addresses v) = signers v s"
proof -
  let ?bits = "bit_at (inner (validator_bitmask s))" and ?n = "length (validator_infos v)"
  have "filter (\<lambda>i. bv_is_set (validator_bitmask s) (of_nat i)) [0..<?n] = filter ?bits [0..<?n]"
    by (rule filter_cong) (use n in \<open>auto simp: bv_is_set_iff unat_of_nat_u16\<close>)
  also have "\<dots> = iter_ones (validator_bitmask s)"
  proof (rule sorted_distinct_set_unique)
    show "sorted (filter ?bits [0..<?n])" "distinct (filter ?bits [0..<?n])" by (simp_all add: sorted_wrt_filter)
    show "set (filter ?bits [0..<?n]) = set (iter_ones (validator_bitmask s))"
      using range by (auto simp: set_iter_ones [OF bw])
  qed (simp_all add: sorted_iter_ones distinct_iter_ones)
  finally have "filter (\<lambda>i. bv_is_set (validator_bitmask s) (of_nat i)) [0..<?n] = iter_ones (validator_bitmask s)" .
  then show ?thesis
    using range
    by (simp add: get_signers_addresses_def get_ordered_account_addresses_def signers_def filter_enumerate set_iter_ones [OF bw])
qed

text \<open>The rounds are collected in the order of the indices of their signers.\<close>

lemma collect_round_fold:
  assumes wf: "verifier_wf v" and sub: "fst ` set ps \<subseteq> validator_set v"
  shows "bt_wf ps \<Longrightarrow> fold (collect_round (address_to_validator_index v)) ps (partial, rounds) = (partial', rounds') \<Longrightarrow>
    (\<forall>e\<in>set ps. fst e \<notin> fst ` set partial) \<Longrightarrow>
    bt_wf rounds \<Longrightarrow> bt_wf rounds' \<and> fst ` set partial' = fst ` set partial \<union> fst ` set ps \<and>
      map_of rounds' = map_of rounds ++ (\<lambda>i. if i < length (validator_infos v)
        then map_option fst (map_of ps (vci_address (validator_infos v ! i))) else None)"
  using sub
proof (induction ps arbitrary: partial rounds)
  case Nil
  then show ?case by (simp add: map_add_def cong: if_cong)
next
  case (Cons e rest)
  obtain a r sig where e: "e = (a, r, sig)" by (cases e)
  have "a \<in> validator_set v" using Cons.prems(5) e by simp
  then obtain i where i: "map_of (address_to_validator_index v) a = Some i" "i < length (validator_infos v)"
    "vci_address (validator_infos v ! i) = a"
    using verifier_wf_index [OF wf] by (fastforce simp: validator_set_def in_set_conv_nth)
  have uniq: "vci_address (validator_infos v ! j) = a \<longleftrightarrow> j = i" if "j < length (validator_infos v)" for j
    using that i wf by (auto simp: verifier_wf_def distinct_conv_nth)
  let ?p = "ps_add_signature partial a sig"
  have notin: "a \<notin> fst ` set rest" using Cons.prems(1) e by (auto simp: bt_wf_def)
  have keys: "fst ` set ?p = insert a (fst ` set partial)" by (simp add: ps_add_signature_def keys_bt_entry)
  from Cons.prems(2) e i have f: "fold (collect_round (address_to_validator_index v)) rest (?p, bt_insert i r rounds) = (partial', rounds')"
    by (simp add: collect_round_def)
  have rest: "bt_wf rest" "\<forall>x\<in>set rest. fst x \<notin> fst ` set ?p" "fst ` set rest \<subseteq> validator_set v" "bt_wf (bt_insert i r rounds)"
    using Cons.prems e notin keys by (auto simp: bt_wf_def image_iff intro: bt_wf_insert [unfolded bt_wf_def])
  have fold_rest: "bt_wf rounds'" "fst ` set partial' = fst ` set ?p \<union> fst ` set rest"
    "map_of rounds' = map_of (bt_insert i r rounds) ++ (\<lambda>i. if i < length (validator_infos v)
        then map_option fst (map_of rest (vci_address (validator_infos v ! i))) else None)"
    using Cons.IH [OF rest(1) f rest(2) rest(4) rest(3)] by auto
  have none: "map_of rest a = None" using notin by (simp add: map_of_eq_None_iff)
  let ?round_of = "\<lambda>ps j. if j < length (validator_infos v)
        then map_option fst (map_of ps (vci_address (validator_infos v ! j))) else None"
  have "(map_of (bt_insert i r rounds) ++ ?round_of rest) j = (map_of rounds ++ ?round_of (e # rest)) j" for j
  proof (cases "j = i")
    case True
    then show ?thesis using i none e by (simp add: map_of_bt_insert map_add_def)
  next
    case False
    then have "?round_of (e # rest) j = ?round_of rest j" using uniq [of j] e by simp
    with False show ?thesis by (auto simp: map_of_bt_insert map_add_def split: option.splits)
  qed
  then have "map_of rounds' = map_of rounds ++ ?round_of (e # rest)" using fold_rest(3) by (simp add: fun_eq_iff)
  moreover have "fst ` set partial' = fst ` set partial \<union> fst ` set (e # rest)" using fold_rest(2) keys e by simp
  ultimately show ?case using fold_rest(1) by blast
qed

lemma get_partial_sig_with_rounds_ok:
  assumes wf: "verifier_wf v" and bt: "bt_wf ps" and sub: "fst ` set ps \<subseteq> validator_set v"
    and g: "get_partial_sig_with_rounds ps (address_to_validator_index v) = (partial, rounds)"
    and n: "length (validator_infos v) < 65536" and agg: "aggregate_signatures cr v partial = Inr s"
  shows "length rounds = get_num_voters s" "length rounds = length (signers v s)"
    and "set (zip (signers v s) rounds) = {(a, r). \<exists>sig. (a, r, sig) \<in> set ps}"
proof -
  obtain rs where f: "fold (collect_round (address_to_validator_index v)) ps ([], []) = (partial, rs)" "rounds = map snd rs"
    using g by (auto simp: get_partial_sig_with_rounds_def Let_def split: prod.splits)
  let ?round_of = "\<lambda>j. if j < length (validator_infos v)
        then map_option fst (map_of ps (vci_address (validator_infos v ! j))) else None"
  have rs: "bt_wf rs" "fst ` set partial = fst ` set ps" "map_of rs = ?round_of"
    using collect_round_fold [OF wf sub bt f(1)] by (simp_all add: bt_wf_def)
  note mask = aggregate_signatures_mask [OF wf n agg]
  have bw: "bv_wf (validator_bitmask s)" using mask(1) by (rule required_buckets_wf)
  have "set (map fst rs) = dom (map_of rs)" by (simp add: dom_map_of_conv_image_fst)
  also have "\<dots> = set (iter_ones (validator_bitmask s))"
  proof -
    have "?round_of j = None \<longleftrightarrow> \<not> bit_at (inner (validator_bitmask s)) j" for j
      using mask(3) [of j] by (simp add: map_of_eq_None_iff rs(2))
    then show ?thesis unfolding rs(3) set_iter_ones [OF bw] dom_def by (simp only: not_not)
  qed
  finally have keys: "map fst rs = iter_ones (validator_bitmask s)"
    using rs(1) sorted_iter_ones distinct_iter_ones
    by (intro sorted_distinct_set_unique) (auto simp: bt_wf_def strict_sorted_iff)
  then have len: "length rs = length (iter_ones (validator_bitmask s))" by (metis length_map)
  show "length rounds = get_num_voters s" "length rounds = length (signers v s)"
    using len f(2) by (simp_all add: get_num_voters_def count_ones_length [OF bw] signers_def)
  have "zip (signers v s) rounds = map (\<lambda>(j, r). (vci_address (validator_infos v ! j), r)) rs"
    unfolding signers_def keys [symmetric] f(2) by (simp add: zip_map_map zip_map_fst_snd case_prod_unfold zip_same_conv_map)
  then have "(a, r) \<in> set (zip (signers v s) rounds) \<longleftrightarrow>
      (\<exists>j. vci_address (validator_infos v ! j) = a \<and> map_of rs j = Some r)" for a r
    unfolding map_of_eq_Some_iff [OF bt_wf_distinct [OF rs(1)]] by force
  also have "(\<exists>j. vci_address (validator_infos v ! j) = a \<and> map_of rs j = Some r) \<longleftrightarrow> (\<exists>sig. map_of ps a = Some (r, sig))" for a r
  proof
    assume "\<exists>j. vci_address (validator_infos v ! j) = a \<and> map_of rs j = Some r"
    then show "\<exists>sig. map_of ps a = Some (r, sig)" unfolding rs(3) by (auto split: if_splits)
  next
    assume "\<exists>sig. map_of ps a = Some (r, sig)"
    then obtain sig where m: "map_of ps a = Some (r, sig)" by blast
    then have "a \<in> validator_set v" using sub map_of_SomeD [OF m] by force
    then obtain j where "j < length (validator_infos v)" "vci_address (validator_infos v ! j) = a"
      by (auto simp: validator_set_def in_set_conv_nth)
    with m show "\<exists>j. vci_address (validator_infos v ! j) = a \<and> map_of rs j = Some r" unfolding rs(3) by auto
  qed
  finally show "set (zip (signers v s) rounds) = {(a, r). \<exists>sig. (a, r, sig) \<in> set ps}"
    unfolding map_of_eq_Some_iff [OF bt_wf_distinct [OF bt]] by auto
qed

text \<open>C30. Aggregating timeouts keeps every signer's own round. When the timeouts of validators are aggregated to a
  certificate, no assertion panics, and the certificate pairs each signer with exactly the round of the highest quorum
  certificate that signer reported, although the signatures are collected by address and the bitmask is by index.\<close>

theorem timeout_aggregation_pairs_rounds:
  assumes "verifier_wf v" and "length (validator_infos v) < 65536"
    and "bt_wf (tp_signatures tp)" and "set (tp_signers tp) \<subseteq> validator_set v"
  shows "tp_aggregate_signatures cr tp v \<noteq> Inl Panic \<and>
    (\<forall>tc. tp_aggregate_signatures cr tp v = Inr tc \<longrightarrow>
       set (get_voters_and_rounds (tc_signatures_with_rounds tc) (get_ordered_account_addresses v)) =
         {(a, r). \<exists>sig. (a, r, sig) \<in> set (tp_signatures tp)} \<and>
       length (asr_rounds (tc_signatures_with_rounds tc)) = length (tp_signatures tp))"
proof -
  let ?ps = "tp_signatures tp"
  obtain partial rounds where g: "get_partial_sig_with_rounds ?ps (address_to_validator_index v) = (partial, rounds)"
    by fastforce
  have sub: "fst ` set ?ps \<subseteq> validator_set v" using assms(4) by (simp add: tp_signers_def)
  have no_panic: "aggregate_signatures cr v partial \<noteq> Inl Panic"
  proof -
    have "collect_partial v ps m sigs \<noteq> Inl Panic" for ps m sigs
      by (induction v ps m sigs rule: collect_partial.induct) (auto simp: ok_or_def split: option.splits)
    then show ?thesis
      unfolding aggregate_signatures_def
      by (cases "collect_partial v partial (with_num_bits (of_nat (verifier_len v))) []")
         (auto simp: ok_or_def split: option.splits prod.splits)
  qed
  show ?thesis
  proof (cases "aggregate_signatures cr v partial")
    case (Inl e)
    with no_panic show ?thesis by (auto simp: tp_aggregate_signatures_def g)
  next
    case (Inr s)
    note ok = get_partial_sig_with_rounds_ok [OF assms(1,3) sub g assms(2) Inr]
    note mask = aggregate_signatures_mask [OF assms(1,2) Inr]
    have bw: "bv_wf (validator_bitmask s)" using mask(1) by (rule required_buckets_wf)
    have signers: "get_signers_addresses s (get_ordered_account_addresses v) = signers v s"
      by (rule get_signers_addresses_eq [OF bw assms(2)]) (simp add: mask(3))
    have res: "tp_aggregate_signatures cr tp v =
        Inr \<lparr>tc_timeout = tp_timeout tp, tc_signatures_with_rounds = \<lparr>asr_sig = s, asr_rounds = rounds\<rparr>\<rparr>"
      using ok(1) by (simp add: tp_aggregate_signatures_def g Inr asr_new_def assert_that_def)
    have "distinct (signers v s)"
      by (rule distinct_signers [OF assms(1)]) (simp add: set_iter_ones [OF bw] mask(3))
    have "length rounds = card (set (signers v s))" using ok(2) \<open>distinct (signers v s)\<close> by (simp add: distinct_card)
    also have "set (signers v s) = fst ` set ?ps"
    proof -
      have "set (signers v s) = fst ` set (zip (signers v s) rounds)" using ok(2) by (simp flip: set_map)
      also have "\<dots> = fst ` {(a, r). \<exists>sig. (a, r, sig) \<in> set ?ps}" by (simp only: ok(3))
      also have "\<dots> = fst ` set ?ps" by (auto simp: image_iff; force)
      finally show ?thesis .
    qed
    also have "card (fst ` set ?ps) = length ?ps"
      using bt_wf_distinct [OF assms(3)] by (metis distinct_card length_map set_map)
    finally show ?thesis using res ok(3) signers by (simp add: get_voters_and_rounds_def)
  qed
qed

text \<open>Verification of a timeout certificate.\<close>

lemma tc_verify_ok:
  assumes "tc_verify cr tc v = Inr ()"
  shows "timeout_verify cr (tc_timeout tc) v = Inr ()"
    and "verify_aggregate_signatures cr v (map SignTimeout (timeout_messages tc v)) (asr_sig (tc_signatures_with_rounds tc)) = Inr ()"
    and "highest_hqc_round tc = Max (set (asr_rounds (tc_signatures_with_rounds tc)))"
    and "highest_hqc_round tc < tc_round tc"
  using assms
  by (auto simp: tc_verify_def Let_def result_simps into_anyhow_def highest_hqc_round_def timeout_verify_def tc_round_def)

lemma timeout_message_round:
  assumes "tc_verify cr tc v = Inr ()" and "m \<in> set (timeout_messages tc v)"
  shows "tsr_epoch m = tc_epoch tc" "tsr_round m = tc_round tc" "tsr_hqc_round m \<le> highest_hqc_round tc"
proof -
  from assms(2) obtain a r where r: "(a, r) \<in> set (get_voters_and_rounds (tc_signatures_with_rounds tc) (get_ordered_account_addresses v))"
    and m: "m = \<lparr>tsr_epoch = tc_epoch tc, tsr_round = tc_round tc, tsr_hqc_round = r\<rparr>"
    by (auto simp: timeout_messages_def)
  from r have "r \<in> set (asr_rounds (tc_signatures_with_rounds tc))"
    by (auto simp: get_voters_and_rounds_def dest: set_zip_rightD)
  with m tc_verify_ok(3) [OF assms(1)] show "tsr_epoch m = tc_epoch tc" "tsr_round m = tc_round tc" "tsr_hqc_round m \<le> highest_hqc_round tc"
    by simp_all
qed


text \<open>C35. A timeout certificate may claim more than its signers signed: a round appended to its list of rounds is not
  covered by any signature, and the certificate is accepted with it and a matching quorum certificate.\<close>

theorem tc_unsigned_round_accepted:
  assumes tc: "tc_verify cr tc v = Inr ()" and qc: "qc_verify cr qc v = Inr ()"
    and lt: "bi_round (certified_block qc) < tc_round tc" and ge: "highest_hqc_round tc \<le> bi_round (certified_block qc)"
    and len: "length (get_signers_addresses (asr_sig (tc_signatures_with_rounds tc)) (get_ordered_account_addresses v)) \<le>
        length (asr_rounds (tc_signatures_with_rounds tc))"
    and tc': "tc' = \<lparr>tc_timeout = (tc_timeout tc)\<lparr>to_quorum_cert := qc\<rparr>, tc_signatures_with_rounds =
        (tc_signatures_with_rounds tc)\<lparr>asr_rounds := asr_rounds (tc_signatures_with_rounds tc) @ [bi_round (certified_block qc)]\<rparr>\<rparr>"
  shows "tc_verify cr tc' v = Inr () \<and> highest_hqc_round tc' = bi_round (certified_block qc) \<and>
    timeout_messages tc' v = timeout_messages tc v"
proof -
  let ?rs = "asr_rounds (tc_signatures_with_rounds tc)" and ?r = "bi_round (certified_block qc)"
  have msgs: "timeout_messages tc' v = timeout_messages tc v"
    using len by (simp add: timeout_messages_def tc' tc_epoch_def tc_round_def get_voters_and_rounds_def zip_append1 zip_append2)
  have max: "Max (set (?rs @ [?r])) = ?r"
    using ge tc_verify_ok(3) [OF tc] by (cases "?rs = []") (simp_all add: max_absorb2 max_absorb1)
  have "timeout_verify cr (tc_timeout tc') v = Inr ()"
    using lt qc by (simp add: tc' timeout_verify_def hqc_round_def tc_round_def)
  with max msgs tc_verify_ok(2) [OF tc] show ?thesis
    by (simp add: tc_verify_def Let_def tc' into_anyhow_def highest_hqc_round_def hqc_round_def assert_that_def)
qed

definition sample_tc :: two_chain_timeout_certificate where
  "sample_tc = \<lparr>tc_timeout = \<lparr>to_epoch = 1, to_round = 4, to_quorum_cert = sample_qc 1\<rparr>,
     tc_signatures_with_rounds = \<lparr>asr_sig = sample_signature, asr_rounds = [0, 1, 1]\<rparr>\<rparr>"

lemma sample_signers_addresses:
  "get_signers_addresses sample_signature (get_ordered_account_addresses sample_verifier) = [1, 2, 3]"
proof -
  have "get_ordered_account_addresses sample_verifier = [1, 2, 3, 4]"
    by (simp add: get_ordered_account_addresses_def sample_verifier_def sample_infos_def build_index_def)
  moreover have "map (\<lambda>i. bv_is_set \<lparr>inner = [224]\<rparr> i) [0, 1, 2, 3] = [True, True, True, False]" by code_simp
  ultimately show ?thesis by (simp add: get_signers_addresses_def sample_signature_def)
qed

lemma sample_aggregate_signatures:
  "length ms = 3 \<Longrightarrow> verify_aggregate_signatures sample_crypto sample_verifier ms sample_signature = Inr ()"
proof -
  have "check_num_of_voters (of_nat (verifier_len sample_verifier)) \<lparr>inner = [224]\<rparr> = Inr ()"
    by code_simp
  moreover have "collect_signers sample_verifier [0, 1, 2] = Inr [(1, 1), (2, 2), (3, 3)]"
    by (simp add: sample_verifier_def sample_infos_def build_index_def)
  ultimately show ?thesis
    using sample_check(1)
    by (simp add: verify_aggregate_signatures_def sample_signature_def sample_iter_ones ok_or_def sample_crypto_def
        bls.defs sample_bls_def)
qed

lemma sample_tc_verify: "tc_verify sample_crypto sample_tc sample_verifier = Inr ()"
  by (simp add: tc_verify_def Let_def sample_tc_def timeout_verify_def hqc_round_def into_anyhow_def assert_that_def
      timeout_messages_def get_voters_and_rounds_def sample_signers_addresses sample_aggregate_signatures)


theorem tc_unsigned_round_accepted_witness:
  "tc_verify sample_crypto
     \<lparr>tc_timeout = \<lparr>to_epoch = 1, to_round = 4, to_quorum_cert = sample_qc 2\<rparr>,
      tc_signatures_with_rounds = \<lparr>asr_sig = sample_signature, asr_rounds = [0, 1, 1, 2]\<rparr>\<rparr> sample_verifier = Inr ()"
proof -
  have "bi_round (certified_block (sample_qc 2)) < tc_round sample_tc" "highest_hqc_round sample_tc \<le> bi_round (certified_block (sample_qc 2))"
    "length (get_signers_addresses (asr_sig (tc_signatures_with_rounds sample_tc)) (get_ordered_account_addresses sample_verifier)) \<le>
       length (asr_rounds (tc_signatures_with_rounds sample_tc))"
    by (simp_all add: sample_tc_def tc_round_def highest_hqc_round_def hqc_round_def sample_signers_addresses)
  from tc_unsigned_round_accepted [OF sample_tc_verify sample_qc_verify this refl] show ?thesis by (simp add: sample_tc_def)
qed

definition sample_partial :: two_chain_timeout_with_partial_signatures where
  "sample_partial = \<lparr>tp_timeout = tc_timeout sample_tc, tp_signatures = [(1, 0, 1), (2, 1, 2), (3, 1, 3)]\<rparr>"

theorem timeout_aggregation_pairs_rounds_witness:
  "tp_aggregate_signatures sample_crypto sample_partial sample_verifier \<noteq> Inl Panic \<and>
   (\<exists>tc. tp_aggregate_signatures sample_crypto sample_partial sample_verifier = Inr tc \<and>
      set (get_voters_and_rounds (tc_signatures_with_rounds tc) (get_ordered_account_addresses sample_verifier)) =
        {(1, 0), (2, 1), (3, 1)})"
proof -
  let ?agg = "tp_aggregate_signatures sample_crypto sample_partial sample_verifier"
  have "length (validator_infos sample_verifier) < 65536" "bt_wf (tp_signatures sample_partial)"
    "set (tp_signers sample_partial) \<subseteq> validator_set sample_verifier"
    by (simp_all add: sample_verifier_def sample_infos_def build_index_def sample_partial_def bt_wf_def tp_signers_def validator_set_def)
  note t = timeout_aggregation_pairs_rounds [OF sample_verifier_wf this, of sample_crypto]
  have "get_partial_sig_with_rounds (tp_signatures sample_partial) (address_to_validator_index sample_verifier) =
      ([(1, 1), (2, 2), (3, 3)], [0, 1, 1])"
    by (simp add: get_partial_sig_with_rounds_def collect_round_def sample_partial_def sample_verifier_def sample_infos_def
        build_index_def ps_add_signature_def bt_entry_def)
  moreover have "\<exists>s. aggregate_signatures sample_crypto sample_verifier [(1, 1), (2, 2), (3, 3)] = Inr s"
    by (simp add: aggregate_signatures_def ok_or_def sample_crypto_def bls.defs sample_bls_def)
       (simp add: sample_verifier_def sample_infos_def build_index_def)
  ultimately have "\<exists>tc. ?agg = Inr tc"
    using t by (auto simp: tp_aggregate_signatures_def asr_new_def assert_that_def split: if_splits)
  moreover have "{(a, r). \<exists>sig. (a, r, sig) \<in> set (tp_signatures sample_partial)} = {(1, 0), (2, 1), (3, 1)}"
    by (auto simp: sample_partial_def)
  ultimately show ?thesis using t by auto
qed

section \<open>Well-formed blocks and messages\<close>

lemma failed_rounds_sorted:
  "failed_rounds_ok bound succ_round fs = Inr () \<Longrightarrow>
     sorted_wrt (<) (bound # map fst fs) \<and> (\<forall>r\<in>fst ` set fs. r < succ_round)"
  by (induction bound succ_round fs rule: failed_rounds_ok.induct) (auto simp: result_simps dest: less_trans)

text \<open>C34. The failed authors of a well-formed block are for distinct rounds in increasing order, all strictly above the
  round of its parent and below its own round, or up to it for a nil block; so at most the skipped rounds are blamed.\<close>

theorem well_formed_failed_authors:
  assumes "verify_well_formed now b = Inr ()" and "bd_failed_authors (b_block_data b) = Some fs"
  shows "sorted_wrt (<) (map fst fs) \<and>
    (\<forall>r\<in>fst ` set fs. bi_round (certified_block (b_quorum_cert b)) < r \<and>
       (if bd_is_nil_block (b_block_data b) then r \<le> b_round b else r < b_round b)) \<and>
    length fs < unat (b_round b) - unat (bi_round (certified_block (b_quorum_cert b))) + (if bd_is_nil_block (b_block_data b) then 1 else 0)"
proof -
  let ?p = "bi_round (certified_block (b_quorum_cert b))" and ?k = "if bd_is_nil_block (b_block_data b) then 1 else 0 :: nat"
  have "check_failed_authors b = Inr ()" using assms(1) by (auto simp: verify_well_formed_def Let_def result_simps)
  with assms(2) obtain succ_round next_parent skipped where
    c: "checked_add (b_round b) (if bd_is_nil_block (b_block_data b) then 1 else 0) = Some succ_round"
      "checked_add ?p 1 = Some next_parent" "checked_sub succ_round next_parent = Some skipped"
    and l: "length fs \<le> unat skipped" and f: "failed_rounds_ok ?p succ_round fs = Inr ()"
    by (auto simp: check_failed_authors_def Let_def result_simps)
  from c have s: "unat succ_round = unat (b_round b) + ?k" and p: "unat next_parent = unat ?p + 1"
    and sk: "unat succ_round = unat next_parent + unat skipped"
    by (auto simp: word_to_nat split: if_splits)
  from failed_rounds_sorted [OF f] show ?thesis
    using s p sk l by (auto simp: word_less_nat_alt word_le_nat_alt)
qed

definition sample_late_block :: block where
  "sample_late_block = new_proposal_from_block_data_and_signature sample_crypto
     (bd_new_proposal (DirectMempool []) 1 [(2, 3), (3, 4)] 4 4 (sample_qc 1)) 1"

lemma sample_late_fields:
  "b_round sample_late_block = 4" "b_epoch sample_late_block = 1" "b_timestamp_usecs sample_late_block = 4"
  "b_quorum_cert sample_late_block = sample_qc 1" "b_signature sample_late_block = Some 1"
  "b_block_data sample_late_block = bd_new_proposal (DirectMempool []) 1 [(2, 3), (3, 4)] 4 4 (sample_qc 1)"
  by (simp_all add: sample_late_block_def new_proposal_from_block_data_and_signature_def b_round_def b_epoch_def
      b_timestamp_usecs_def b_quorum_cert_def bd_new_proposal_def)

lemma sample_late_well_formed: "verify_well_formed 0 sample_late_block = Inr ()"
  by (simp add: verify_well_formed_def check_failed_authors_def Let_def sample_late_fields bd_is_genesis_block_def
      bd_is_nil_block_def bd_new_proposal_def bd_failed_authors_def has_reconfiguration_def qc_ends_epoch_def li_ends_epoch_def
      sample_vote_info_def li_next_epoch_state_def expect_def ok_or_def checked_add_def checked_sub_def saturating_add_def
      TIMEBOUND_def)

theorem well_formed_failed_authors_witness: "sorted_wrt (<) (map fst [(2, 3), (3, 4)] :: round list) \<and>
   bi_round (certified_block (b_quorum_cert sample_late_block)) < 2"
  using well_formed_failed_authors [OF sample_late_well_formed, of "[(2, 3), (3, 4)]"]
  by (simp add: sample_late_fields bd_failed_authors_def bd_new_proposal_def)

lemma qc_verify_quorum:
  assumes "qc_verify cr qc v = Inr ()" and "verifier_wf v" and "bi_round (certified_block qc) \<noteq> 0"
  shows "is_quorum v (set (signers v (lis_signatures (qc_signed_ledger_info qc))))"
  using assms verify_multi_signatures_quorum
  by (auto simp: qc_verify_def result_simps with_context_def lis_verify_signatures_def)

text \<open>C32. A proposal message that is accepted is from a validator that signed the block, and its round is justified: it
  is the round after the certified parent, or the round after a verified timeout certificate whose round is not below the
  parent. The parent is of the same epoch and certified by a quorum, or of round 0.\<close>

theorem proposal_msg_justified:
  assumes "proposal_msg_verify cr now m v quorum_store = Inr ()" and "verifier_wf v"
  shows "let b = pm_proposal m; parent = certified_block (b_quorum_cert b); round = unat (b_round b) in
    (\<exists>a sig. bd_author (b_block_data b) = Some a \<and> b_signature b = Some sig \<and>
       verifier_verify cr v a (SignBlockData (b_block_data b)) sig = Inr ()) \<and>
    (round = unat (bi_round parent) + 1 \<or>
     (\<exists>tc. si_highest_2chain_timeout_cert (pm_sync_info m) = Some tc \<and> tc_verify cr tc v = Inr () \<and>
        round = unat (tc_round tc) + 1 \<and> bi_round parent \<le> tc_round tc)) \<and>
    bi_epoch parent = b_epoch b \<and>
    (bi_round parent = 0 \<or> is_quorum v (set (signers v (lis_signatures (qc_signed_ledger_info (b_quorum_cert b))))))"
proof -
  let ?b = "pm_proposal m" and ?si = "pm_sync_info m"
  let ?parent = "certified_block (b_quorum_cert ?b)"
  have val: "validate_signature cr ?b v = Inr ()"
    and tc: "\<And>tc. si_highest_2chain_timeout_cert ?si = Some tc \<Longrightarrow> tc_verify cr tc v = Inr ()"
    and wf: "proposal_msg_verify_well_formed now m = Inr ()"
    using assms(1) by (auto simp: proposal_msg_verify_def result_simps)
  from wf have nil: "\<not> bd_is_nil_block (b_block_data ?b)" and b: "verify_well_formed now ?b = Inr ()"
    and round: "checked_sub (b_round ?b) 1 = Some (max (bi_round ?parent) (highest_timeout_round ?si))"
    by (auto simp: proposal_msg_verify_well_formed_def Let_def result_simps with_context_def)
  from b have ep: "bi_epoch ?parent = b_epoch ?b" and lt: "bi_round ?parent < b_round ?b"
    by (auto simp: verify_well_formed_def Let_def result_simps)
  have qc: "qc_verify cr (b_quorum_cert ?b) v = Inr ()"
    and sig: "\<exists>a sig. bd_author (b_block_data ?b) = Some a \<and> b_signature ?b = Some sig \<and>
       verifier_verify cr v a (SignBlockData (b_block_data ?b)) sig = Inr ()"
    using val nil by (auto simp: validate_signature_def result_simps into_anyhow_def bd_author_def bd_is_nil_block_def
        split: block_type.splits)
  have prev: "unat (b_round ?b) = 1 + unat (max (bi_round ?parent) (highest_timeout_round ?si))"
    using round by (simp add: word_to_nat)
  have "unat (b_round ?b) = unat (bi_round ?parent) + 1 \<or>
     (\<exists>tc. si_highest_2chain_timeout_cert ?si = Some tc \<and> tc_verify cr tc v = Inr () \<and>
        unat (b_round ?b) = unat (tc_round tc) + 1 \<and> bi_round ?parent \<le> tc_round tc)"
  proof (cases "highest_timeout_round ?si \<le> bi_round ?parent")
    case True
    with prev show ?thesis by (simp add: max_absorb1)
  next
    case False
    then obtain c where "si_highest_2chain_timeout_cert ?si = Some c" "highest_timeout_round ?si = tc_round c"
      by (auto simp: highest_timeout_round_def split: option.splits)
    with False prev tc show ?thesis by (simp add: max_absorb2 not_le less_imp_le)
  qed
  then show ?thesis
    unfolding Let_def using sig ep qc_verify_quorum [OF qc assms(2)] by blast
qed

definition sample_sync_info :: sync_info where
  "sample_sync_info = sync_info_new (sample_qc 1) (sample_qc 1) (Some (sample_tc\<lparr>tc_timeout := (tc_timeout sample_tc)\<lparr>to_round := 3\<rparr>\<rparr>))"

definition sample_proposal_msg :: proposal_msg where
  "sample_proposal_msg = \<lparr>pm_proposal = sample_late_block, pm_sync_info = sample_sync_info\<rparr>"

lemma sample_tc_3_verify:
  "tc_verify sample_crypto (sample_tc\<lparr>tc_timeout := (tc_timeout sample_tc)\<lparr>to_round := 3\<rparr>\<rparr>) sample_verifier = Inr ()"
  by (simp add: tc_verify_def Let_def sample_tc_def timeout_verify_def hqc_round_def into_anyhow_def assert_that_def
      timeout_messages_def get_voters_and_rounds_def sample_signers_addresses sample_aggregate_signatures)

lemma sample_sync_info_fields:
  "si_highest_quorum_cert sample_sync_info = sample_qc 1" "si_highest_ordered_cert sample_sync_info = None"
  "si_highest_commit_cert sample_sync_info = sample_qc 1"
  "si_highest_2chain_timeout_cert sample_sync_info = Some (sample_tc\<lparr>tc_timeout := (tc_timeout sample_tc)\<lparr>to_round := 3\<rparr>\<rparr>)"
  by (simp_all add: sample_sync_info_def sync_info_new_def sync_info_new_decoupled_def tc_round_def)

lemma sample_proposal_msg_verify: "proposal_msg_verify sample_crypto 0 sample_proposal_msg sample_verifier False = Inr ()"
proof -
  have "validate_signature sample_crypto sample_late_block sample_verifier = Inr ()"
    by (simp add: validate_signature_def sample_late_fields bd_new_proposal_def ok_or_def into_anyhow_def verifier_verify_def
        sample_crypto_fields sample_public_key)
  moreover have "proposal_msg_verify_well_formed 0 sample_proposal_msg = Inr ()"
    by (simp add: proposal_msg_verify_well_formed_def Let_def sample_proposal_msg_def sample_late_well_formed with_context_def
        sample_late_fields sample_sync_info_fields bd_is_nil_block_def bd_new_proposal_def si_epoch_def bd_parent_id_def
        ok_or_def checked_sub_def highest_timeout_round_def tc_round_def bd_author_def sample_tc_def)
  ultimately show ?thesis
    by (simp add: proposal_msg_verify_def sample_proposal_msg_def sample_late_fields bd_new_proposal_def sample_sync_info_fields
        sample_tc_3_verify bd_payload_def)
qed

theorem proposal_msg_justified_witness:
  "is_quorum sample_verifier (set (signers sample_verifier sample_signature)) \<and>
   (\<exists>tc. si_highest_2chain_timeout_cert sample_sync_info = Some tc \<and> unat (b_round sample_late_block) = unat (tc_round tc) + 1)"
proof -
  have "lis_signatures (qc_signed_ledger_info (sample_qc 1)) = sample_signature" by (simp add: sample_qc_def)
  with proposal_msg_justified [OF sample_proposal_msg_verify sample_verifier_wf] show ?thesis
    by (auto simp: Let_def sample_proposal_msg_def sample_late_fields sample_sync_info_fields)
qed


lemma sample_sync_info_verify: "sync_info_verify sample_crypto sample_sync_info sample_verifier = Inr ()"
proof -
  have "qc_commit_info (sample_qc 1) = sample_info 0"
    by (simp add: qc_commit_info_def sample_vote_info_def before_def)
  moreover have "sample_info 0 \<noteq> block_info_empty" by (simp add: sample_info_def block_info_empty_def)
  ultimately show ?thesis
    by (simp add: sync_info_verify_def Let_def sample_sync_info_fields highest_ordered_cert_def highest_certified_round_def
        highest_commit_round_def tc_epoch_def sample_tc_3_verify with_context_def)
       (simp add: sample_tc_def)
qed


text \<open>The certificate of the first block of an epoch. It is built from the ledger info that ended the previous epoch,
  is for round 0 of the next epoch and carries no signatures, and every verifier accepts it.\<close>

lemma genesis_certificate_verifies:
  assumes "certificate_for_genesis_from_ledger_info cr li genesis_id = Inr qc"
  shows "qc_verify cr qc v = Inr () \<and> bi_round (certified_block qc) = 0 \<and>
    unat (bi_epoch (certified_block qc)) = unat (li_epoch li) + 1 \<and> bi_id (certified_block qc) = genesis_id \<and>
    qc_commit_info qc = certified_block qc"
proof -
  have "count_ones (with_num_bits k) = 0" for k
    by (simp add: count_ones_def with_num_bits_def sum_list_replicate u8_count_ones_def)
  then show ?thesis
    using assms
    by (auto simp: certificate_for_genesis_from_ledger_info_def Let_def result_simps qc_verify_def certified_block_def
        parent_block_def qc_commit_info_def lis_get_num_voters_def get_num_voters_def word_to_nat)
qed

end
