(* ===== verification/Safety_Rules.thy ===== *)
theory Safety_Rules
  imports Consensus_Types
begin

text \<open>
  The safety rules of a validator, consensus/safety-rules/src: the persistent storage
  (persistent_safety_storage.rs), the operations that sign proposals, votes, timeouts and commit votes
  (safety_rules.rs and safety_rules_2chain.rs) and their errors (error.rs).

  \<^item> The secure storage (secure/storage) is the record of the four values that are kept in it. Its
    backends may fail: \<open>st_fault\<close> is the error every access returns while it is set; the environment
    sets and clears it.
  \<^item> Every method on \<open>&mut self\<close> is a function on the state that keeps its effects when it fails.
  \<^item> Where an error of the source carries a rendered value, the constructor here carries the value.
    Logging, counters and timers are left out, and with them \<open>run_and_log\<close>, so that the trait methods
    are the guarded methods.
  \<^item> \<open>safety_data\<close> with caching disabled reads the stored value at the type
    \<open>Result<SafetyData, Error>\<close> (the type the \<open>?\<close> of its \<open>return\<close> expression forces), which the JSON of a
    \<open>SafetyData\<close> never has; the read fails.
\<close>

section \<open>Errors\<close>

datatype storage_error =
    EntropyError string
  | StorageInternalError string
  | KeyAlreadyExists string
  | KeyNotSet string
  | PermissionDenied
  | StorageSerializationError string
  | KeyVersionNotFound string string

datatype safety_error =
    IncorrectEpoch u64 u64
  | IncorrectRound u64
  | IncorrectLastVotedRound u64 u64
  | IncorrectPreferredRound u64 u64
  | InvalidAccumulatorExtension string
  | InvalidEpochChangeProof string
  | InternalError string
  | InvalidLedgerInfo
  | InvalidProposal string
  | InvalidQuorumCertificate string
  | NotInitialized string
  | SecureStorageMissingDataError string
  | SecureStorageUnexpectedError string
  | SerializationError string
  | ValidatorKeyNotFound string
  | ValidatorNotInSet account_address
  | VoteProposalSignatureNotFound
  | NotSafeToVote u64 u64 u64 u64
  | NotSafeToTimeout u64 u64 u64 u64
  | InvalidTimeoutCertificate string
  | InconsistentExecutionResult block_info block_info
  | InvalidOrderedLedgerInfo ledger_info
  | WaypointOutOfDate u64 u64 u64 u64
  | InvalidTimeout string

fun storage_error_message :: "storage_error \<Rightarrow> string" where
  "storage_error_message (EntropyError e) = ''Entropy error: '' @ e"
| "storage_error_message (StorageInternalError e) = ''Internal error: '' @ e"
| "storage_error_message (KeyAlreadyExists k) = ''Key already exists: '' @ k"
| "storage_error_message (KeyNotSet k) = ''Key not set: '' @ k"
| "storage_error_message PermissionDenied = ''Permission denied''"
| "storage_error_message (StorageSerializationError e) = ''Serialization error: '' @ e"
| "storage_error_message (KeyVersionNotFound k v) =
     ''Key version not found, key name: '' @ k @ '', version: '' @ v"

text \<open>\<open>From<aptos_secure_storage::Error>\<close>: a missing permission panics.\<close>

definition from_storage_error :: "storage_error \<Rightarrow> safety_error fault" where
  "from_storage_error e =
     (case e of
        PermissionDenied \<Rightarrow> Panic
      | KeyVersionNotFound _ _ \<Rightarrow> Err (SecureStorageMissingDataError (storage_error_message e))
      | KeyNotSet _ \<Rightarrow> Err (SecureStorageMissingDataError (storage_error_message e))
      | _ \<Rightarrow> Err (SecureStorageUnexpectedError (storage_error_message e)))"

section \<open>Persistent storage\<close>

record storage =
  st_owner_account :: "author option"
  st_consensus_key :: "private_key option"
  st_safety_data :: "safety_data option"
  st_waypoint :: "waypoint option"
  st_fault :: "storage_error option"

definition storage_get :: "(storage \<Rightarrow> 'a option) \<Rightarrow> string \<Rightarrow> storage \<Rightarrow> storage_error + 'a" where
  "storage_get f key st =
     (case st_fault st of
        Some e \<Rightarrow> Inl e
      | None \<Rightarrow> (case f st of None \<Rightarrow> Inl (KeyNotSet key) | Some x \<Rightarrow> Inr x))"

definition storage_set :: "(storage \<Rightarrow> storage) \<Rightarrow> storage \<Rightarrow> storage_error + storage" where
  "storage_set f st = (case st_fault st of Some e \<Rightarrow> Inl e | None \<Rightarrow> Inr (f st))"

definition from_storage :: "storage_error + 'a \<Rightarrow> (safety_error, 'a) result" where
  "from_storage r = (case r of Inl e \<Rightarrow> Inl (from_storage_error e) | Inr x \<Rightarrow> Inr x)"

record persistent_safety_storage =
  enable_cached_safety_data :: bool
  cached_safety_data :: "safety_data option"
  internal_store :: storage

definition safety_data_new :: "u64 \<Rightarrow> u64 \<Rightarrow> u64 \<Rightarrow> u64 \<Rightarrow> vote option \<Rightarrow> safety_data" where
  "safety_data_new epoch last_voted preferred one_chain last_vote =
     \<lparr>sd_epoch = epoch, sd_last_voted_round = last_voted, sd_preferred_round = preferred,
      sd_one_chain_round = one_chain, sd_last_vote = last_vote\<rparr>"

definition pss_new :: "storage \<Rightarrow> bool \<Rightarrow> persistent_safety_storage" where
  "pss_new store caching =
     \<lparr>enable_cached_safety_data = caching, cached_safety_data = None, internal_store = store\<rparr>"

definition pss_author :: "persistent_safety_storage \<Rightarrow> (safety_error, author) result" where
  "pss_author p = from_storage (storage_get st_owner_account ''owner_account'' (internal_store p))"

definition consensus_key_for_version ::
  "crypto \<Rightarrow> persistent_safety_storage \<Rightarrow> public_key \<Rightarrow> (safety_error, private_key) result" where
  "consensus_key_for_version cr p version =
     and_then (from_storage (storage_get st_consensus_key ''consensus'' (internal_store p))) (\<lambda>key.
     and_then (ensure (bls_public_key cr key = version) (SecureStorageMissingDataError ''PrivateKey not found'')) (\<lambda>_.
     Inr key))"

definition pss_safety_data :: "(persistent_safety_storage, safety_error, safety_data) smonad" where
  "pss_safety_data p =
     (let stored = storage_get st_safety_data ''safety_data'' (internal_store p) in
      if \<not> enable_cached_safety_data p
      then (and_then (from_storage stored) (\<lambda>_.
              Inl (Err (SecureStorageUnexpectedError (storage_error_message (StorageSerializationError ''unknown variant''))))), p)
      else case cached_safety_data p of
             Some d \<Rightarrow> (Inr d, p)
           | None \<Rightarrow>
               (case from_storage stored of
                  Inl e \<Rightarrow> (Inl e, p)
                | Inr d \<Rightarrow> (Inr d, p\<lparr>cached_safety_data := Some d\<rparr>)))"

definition pss_set_safety_data :: "safety_data \<Rightarrow> (persistent_safety_storage, safety_error, unit) smonad" where
  "pss_set_safety_data d p =
     (case storage_set (st_safety_data_update (\<lambda>_. Some d)) (internal_store p) of
        Inr store \<Rightarrow> (Inr (), p\<lparr>cached_safety_data := Some d, internal_store := store\<rparr>)
      | Inl e \<Rightarrow> (Inl (Err (SecureStorageUnexpectedError (storage_error_message e))), p\<lparr>cached_safety_data := None\<rparr>))"

definition pss_waypoint :: "persistent_safety_storage \<Rightarrow> (safety_error, waypoint) result" where
  "pss_waypoint p = from_storage (storage_get st_waypoint ''waypoint'' (internal_store p))"

definition pss_set_waypoint :: "waypoint \<Rightarrow> (persistent_safety_storage, safety_error, unit) smonad" where
  "pss_set_waypoint w p =
     (case from_storage (storage_set (st_waypoint_update (\<lambda>_. Some w)) (internal_store p)) of
        Inr store \<Rightarrow> (Inr (), p\<lparr>internal_store := store\<rparr>)
      | Inl e \<Rightarrow> (Inl e, p))"

definition initialize_keys_and_accounts :: "storage \<Rightarrow> author \<Rightarrow> private_key \<Rightarrow> (safety_error, storage) result" where
  "initialize_keys_and_accounts store author key =
     (case storage_set (st_consensus_key_update (\<lambda>_. Some key)) store of
        Inl (KeyAlreadyExists _) \<Rightarrow> Inr store
      | Inl e \<Rightarrow> from_storage (storage_set (st_owner_account_update (\<lambda>_. Some author)) store)
      | Inr store' \<Rightarrow> from_storage (storage_set (st_owner_account_update (\<lambda>_. Some author)) store'))"

definition pss_initialize ::
  "storage \<Rightarrow> author \<Rightarrow> private_key \<Rightarrow> waypoint \<Rightarrow> bool \<Rightarrow> ('e, persistent_safety_storage) result" where
  "pss_initialize store author key w caching =
     and_then (unwrap (initialize_keys_and_accounts store author key)) (\<lambda>store'.
     let d = safety_data_new 1 0 0 0 None;
         p = \<lparr>enable_cached_safety_data = caching, cached_safety_data = Some d, internal_store = store'\<rparr>
     in case s_bind (pss_set_safety_data d) (\<lambda>_. pss_set_waypoint w) p of
          (Inr _, p') \<Rightarrow> Inr p'
        | (Inl _, _) \<Rightarrow> Inl Panic)"

section \<open>Safety rules\<close>

record safety_rules =
  persistent_storage :: persistent_safety_storage
  validator_signer_opt :: "validator_signer option"
  epoch_state_opt :: "epoch_state option"

record consensus_state =
  cs_safety_data :: safety_data
  cs_waypoint :: waypoint
  cs_in_validator_set :: bool

definition safety_rules_new :: "persistent_safety_storage \<Rightarrow> safety_rules" where
  "safety_rules_new p = \<lparr>persistent_storage = p, validator_signer_opt = None, epoch_state_opt = None\<rparr>"

definition on_storage :: "(persistent_safety_storage, 'e, 'a) smonad \<Rightarrow> (safety_rules, 'e, 'a) smonad" where
  "on_storage m s = (case m (persistent_storage s) of (r, p) \<Rightarrow> (r, s\<lparr>persistent_storage := p\<rparr>))"

definition next_round :: "round \<Rightarrow> (safety_error, round) result" where
  "next_round round = ok_or (checked_add round 1) (IncorrectRound round)"

definition sr_signer :: "safety_rules \<Rightarrow> (safety_error, validator_signer) result" where
  "sr_signer s = ok_or (validator_signer_opt s) (NotInitialized ''validator_signer'')"

definition sr_epoch_state :: "safety_rules \<Rightarrow> (safety_error, epoch_state) result" where
  "sr_epoch_state s = ok_or (epoch_state_opt s) (NotInitialized ''epoch_state'')"

definition sr_sign :: "crypto \<Rightarrow> signable \<Rightarrow> safety_rules \<Rightarrow> (safety_error, bls_signature) result" where
  "sr_sign cr m s =
     and_then (sr_signer s) (\<lambda>signer.
     ok_or (signer_sign cr signer m) (SerializationError ''Struct cannot be signed.''))"

definition observe_qc :: "quorum_cert \<Rightarrow> safety_data \<Rightarrow> bool \<times> safety_data" where
  "observe_qc qc d =
     (let one_chain = bi_round (certified_block qc);
          two_chain = bi_round (parent_block qc);
          (updated1, d1) = (if one_chain > sd_one_chain_round d
                            then (True, d\<lparr>sd_one_chain_round := one_chain\<rparr>) else (False, d));
          (updated2, d2) = (if two_chain > sd_preferred_round d1
                            then (True, d1\<lparr>sd_preferred_round := two_chain\<rparr>) else (updated1, d1))
      in (updated2, d2))"

definition verify_and_update_preferred_round ::
  "quorum_cert \<Rightarrow> safety_data \<Rightarrow> (safety_error, bool \<times> safety_data) result" where
  "verify_and_update_preferred_round qc d =
     (let preferred_round = sd_preferred_round d; one_chain_round = bi_round (certified_block qc) in
      if one_chain_round < preferred_round then Inl (Err (IncorrectPreferredRound one_chain_round preferred_round))
      else Inr (observe_qc qc d))"

definition verify_author :: "author option \<Rightarrow> safety_rules \<Rightarrow> (safety_error, unit) result" where
  "verify_author author s =
     and_then (sr_signer s) (\<lambda>signer.
     and_then (ok_or author (InvalidProposal ''No author found in the proposal'')) (\<lambda>a.
     ensure (vs_author signer = a) (InvalidProposal ''Proposal author is not validator signer!'')))"

definition verify_epoch :: "u64 \<Rightarrow> safety_data \<Rightarrow> (safety_error, unit) result" where
  "verify_epoch epoch d = ensure (epoch = sd_epoch d) (IncorrectEpoch epoch (sd_epoch d))"

definition verify_and_update_last_vote_round :: "round \<Rightarrow> safety_data \<Rightarrow> (safety_error, safety_data) result" where
  "verify_and_update_last_vote_round round d =
     (if round \<le> sd_last_voted_round d then Inl (Err (IncorrectLastVotedRound round (sd_last_voted_round d)))
      else Inr (d\<lparr>sd_last_voted_round := round\<rparr>))"

definition verify_qc :: "crypto \<Rightarrow> quorum_cert \<Rightarrow> safety_rules \<Rightarrow> (safety_error, unit) result" where
  "verify_qc cr qc s =
     and_then (sr_epoch_state s) (\<lambda>es. map_err InvalidQuorumCertificate (qc_verify cr qc (es_verifier es)))"

definition verify_tc :: "crypto \<Rightarrow> two_chain_timeout_certificate \<Rightarrow> safety_rules \<Rightarrow> (safety_error, unit) result" where
  "verify_tc cr tc s =
     and_then (sr_epoch_state s) (\<lambda>es. map_err InvalidTimeoutCertificate (tc_verify cr tc (es_verifier es)))"

definition verify_proposal :: "crypto \<Rightarrow> u64 \<Rightarrow> vote_proposal \<Rightarrow> (safety_rules, safety_error, vote_data) smonad" where
  "verify_proposal cr now p =
     (let b = vp_block p in
      s_bind (on_storage pss_safety_data) (\<lambda>d.
      s_bind (s_lift (verify_epoch (b_epoch b) d)) (\<lambda>_.
      s_bind (s_gets (verify_qc cr (b_quorum_cert b))) (\<lambda>_.
      s_bind (s_gets sr_epoch_state) (\<lambda>es.
      s_bind (s_lift (map_err InvalidProposal (validate_signature cr b (es_verifier es)))) (\<lambda>_.
      s_bind (s_lift (map_err InvalidProposal (verify_well_formed now b))) (\<lambda>_.
      s_lift (map_err InvalidAccumulatorExtension (gen_vote_data cr p)))))))))"

definition guarded_consensus_state :: "(safety_rules, safety_error, consensus_state) smonad" where
  "guarded_consensus_state =
     s_bind (s_gets (\<lambda>s. pss_waypoint (persistent_storage s))) (\<lambda>w.
     s_bind (on_storage pss_safety_data) (\<lambda>d.
     s_gets (\<lambda>s. Inr \<lparr>cs_safety_data = d, cs_waypoint = w, cs_in_validator_set = is_ok (sr_signer s)\<rparr>)))"

text \<open>The part of \<open>guarded_initialize\<close> that reconciles the consensus key; a failure clears the signer.\<close>

definition reconcile_key :: "crypto \<Rightarrow> epoch_state \<Rightarrow> author \<Rightarrow> (safety_rules, safety_error, unit) smonad" where
  "reconcile_key cr es author s =
     (case get_public_key (es_verifier es) author of
        None \<Rightarrow> (Inl (Err (ValidatorNotInSet author)), s\<lparr>validator_signer_opt := None\<rparr>)
      | Some expected_key \<Rightarrow>
          if map_option (\<lambda>signer. bls_public_key cr (vs_private_key signer)) (validator_signer_opt s) = Some expected_key
          then (Inr (), s)
          else case consensus_key_for_version cr (persistent_storage s) expected_key of
                 Inr key \<Rightarrow> (Inr (), s\<lparr>validator_signer_opt := Some \<lparr>vs_author = author, vs_private_key = key\<rparr>\<rparr>)
               | Inl Panic \<Rightarrow> (Inl Panic, s)
               | Inl (Err (SecureStorageMissingDataError e)) \<Rightarrow>
                   (Inl (Err (ValidatorKeyNotFound e)), s\<lparr>validator_signer_opt := None\<rparr>)
               | Inl (Err e) \<Rightarrow> (Inl (Err e), s\<lparr>validator_signer_opt := None\<rparr>))"

definition start_epoch :: "waypoint \<Rightarrow> waypoint \<Rightarrow> epoch_state \<Rightarrow> (safety_rules, safety_error, unit) smonad" where
  "start_epoch w new_w es =
     s_bind (on_storage pss_safety_data) (\<lambda>d.
     if sd_epoch d > es_epoch es
     then s_fail (WaypointOutOfDate (wp_version w) (wp_version new_w) (sd_epoch d) (es_epoch es))
     else if sd_epoch d < es_epoch es
     then on_storage (pss_set_safety_data (safety_data_new (es_epoch es) 0 0 0 None))
     else s_return ())"

definition guarded_initialize :: "crypto \<Rightarrow> epoch_change_proof \<Rightarrow> (safety_rules, safety_error, unit) smonad" where
  "guarded_initialize cr p =
     s_bind (s_gets (\<lambda>s. pss_waypoint (persistent_storage s))) (\<lambda>w.
     s_bind (s_lift (map_err InvalidEpochChangeProof
               (ecp_verify cr (waypoint_verifier_verify cr w) (waypoint_stale w) p))) (\<lambda>last_li.
     s_bind (s_lift (ok_or (li_next_epoch_state (lis_ledger_info last_li)) InvalidLedgerInfo)) (\<lambda>es.
     s_bind (s_lift (map_err InternalError (waypoint_new_epoch_boundary cr (lis_ledger_info last_li)))) (\<lambda>new_w.
     s_bind (if wp_version new_w > wp_version w then on_storage (pss_set_waypoint new_w) else s_return ()) (\<lambda>_.
     s_bind (start_epoch w new_w es) (\<lambda>_.
     s_bind (s_modify (epoch_state_opt_update (\<lambda>_. Some es))) (\<lambda>_.
     s_bind (s_gets (\<lambda>s. pss_author (persistent_storage s))) (\<lambda>author.
     reconcile_key cr es author))))))))"

definition guarded_sign_proposal :: "crypto \<Rightarrow> block_data \<Rightarrow> (safety_rules, safety_error, bls_signature) smonad" where
  "guarded_sign_proposal cr bd =
     s_bind (s_gets sr_signer) (\<lambda>_.
     s_bind (s_gets (verify_author (bd_author bd))) (\<lambda>_.
     s_bind (on_storage pss_safety_data) (\<lambda>d.
     s_bind (s_lift (verify_epoch (bd_epoch bd) d)) (\<lambda>_.
     s_bind (s_lift (ensure (\<not> bd_round bd \<le> sd_last_voted_round d)
               (InvalidProposal ''Proposed round is not higher than last voted round''))) (\<lambda>_.
     s_bind (s_gets (verify_qc cr (bd_quorum_cert bd))) (\<lambda>_.
     s_bind (s_lift (verify_and_update_preferred_round (bd_quorum_cert bd) d)) (\<lambda>_.
     s_gets (sr_sign cr (SignBlockData bd)))))))))"

definition guarded_sign_commit_vote ::
  "crypto \<Rightarrow> ledger_info_with_signatures \<Rightarrow> ledger_info \<Rightarrow> (safety_rules, safety_error, bls_signature) smonad" where
  "guarded_sign_commit_vote cr l new_li =
     (let old_li = lis_ledger_info l in
      s_bind (s_gets sr_signer) (\<lambda>_.
      s_bind (s_lift (ensure (is_ordered_only (li_commit_info old_li)) (InvalidOrderedLedgerInfo old_li))) (\<lambda>_.
      s_bind (s_lift (ensure (match_ordered_only (li_commit_info old_li) (li_commit_info new_li))
                (InconsistentExecutionResult (li_commit_info old_li) (li_commit_info new_li)))) (\<lambda>_.
      s_bind (s_gets sr_epoch_state) (\<lambda>es.
      s_bind (s_lift (map_err (\<lambda>e. InvalidQuorumCertificate (verify_error_message e))
                (lis_verify_signatures cr l (es_verifier es)))) (\<lambda>_.
      s_gets (sr_sign cr (SignLedgerInfo new_li))))))))"

section \<open>The 2-chain rules\<close>

definition safe_to_timeout ::
  "two_chain_timeout \<Rightarrow> two_chain_timeout_certificate option \<Rightarrow> safety_data \<Rightarrow> (safety_error, unit) result" where
  "safe_to_timeout timeout maybe_tc d =
     (let round = to_round timeout; qc_round = hqc_round timeout;
          tcr = (case maybe_tc of None \<Rightarrow> 0 | Some tc \<Rightarrow> tc_round tc) in
      and_then (next_round qc_round) (\<lambda>after_qc.
      and_then (if round = after_qc then Inr True
                else and_then (next_round tcr) (\<lambda>after_tc. Inr (round = after_tc))) (\<lambda>follows.
      ensure (follows \<and> qc_round \<ge> sd_one_chain_round d)
        (NotSafeToTimeout round qc_round tcr (sd_one_chain_round d)))))"

definition safe_to_vote ::
  "block \<Rightarrow> two_chain_timeout_certificate option \<Rightarrow> (safety_error, unit) result" where
  "safe_to_vote b maybe_tc =
     (let round = b_round b; qc_round = bi_round (certified_block (b_quorum_cert b));
          tcr = (case maybe_tc of None \<Rightarrow> 0 | Some tc \<Rightarrow> tc_round tc);
          hqc = (case maybe_tc of None \<Rightarrow> 0 | Some tc \<Rightarrow> highest_hqc_round tc) in
      and_then (next_round qc_round) (\<lambda>after_qc.
      and_then (if round = after_qc then Inr True
                else and_then (next_round tcr) (\<lambda>after_tc. Inr (round = after_tc \<and> qc_round \<ge> hqc))) (\<lambda>safe.
      ensure safe (NotSafeToVote round qc_round tcr hqc))))"

definition construct_ledger_info_2chain :: "block \<Rightarrow> hash_value \<Rightarrow> (safety_error, ledger_info) result" where
  "construct_ledger_info_2chain b consensus_data_hash =
     and_then (next_round (bi_round (certified_block (b_quorum_cert b)))) (\<lambda>after_block0.
     Inr \<lparr>li_commit_info = (if after_block0 = b_round b then certified_block (b_quorum_cert b) else block_info_empty),
          li_consensus_data_hash = consensus_data_hash\<rparr>)"

definition guarded_sign_timeout_with_qc ::
  "crypto \<Rightarrow> two_chain_timeout \<Rightarrow> two_chain_timeout_certificate option \<Rightarrow>
     (safety_rules, safety_error, bls_signature) smonad" where
  "guarded_sign_timeout_with_qc cr timeout maybe_tc =
     s_bind (s_gets sr_signer) (\<lambda>_.
     s_bind (on_storage pss_safety_data) (\<lambda>d.
     s_bind (s_lift (verify_epoch (to_epoch timeout) d)) (\<lambda>_.
     s_bind (s_gets sr_epoch_state) (\<lambda>es.
     s_bind (s_lift (map_err InvalidTimeout (timeout_verify cr timeout (es_verifier es)))) (\<lambda>_.
     s_bind (case maybe_tc of None \<Rightarrow> s_return () | Some tc \<Rightarrow> s_gets (verify_tc cr tc)) (\<lambda>_.
     s_bind (s_lift (safe_to_timeout timeout maybe_tc d)) (\<lambda>_.
     s_bind (s_lift (ensure (\<not> to_round timeout < sd_last_voted_round d)
               (IncorrectLastVotedRound (to_round timeout) (sd_last_voted_round d)))) (\<lambda>_.
     s_bind (if to_round timeout > sd_last_voted_round d
             then s_bind (s_lift (verify_and_update_last_vote_round (to_round timeout) d)) (\<lambda>d'.
                  on_storage (pss_set_safety_data d'))
             else s_return ()) (\<lambda>_.
     s_gets (sr_sign cr (SignTimeout (signing_format timeout))))))))))))"

text \<open>The end of \<open>guarded_construct_and_sign_vote_two_chain\<close>, when no vote was cast in the round yet.\<close>

definition cast_vote ::
  "crypto \<Rightarrow> block \<Rightarrow> vote_data \<Rightarrow> two_chain_timeout_certificate option \<Rightarrow> safety_data \<Rightarrow>
     (safety_rules, safety_error, vote) smonad" where
  "cast_vote cr b vd maybe_tc d =
     s_bind (s_lift (verify_and_update_last_vote_round (b_round b) d)) (\<lambda>d1.
     s_bind (s_lift (safe_to_vote b maybe_tc)) (\<lambda>_.
     let d2 = snd (observe_qc (b_quorum_cert b) d1) in
     s_bind (s_gets sr_signer) (\<lambda>signer.
     s_bind (s_lift (construct_ledger_info_2chain b (hash_vote_data cr vd))) (\<lambda>li.
     s_bind (s_gets (sr_sign cr (SignLedgerInfo li))) (\<lambda>signature.
     let vote = vote_new_with_signature vd (vs_author signer) li signature in
     s_bind (on_storage (pss_set_safety_data (d2\<lparr>sd_last_vote := Some vote\<rparr>))) (\<lambda>_.
     s_return vote))))))"

definition guarded_construct_and_sign_vote_two_chain ::
  "crypto \<Rightarrow> u64 \<Rightarrow> vote_proposal \<Rightarrow> two_chain_timeout_certificate option \<Rightarrow>
     (safety_rules, safety_error, vote) smonad" where
  "guarded_construct_and_sign_vote_two_chain cr now p maybe_tc =
     s_bind (s_gets sr_signer) (\<lambda>_.
     s_bind (verify_proposal cr now p) (\<lambda>vd.
     s_bind (case maybe_tc of None \<Rightarrow> s_return () | Some tc \<Rightarrow> s_gets (verify_tc cr tc)) (\<lambda>_.
     s_bind (on_storage pss_safety_data) (\<lambda>d.
     case sd_last_vote d of
       Some vote \<Rightarrow>
         if vote_round vote = b_round (vp_block p) then s_return vote
         else cast_vote cr (vp_block p) vd maybe_tc d
     | None \<Rightarrow> cast_vote cr (vp_block p) vd maybe_tc d))))"

section \<open>What is stored\<close>

definition stored :: "safety_rules \<Rightarrow> safety_data option" where
  "stored s = st_safety_data (internal_store (persistent_storage s))"

text \<open>The cache never disagrees with the store.\<close>

definition coherent :: "safety_rules \<Rightarrow> bool" where
  "coherent s \<longleftrightarrow>
     cached_safety_data (persistent_storage s) = None \<or> cached_safety_data (persistent_storage s) = stored s"

text \<open>Steps that write nothing: at most the cache is filled or dropped.\<close>

definition keeps :: "safety_rules \<Rightarrow> safety_rules \<Rightarrow> bool" where
  "keeps s s' \<longleftrightarrow>
     coherent s \<longrightarrow>
       coherent s' \<and> internal_store (persistent_storage s') = internal_store (persistent_storage s) \<and>
       enable_cached_safety_data (persistent_storage s') = enable_cached_safety_data (persistent_storage s) \<and>
       validator_signer_opt s' = validator_signer_opt s \<and> epoch_state_opt s' = epoch_state_opt s"

lemma keeps_refl [simp]: "keeps s s"
  by (simp add: keeps_def)

lemma keeps_trans: "keeps s t \<Longrightarrow> keeps t u \<Longrightarrow> keeps s u"
  by (auto simp: keeps_def)

definition fails_keep :: "(safety_rules, 'e, 'a) smonad \<Rightarrow> bool" where
  "fails_keep m \<longleftrightarrow> (\<forall>s e s'. m s = (Inl e, s') \<longrightarrow> keeps s s')"

definition succeeds_keep :: "(safety_rules, 'e, 'a) smonad \<Rightarrow> bool" where
  "succeeds_keep m \<longleftrightarrow> (\<forall>s x s'. m s = (Inr x, s') \<longrightarrow> keeps s s')"

named_theorems keep_intros

lemma fails_keep_bind [keep_intros]:
  "fails_keep m \<Longrightarrow> succeeds_keep m \<Longrightarrow> (\<And>x. fails_keep (f x)) \<Longrightarrow> fails_keep (s_bind m f)"
  unfolding fails_keep_def succeeds_keep_def s_bind_Inl by (meson keeps_trans)

lemma succeeds_keep_bind [keep_intros]:
  "succeeds_keep m \<Longrightarrow> (\<And>x. succeeds_keep (f x)) \<Longrightarrow> succeeds_keep (s_bind m f)"
  unfolding succeeds_keep_def s_bind_Inr by (meson keeps_trans)

lemma keep_pure [keep_intros]:
  "fails_keep (s_lift r)" "succeeds_keep (s_lift r)" "fails_keep (s_return x)" "succeeds_keep (s_return x)"
  "fails_keep (s_fail e)" "succeeds_keep (s_fail e)" "fails_keep (s_gets g)" "succeeds_keep (s_gets g)"
  by (simp_all add: fails_keep_def succeeds_keep_def result_simps)

lemma keep_if [keep_intros]:
  "fails_keep m \<Longrightarrow> fails_keep n \<Longrightarrow> fails_keep (if b then m else n)"
  "succeeds_keep m \<Longrightarrow> succeeds_keep n \<Longrightarrow> succeeds_keep (if b then m else n)"
  by simp_all

lemma keep_case_option [keep_intros]:
  "fails_keep m \<Longrightarrow> (\<And>x. fails_keep (f x)) \<Longrightarrow> fails_keep (case y of None \<Rightarrow> m | Some x \<Rightarrow> f x)"
  "succeeds_keep m \<Longrightarrow> (\<And>x. succeeds_keep (f x)) \<Longrightarrow> succeeds_keep (case y of None \<Rightarrow> m | Some x \<Rightarrow> f x)"
  by (simp_all split: option.splits)

lemma pss_safety_data_read:
  assumes "on_storage pss_safety_data s = (r, s')"
  shows "keeps s s'" and "r = Inr d \<Longrightarrow> coherent s \<Longrightarrow> stored s = Some d"
    and "r = Inr d \<Longrightarrow> enable_cached_safety_data (persistent_storage s)"
    and "r = Inr d \<Longrightarrow> cached_safety_data (persistent_storage s') = Some d"
proof -
  obtain p q where p: "pss_safety_data (persistent_storage s) = (q, p)" "r = q" "s' = s\<lparr>persistent_storage := p\<rparr>"
    using assms by (auto simp: on_storage_def split: prod.splits)
  show "keeps s s'"
    using p by (auto simp: pss_safety_data_def Let_def keeps_def coherent_def stored_def from_storage_def storage_get_def
        split: if_splits option.splits sum.splits)
  show "r = Inr d \<Longrightarrow> coherent s \<Longrightarrow> stored s = Some d"
    using p by (auto simp: pss_safety_data_def Let_def coherent_def stored_def from_storage_def storage_get_def
        result_simps split: if_splits option.splits sum.splits)
  show "r = Inr d \<Longrightarrow> enable_cached_safety_data (persistent_storage s)"
    using p by (auto simp: pss_safety_data_def Let_def result_simps split: if_splits)
  show "r = Inr d \<Longrightarrow> cached_safety_data (persistent_storage s') = Some d"
    using p by (auto simp: pss_safety_data_def Let_def result_simps split: if_splits option.splits sum.splits)
qed

lemma keep_safety_data [keep_intros]:
  "fails_keep (on_storage pss_safety_data)" "succeeds_keep (on_storage pss_safety_data)"
  using pss_safety_data_read(1) by (auto simp: fails_keep_def succeeds_keep_def)

lemma pss_set_safety_data_write:
  assumes "on_storage (pss_set_safety_data d) s = (r, s')"
  shows "r = Inl e \<Longrightarrow> keeps s s'"
    and "r = Inr u \<Longrightarrow> coherent s' \<and> stored s' = Some d \<and> validator_signer_opt s' = validator_signer_opt s \<and>
      epoch_state_opt s' = epoch_state_opt s"
  using assms by (auto simp: on_storage_def pss_set_safety_data_def storage_set_def keeps_def coherent_def stored_def
      split: prod.splits option.splits sum.splits)

lemma keep_set_fails [keep_intros]: "fails_keep (on_storage (pss_set_safety_data d))"
  using pss_set_safety_data_write(1) by (auto simp: fails_keep_def)

lemma keep_verify_proposal [keep_intros]:
  "fails_keep (verify_proposal cr now p)" "succeeds_keep (verify_proposal cr now p)"
  unfolding verify_proposal_def Let_def by (intro keep_intros)+

lemma fails_keep_bind_last [keep_intros]:
  "fails_keep m \<Longrightarrow> fails_keep (s_bind m (\<lambda>_. s_return x))"
  by (auto simp: fails_keep_def s_bind_Inl result_simps)

lemma fails_keep_cast_vote [keep_intros]: "fails_keep (cast_vote cr b vd tc d)"
  unfolding cast_vote_def Let_def
  by (rule fails_keep_bind_last keep_intros)+

lemma fails_keep_vote: "fails_keep (guarded_construct_and_sign_vote_two_chain cr now p tc)"
  unfolding guarded_construct_and_sign_vote_two_chain_def
  by (intro keep_intros)

lemma keep_sign_proposal:
  "fails_keep (guarded_sign_proposal cr bd)" "succeeds_keep (guarded_sign_proposal cr bd)"
  unfolding guarded_sign_proposal_def by (intro keep_intros)+

lemma keep_sign_commit_vote:
  "fails_keep (guarded_sign_commit_vote cr l li)" "succeeds_keep (guarded_sign_commit_vote cr l li)"
  unfolding guarded_sign_commit_vote_def Let_def by (intro keep_intros)+

lemma keep_consensus_state:
  "fails_keep guarded_consensus_state" "succeeds_keep guarded_consensus_state"
  unfolding guarded_consensus_state_def by (intro keep_intros)+

section \<open>What a signature promises\<close>

lemma next_round_ok: "next_round r = Inr r' \<longleftrightarrow> unat r' = unat r + 1"
  by (simp add: next_round_def result_simps word_to_nat)

lemma safe_to_vote_ok:
  assumes "safe_to_vote b maybe_tc = Inr ()"
  shows "unat (b_round b) = unat (bi_round (certified_block (b_quorum_cert b))) + 1 \<or>
         (case maybe_tc of
            None \<Rightarrow> b_round b = 1
          | Some tc \<Rightarrow> unat (b_round b) = unat (tc_round tc) + 1 \<and>
              highest_hqc_round tc \<le> bi_round (certified_block (b_quorum_cert b)))"
  using assms
  by (auto simp: safe_to_vote_def Let_def result_simps next_round_ok word_unat_eq_iff split: if_splits option.splits)

lemma safe_to_timeout_ok:
  assumes "safe_to_timeout t maybe_tc d = Inr ()"
  shows "sd_one_chain_round d \<le> hqc_round t"
  using assms by (auto simp: safe_to_timeout_def Let_def result_simps)

lemma observe_qc_fields:
  "sd_epoch (snd (observe_qc qc d)) = sd_epoch d"
  "sd_last_voted_round (snd (observe_qc qc d)) = sd_last_voted_round d"
  "sd_one_chain_round (snd (observe_qc qc d)) = max (sd_one_chain_round d) (bi_round (certified_block qc))"
  "sd_preferred_round (snd (observe_qc qc d)) = max (sd_preferred_round d) (bi_round (parent_block qc))"
  "sd_last_vote (snd (observe_qc qc d)) = sd_last_vote d"
  by (auto simp: observe_qc_def Let_def max_def not_less split: if_splits)

text \<open>A vote that is cast, as opposed to one that is sent again: the checks it passed, its contents
  and the data stored for it.\<close>

record cast_facts =
  cf_data :: safety_data
  cf_epoch_state :: epoch_state
  cf_signer :: validator_signer

definition vote_cast ::
  "crypto \<Rightarrow> u64 \<Rightarrow> vote_proposal \<Rightarrow> two_chain_timeout_certificate option \<Rightarrow> safety_rules \<Rightarrow> vote \<Rightarrow>
     safety_rules \<Rightarrow> cast_facts \<Rightarrow> bool" where
  "vote_cast cr now p maybe_tc s v s' c \<longleftrightarrow>
     (let b = vp_block p; d = cf_data c; verifier = es_verifier (cf_epoch_state c) in
      stored s = Some d \<and> epoch_state_opt s = Some (cf_epoch_state c) \<and> validator_signer_opt s = Some (cf_signer c) \<and>
      sd_epoch d = b_epoch b \<and> qc_verify cr (b_quorum_cert b) verifier = Inr () \<and>
      validate_signature cr b verifier = Inr () \<and> verify_well_formed now b = Inr () \<and>
      (\<forall>tc. maybe_tc = Some tc \<longrightarrow> tc_verify cr tc verifier = Inr ()) \<and>
      gen_vote_data cr p = Inr (v_vote_data v) \<and>
      sd_last_voted_round d < b_round b \<and> safe_to_vote b maybe_tc = Inr () \<and>
      construct_ledger_info_2chain b (hash_vote_data cr (v_vote_data v)) = Inr (v_ledger_info v) \<and>
      v_author v = vs_author (cf_signer c) \<and>
      bls_sign cr (vs_private_key (cf_signer c)) (SignLedgerInfo (v_ledger_info v)) = Some (v_signature v) \<and>
      stored s' = Some ((snd (observe_qc (b_quorum_cert b) (d\<lparr>sd_last_voted_round := b_round b\<rparr>)))\<lparr>sd_last_vote := Some v\<rparr>))"

lemma verify_proposal_ok:
  assumes "verify_proposal cr now p s = (Inr vd, s')" and "coherent s"
  shows "keeps s s'"
    and "\<exists>d es. stored s = Some d \<and> epoch_state_opt s = Some es \<and> sd_epoch d = b_epoch (vp_block p) \<and>
      qc_verify cr (b_quorum_cert (vp_block p)) (es_verifier es) = Inr () \<and>
      validate_signature cr (vp_block p) (es_verifier es) = Inr () \<and>
      verify_well_formed now (vp_block p) = Inr () \<and> gen_vote_data cr p = Inr vd"
proof -
  show "keeps s s'" using assms(1) keep_verify_proposal(2) by (auto simp: succeeds_keep_def)
  from assms(1) obtain d s1 es where read: "on_storage pss_safety_data s = (Inr d, s1)"
    and e: "sd_epoch d = b_epoch (vp_block p)" and es: "epoch_state_opt s1 = Some es"
    and rest: "qc_verify cr (b_quorum_cert (vp_block p)) (es_verifier es) = Inr ()"
      "validate_signature cr (vp_block p) (es_verifier es) = Inr ()"
      "verify_well_formed now (vp_block p) = Inr ()" "gen_vote_data cr p = Inr vd"
    by (auto simp: verify_proposal_def Let_def result_simps verify_epoch_def verify_qc_def sr_epoch_state_def)
  have "stored s = Some d" "epoch_state_opt s = Some es"
    using pss_safety_data_read [OF read] assms(2) es by (auto simp: keeps_def)
  with e rest show "\<exists>d es. stored s = Some d \<and> epoch_state_opt s = Some es \<and> sd_epoch d = b_epoch (vp_block p) \<and>
      qc_verify cr (b_quorum_cert (vp_block p)) (es_verifier es) = Inr () \<and>
      validate_signature cr (vp_block p) (es_verifier es) = Inr () \<and>
      verify_well_formed now (vp_block p) = Inr () \<and> gen_vote_data cr p = Inr vd"
    by blast
qed

lemma stored_keeps: "coherent s \<Longrightarrow> keeps s s' \<Longrightarrow> stored s' = stored s"
  by (simp add: keeps_def stored_def)

lemma cast_vote_ok:
  assumes "cast_vote cr b vd maybe_tc d s = (Inr v, s')"
  shows "coherent s' \<and> validator_signer_opt s' = validator_signer_opt s \<and> epoch_state_opt s' = epoch_state_opt s \<and>
    (\<exists>signer. validator_signer_opt s = Some signer \<and> sd_last_voted_round d < b_round b \<and>
       safe_to_vote b maybe_tc = Inr () \<and> v_vote_data v = vd \<and>
       construct_ledger_info_2chain b (hash_vote_data cr vd) = Inr (v_ledger_info v) \<and> v_author v = vs_author signer \<and>
       bls_sign cr (vs_private_key signer) (SignLedgerInfo (v_ledger_info v)) = Some (v_signature v) \<and>
       stored s' = Some ((snd (observe_qc (b_quorum_cert b) (d\<lparr>sd_last_voted_round := b_round b\<rparr>)))\<lparr>sd_last_vote := Some v\<rparr>))"
proof -
  from assms obtain signer li sig d' where signer: "validator_signer_opt s = Some signer"
    and facts: "sd_last_voted_round d < b_round b" "safe_to_vote b maybe_tc = Inr ()"
      "construct_ledger_info_2chain b (hash_vote_data cr vd) = Inr li"
      "bls_sign cr (vs_private_key signer) (SignLedgerInfo li) = Some sig"
    and v: "v = vote_new_with_signature vd (vs_author signer) li sig"
    and d': "d' = (snd (observe_qc (b_quorum_cert b) (d\<lparr>sd_last_voted_round := b_round b\<rparr>)))\<lparr>sd_last_vote := Some v\<rparr>"
    and set: "on_storage (pss_set_safety_data d') s = (Inr (), s')"
    by (auto simp: cast_vote_def Let_def result_simps sr_signer_def sr_sign_def signer_sign_def
        verify_and_update_last_vote_round_def split: if_splits)
  show ?thesis
    using pss_set_safety_data_write(2) [OF set refl] signer facts
    unfolding d' by (auto simp: v vote_new_with_signature_def)
qed

lemma vote_ok:
  assumes "guarded_construct_and_sign_vote_two_chain cr now p maybe_tc s = (Inr v, s')" and coh: "coherent s"
  shows "coherent s' \<and> validator_signer_opt s' = validator_signer_opt s \<and> epoch_state_opt s' = epoch_state_opt s \<and>
    ((\<exists>d. stored s = Some d \<and> stored s' = Some d \<and> sd_last_vote d = Some v \<and> vote_round v = b_round (vp_block p)) \<or>
     (\<exists>c. vote_cast cr now p maybe_tc s v s' c))"
proof -
  from assms(1) obtain vd s1 d s2 where vp: "verify_proposal cr now p s = (Inr vd, s1)"
    and tc: "\<forall>tc. maybe_tc = Some tc \<longrightarrow> verify_tc cr tc s1 = Inr ()"
    and read: "on_storage pss_safety_data s1 = (Inr d, s2)"
    and fin: "(case sd_last_vote d of Some vote \<Rightarrow>
         if vote_round vote = b_round (vp_block p) then s_return vote else cast_vote cr (vp_block p) vd maybe_tc d
       | None \<Rightarrow> cast_vote cr (vp_block p) vd maybe_tc d) s2 = (Inr v, s')"
    by (auto simp: guarded_construct_and_sign_vote_two_chain_def result_simps split: option.splits)
  note k1 = verify_proposal_ok(1) [OF vp coh]
  then have coh1: "coherent s1" using coh by (simp add: keeps_def)
  note k2 = pss_safety_data_read(1) [OF read]
  have k: "keeps s s2" using k1 k2 by (rule keeps_trans)
  from verify_proposal_ok(2) [OF vp coh] obtain d0 es where d0: "stored s = Some d0" "epoch_state_opt s = Some es"
    "sd_epoch d0 = b_epoch (vp_block p)" "qc_verify cr (b_quorum_cert (vp_block p)) (es_verifier es) = Inr ()"
    "validate_signature cr (vp_block p) (es_verifier es) = Inr ()"
    "verify_well_formed now (vp_block p) = Inr ()" "gen_vote_data cr p = Inr vd"
    by blast
  have d: "stored s = Some d"
    using pss_safety_data_read(2) [OF read refl coh1] stored_keeps [OF coh k1] by simp
  have es1: "epoch_state_opt s1 = Some es" using k1 coh d0(2) by (simp add: keeps_def)
  show ?thesis
  proof (cases "\<exists>vote. sd_last_vote d = Some vote \<and> vote_round vote = b_round (vp_block p)")
    case True
    then have "sd_last_vote d = Some v" "vote_round v = b_round (vp_block p)" "s' = s2"
      using fin by (auto simp: result_simps split: option.splits if_splits)
    with k coh d stored_keeps [OF coh k] show ?thesis by (auto simp: keeps_def)
  next
    case False
    then have cast: "cast_vote cr (vp_block p) vd maybe_tc d s2 = (Inr v, s')"
      using fin by (auto split: option.splits if_splits)
    from cast_vote_ok [OF cast] k coh obtain signer where c: "validator_signer_opt s = Some signer"
      "sd_last_voted_round d < b_round (vp_block p)" "safe_to_vote (vp_block p) maybe_tc = Inr ()" "v_vote_data v = vd"
      "construct_ledger_info_2chain (vp_block p) (hash_vote_data cr vd) = Inr (v_ledger_info v)"
      "v_author v = vs_author signer" "bls_sign cr (vs_private_key signer) (SignLedgerInfo (v_ledger_info v)) = Some (v_signature v)"
      "stored s' = Some ((snd (observe_qc (b_quorum_cert (vp_block p)) (d\<lparr>sd_last_voted_round := b_round (vp_block p)\<rparr>)))\<lparr>sd_last_vote := Some v\<rparr>)"
      "coherent s'" "validator_signer_opt s' = validator_signer_opt s" "epoch_state_opt s' = epoch_state_opt s"
      by (auto simp: keeps_def)
    have "vote_cast cr now p maybe_tc s v s' \<lparr>cf_data = d, cf_epoch_state = es, cf_signer = signer\<rparr>"
      using c d d0 tc es1 by (auto simp: vote_cast_def Let_def verify_tc_def sr_epoch_state_def result_simps)
    with c show ?thesis by blast
  qed
qed

text \<open>Where a computation ends, whether it succeeds or fails.\<close>

definition ends :: "('s, 'e, 'a) smonad \<Rightarrow> 's \<Rightarrow> ('s \<Rightarrow> bool) \<Rightarrow> bool" where
  "ends m s K \<longleftrightarrow> K (snd (m s))"

lemma ends_pure:
  "K s \<Longrightarrow> ends (s_lift r) s K" "K s \<Longrightarrow> ends (s_gets g) s K" "K s \<Longrightarrow> ends (s_return x) s K" "K s \<Longrightarrow> ends (s_fail e) s K"
  by (simp_all add: ends_def s_lift_def s_gets_def s_return_def s_fail_def)

lemma ends_bind:
  assumes "\<And>e s1. m s = (Inl e, s1) \<Longrightarrow> K s1" and "\<And>x s1. m s = (Inr x, s1) \<Longrightarrow> ends (f x) s1 K"
  shows "ends (s_bind m f) s K"
  using assms by (auto simp: ends_def s_bind_def split: prod.splits sum.splits)

lemma ends_bind_pure:
  assumes "K s"
  shows "(\<And>x. r = Inr x \<Longrightarrow> ends (f x) s K) \<Longrightarrow> ends (s_bind (s_lift r) f) s K"
    and "(\<And>x. g s = Inr x \<Longrightarrow> ends (f x) s K) \<Longrightarrow> ends (s_bind (s_gets g) f) s K"
  using assms by (auto simp: ends_def s_bind_def s_lift_def s_gets_def split: sum.splits)

lemma ends_bind_tc:
  assumes "K s" and "ends (f ()) s K"
  shows "ends (s_bind (case maybe_tc of None \<Rightarrow> s_return () | Some tc \<Rightarrow> s_gets (verify_tc cr tc)) f) s K"
  using assms by (auto simp: ends_def s_bind_def s_return_def s_gets_def split: sum.splits option.splits)

lemma ends_bind_read:
  assumes "coherent s" and "\<And>s1. keeps s s1 \<Longrightarrow> K s1"
    and "\<And>d s1. keeps s s1 \<Longrightarrow> coherent s1 \<Longrightarrow> stored s1 = Some d \<Longrightarrow> ends (f d) s1 K"
  shows "ends (s_bind (on_storage pss_safety_data) f) s K"
proof (rule ends_bind)
  fix e s1 assume "on_storage pss_safety_data s = (Inl e, s1)"
  then show "K s1" using pss_safety_data_read(1) assms(2) by blast
next
  fix d s1 assume r: "on_storage pss_safety_data s = (Inr d, s1)"
  note k = pss_safety_data_read(1) [OF r]
  then have "coherent s1" using assms(1) by (simp add: keeps_def)
  moreover have "stored s1 = Some d" using pss_safety_data_read(2) [OF r refl assms(1)] stored_keeps [OF assms(1) k] by simp
  ultimately show "ends (f d) s1 K" using assms(3) k by blast
qed

lemma ends_bind_write:
  assumes "coherent s" and "\<And>s1. keeps s s1 \<Longrightarrow> K s1"
    and "\<And>s1. coherent s1 \<Longrightarrow> stored s1 = Some d \<Longrightarrow> validator_signer_opt s1 = validator_signer_opt s \<Longrightarrow>
        epoch_state_opt s1 = epoch_state_opt s \<Longrightarrow> ends (f ()) s1 K"
  shows "ends (s_bind (on_storage (pss_set_safety_data d)) f) s K"
  by (rule ends_bind) (use assms pss_set_safety_data_write in \<open>auto\<close>)

text \<open>Signing a timeout: the stored data may change even when signing fails afterwards.\<close>

lemma ends_timeout_tail:
  assumes "coherent s" and "\<And>u. keeps s u \<Longrightarrow> K u" and "stored s = Some d"
    and "\<And>u. sd_last_voted_round d < to_round t \<Longrightarrow> coherent u \<Longrightarrow> stored u = Some (d\<lparr>sd_last_voted_round := to_round t\<rparr>) \<Longrightarrow>
      validator_signer_opt u = validator_signer_opt s \<Longrightarrow> epoch_state_opt u = epoch_state_opt s \<Longrightarrow> K u"
  shows "ends (s_bind (if to_round t > sd_last_voted_round d
             then s_bind (s_lift (verify_and_update_last_vote_round (to_round t) d)) (\<lambda>d'.
                  on_storage (pss_set_safety_data d'))
             else s_return ()) (\<lambda>_. s_gets g)) s K"
proof (cases "to_round t > sd_last_voted_round d")
  case True
  then have u: "verify_and_update_last_vote_round (to_round t) d = Inr (d\<lparr>sd_last_voted_round := to_round t\<rparr>)"
    by (simp add: verify_and_update_last_vote_round_def not_le [symmetric])
  have "ends (s_bind (on_storage (pss_set_safety_data (d\<lparr>sd_last_voted_round := to_round t\<rparr>))) (\<lambda>_. s_gets g)) s K"
    by (rule ends_bind_write) (use assms True in \<open>auto intro: ends_pure\<close>)
  moreover have "s_bind (s_lift (Inr y)) f = f y" for y and f :: "safety_data \<Rightarrow> (safety_rules, safety_error, unit) smonad"
    by (rule ext) (simp add: s_bind_def s_lift_def)
  ultimately show ?thesis using True u by simp
next
  case False
  then show ?thesis using assms(2) by (auto simp: ends_def s_bind_def s_return_def s_gets_def)
qed

lemma timeout_ends:
  assumes coh: "coherent s" and K: "\<And>u. keeps s u \<Longrightarrow> K u"
    and upd: "\<And>u d. stored s = Some d \<Longrightarrow> sd_last_voted_round d < to_round t \<Longrightarrow> coherent u \<Longrightarrow>
      stored u = Some (d\<lparr>sd_last_voted_round := to_round t\<rparr>) \<Longrightarrow>
      validator_signer_opt u = validator_signer_opt s \<Longrightarrow> epoch_state_opt u = epoch_state_opt s \<Longrightarrow> K u"
  shows "ends (guarded_sign_timeout_with_qc cr t maybe_tc) s K"
  unfolding guarded_sign_timeout_with_qc_def
proof (intro ends_bind_pure(2) ends_bind_read K keeps_refl coh)
  fix d s1
  assume k: "keeps s s1" and c1: "coherent s1" and d: "stored s1 = Some d"
  have K1: "K u" if "keeps s1 u" for u using K keeps_trans [OF k that] .
  have ds: "stored s = Some d" "validator_signer_opt s1 = validator_signer_opt s" "epoch_state_opt s1 = epoch_state_opt s"
    using d k coh by (auto simp: keeps_def stored_def)
  show "ends (s_bind (s_lift (verify_epoch (to_epoch t) d)) (\<lambda>_.
     s_bind (s_gets sr_epoch_state) (\<lambda>es.
     s_bind (s_lift (map_err InvalidTimeout (timeout_verify cr t (es_verifier es)))) (\<lambda>_.
     s_bind (case maybe_tc of None \<Rightarrow> s_return () | Some tc \<Rightarrow> s_gets (verify_tc cr tc)) (\<lambda>_.
     s_bind (s_lift (safe_to_timeout t maybe_tc d)) (\<lambda>_.
     s_bind (s_lift (ensure (\<not> to_round t < sd_last_voted_round d)
               (IncorrectLastVotedRound (to_round t) (sd_last_voted_round d)))) (\<lambda>_.
     s_bind (if to_round t > sd_last_voted_round d
             then s_bind (s_lift (verify_and_update_last_vote_round (to_round t) d)) (\<lambda>d'.
                  on_storage (pss_set_safety_data d'))
             else s_return ()) (\<lambda>_.
     s_gets (sr_sign cr (SignTimeout (signing_format t))))))))))) s1 K"
    by (intro ends_bind_pure ends_bind_tc K1 [OF keeps_refl] ends_timeout_tail [OF c1 K1 d]) (use ds upd in auto)
qed

lemma timeout_effect:
  assumes "guarded_sign_timeout_with_qc cr t maybe_tc s = (r, s')" and coh: "coherent s"
  shows "coherent s' \<and> validator_signer_opt s' = validator_signer_opt s \<and> epoch_state_opt s' = epoch_state_opt s \<and>
    (stored s' = stored s \<or>
     (\<exists>d. stored s = Some d \<and> sd_last_voted_round d < to_round t \<and> stored s' = Some (d\<lparr>sd_last_voted_round := to_round t\<rparr>)))"
    (is "?K s'")
proof -
  have "ends (guarded_sign_timeout_with_qc cr t maybe_tc) s ?K"
    by (rule timeout_ends [OF coh]) (use coh in \<open>auto simp: keeps_def stored_def\<close>)
  then show ?thesis using assms(1) by (simp add: ends_def)
qed

text \<open>The signatures that are not votes.\<close>

lemma timeout_ok:
  assumes "guarded_sign_timeout_with_qc cr t maybe_tc s = (Inr sig, s')" and coh: "coherent s"
  shows "\<exists>d es signer. stored s = Some d \<and> epoch_state_opt s = Some es \<and> validator_signer_opt s = Some signer \<and>
    sd_epoch d = to_epoch t \<and> timeout_verify cr t (es_verifier es) = Inr () \<and>
    (\<forall>tc. maybe_tc = Some tc \<longrightarrow> tc_verify cr tc (es_verifier es) = Inr ()) \<and>
    sd_one_chain_round d \<le> hqc_round t \<and> sd_last_voted_round d \<le> to_round t \<and>
    bls_sign cr (vs_private_key signer) (SignTimeout (signing_format t)) = Some sig \<and>
    stored s' = Some (d\<lparr>sd_last_voted_round := to_round t\<rparr>)"
proof -
  from assms(1) obtain d s1 es where read: "on_storage pss_safety_data s = (Inr d, s1)"
    and es: "epoch_state_opt s1 = Some es"
    and facts: "sd_epoch d = to_epoch t" "timeout_verify cr t (es_verifier es) = Inr ()"
      "\<forall>tc. maybe_tc = Some tc \<longrightarrow> tc_verify cr tc (es_verifier es) = Inr ()"
      "safe_to_timeout t maybe_tc d = Inr ()" "sd_last_voted_round d \<le> to_round t"
    and upd: "if to_round t > sd_last_voted_round d
        then on_storage (pss_set_safety_data (d\<lparr>sd_last_voted_round := to_round t\<rparr>)) s1 = (Inr (), s') else s' = s1"
    and sig: "sr_sign cr (SignTimeout (signing_format t)) s' = Inr sig"
    by (auto simp: guarded_sign_timeout_with_qc_def result_simps verify_epoch_def verify_tc_def sr_epoch_state_def
        verify_and_update_last_vote_round_def not_less split: option.splits if_splits)
  note k = pss_safety_data_read(1) [OF read]
  have d: "stored s = Some d" "epoch_state_opt s = Some es"
    using pss_safety_data_read(2) [OF read refl coh] k coh es by (auto simp: keeps_def)
  have d1: "stored s1 = Some d" using stored_keeps [OF coh k] d by simp
  have new: "stored s' = Some (d\<lparr>sd_last_voted_round := to_round t\<rparr>)"
  proof (cases "to_round t > sd_last_voted_round d")
    case True
    with upd show ?thesis using pss_set_safety_data_write(2) [OF _ refl] by auto
  next
    case False
    with facts(5) have "sd_last_voted_round d = to_round t" by simp
    then have "d\<lparr>sd_last_voted_round := to_round t\<rparr> = d" by (cases d) simp
    with False upd d1 show ?thesis by simp
  qed
  have "validator_signer_opt s' = validator_signer_opt s" using timeout_effect [OF assms] by simp
  with sig obtain signer where "validator_signer_opt s = Some signer"
    "bls_sign cr (vs_private_key signer) (SignTimeout (signing_format t)) = Some sig"
    by (auto simp: sr_sign_def sr_signer_def signer_sign_def result_simps)
  with d facts new safe_to_timeout_ok [OF facts(4)] show ?thesis by blast
qed

lemma commit_vote_ok:
  assumes "guarded_sign_commit_vote cr l li s = (Inr sig, s')"
  shows "s' = s \<and> (\<exists>es signer. epoch_state_opt s = Some es \<and> validator_signer_opt s = Some signer \<and>
    is_ordered_only (li_commit_info (lis_ledger_info l)) \<and>
    match_ordered_only (li_commit_info (lis_ledger_info l)) (li_commit_info li) \<and>
    lis_verify_signatures cr l (es_verifier es) = Inr () \<and>
    bls_sign cr (vs_private_key signer) (SignLedgerInfo li) = Some sig)"
  using assms
  by (auto simp: guarded_sign_commit_vote_def Let_def result_simps sr_epoch_state_def sr_signer_def sr_sign_def signer_sign_def)

text \<open>\<open>initialize\<close> leaves the safety data alone or resets it for a later epoch.\<close>

definition epoch_moves :: "safety_rules \<Rightarrow> safety_rules \<Rightarrow> bool" where
  "epoch_moves s s' \<longleftrightarrow>
     coherent s' \<and>
     (stored s' = stored s \<or>
      (\<exists>d e. stored s = Some d \<and> sd_epoch d < e \<and> stored s' = Some (safety_data_new e 0 0 0 None)))"

definition same_data :: "safety_rules \<Rightarrow> safety_rules \<Rightarrow> bool" where
  "same_data s s' \<longleftrightarrow> coherent s' \<and> stored s' = stored s"

lemma same_data_set_waypoint:
  assumes "on_storage (pss_set_waypoint w) s = (r, s')" and "coherent s"
  shows "same_data s s'"
  using assms
  by (auto simp: on_storage_def pss_set_waypoint_def from_storage_def storage_set_def same_data_def coherent_def stored_def
      split: option.splits)

lemma same_data_reconcile_key:
  assumes "coherent s"
  shows "same_data s (snd (reconcile_key cr es author s))"
proof -
  have "same_data s (s\<lparr>validator_signer_opt := x\<rparr>)" "same_data s s" for x
    using assms by (simp_all add: same_data_def coherent_def stored_def)
  then show ?thesis
    by (auto simp: reconcile_key_def split: option.splits sum.splits fault.splits safety_error.splits)
qed

lemma ends_start_epoch:
  assumes "coherent s"
  shows "ends (start_epoch w new_w es) s (\<lambda>u. epoch_moves s u)"
  unfolding start_epoch_def
proof (rule ends_bind_read [OF assms])
  fix s1 assume "keeps s s1"
  with assms show "epoch_moves s s1" by (simp add: keeps_def epoch_moves_def stored_def)
next
  fix d s1 assume k: "keeps s s1" and c: "coherent s1" and d: "stored s1 = Some d"
  then have s: "stored s = Some d" using assms by (simp add: keeps_def stored_def)
  have same: "epoch_moves s s1" using c d s by (simp add: epoch_moves_def)
  have "epoch_moves s (snd (on_storage (pss_set_safety_data (safety_data_new (es_epoch es) 0 0 0 None)) s1))"
    if lt: "sd_epoch d < es_epoch es"
  proof -
    obtain r u where w: "on_storage (pss_set_safety_data (safety_data_new (es_epoch es) 0 0 0 None)) s1 = (r, u)"
      by fastforce
    show ?thesis
    proof (cases r)
      case (Inl e)
      from pss_set_safety_data_write(1) [OF w Inl] c d s w show ?thesis by (auto simp: keeps_def epoch_moves_def stored_def)
    next
      case (Inr x)
      from pss_set_safety_data_write(2) [OF w Inr] s lt w show ?thesis by (auto simp: epoch_moves_def)
    qed
  qed
  with same show "ends (if es_epoch es < sd_epoch d then s_fail (WaypointOutOfDate (wp_version w) (wp_version new_w) (sd_epoch d) (es_epoch es))
      else if sd_epoch d < es_epoch es then on_storage (pss_set_safety_data (safety_data_new (es_epoch es) 0 0 0 None))
      else s_return ()) s1 (epoch_moves s)"
    by (auto simp: ends_def s_fail_def s_return_def)
qed

lemma epoch_moves_trans:
  "same_data s t \<Longrightarrow> epoch_moves t u \<Longrightarrow> epoch_moves s u" "epoch_moves s t \<Longrightarrow> same_data t u \<Longrightarrow> epoch_moves s u"
  by (auto simp: same_data_def epoch_moves_def)

lemma initialize_effect:
  assumes "coherent s"
  shows "ends (guarded_initialize cr p) s (epoch_moves s)"
proof -
  have refl: "epoch_moves s s" using assms by (simp add: epoch_moves_def)
  have tail: "ends (s_bind (s_modify (epoch_state_opt_update (\<lambda>_. Some es))) (\<lambda>_.
     s_bind (s_gets (\<lambda>s. pss_author (persistent_storage s))) (\<lambda>author. reconcile_key cr es author))) u (epoch_moves s)"
    if u: "epoch_moves s u" for u es
  proof -
    let ?u = "u\<lparr>epoch_state_opt := Some es\<rparr>"
    have c: "coherent u" using u by (simp add: epoch_moves_def)
    have "same_data u ?u" using c by (simp add: same_data_def coherent_def stored_def)
    then have u': "epoch_moves s ?u" "coherent ?u" using epoch_moves_trans(2) [OF u] by (auto simp: epoch_moves_def)
    have "epoch_moves s (snd (reconcile_key cr es a ?u))" for a
      using epoch_moves_trans(2) [OF u'(1) same_data_reconcile_key [OF u'(2)]] .
    with u' show ?thesis by (auto simp: ends_def s_bind_def s_modify_def s_gets_def split: sum.splits)
  qed
  have mid: "ends (s_bind (start_epoch w new_w es) (\<lambda>_.
     s_bind (s_modify (epoch_state_opt_update (\<lambda>_. Some es))) (\<lambda>_.
     s_bind (s_gets (\<lambda>s. pss_author (persistent_storage s))) (\<lambda>author. reconcile_key cr es author)))) s1 (epoch_moves s)"
    if s1: "same_data s s1" for s1 w new_w es
  proof -
    have c1: "coherent s1" using s1 by (simp add: same_data_def)
    have "epoch_moves s (snd (start_epoch w new_w es s1))"
      using ends_start_epoch [OF c1] epoch_moves_trans(1) [OF s1] by (simp add: ends_def)
    then show ?thesis by (intro ends_bind tail) auto
  qed
  have wp: "ends (s_bind (if wp_version w < wp_version new_w then on_storage (pss_set_waypoint new_w) else s_return ()) (\<lambda>_.
     s_bind (start_epoch w new_w es) (\<lambda>_.
     s_bind (s_modify (epoch_state_opt_update (\<lambda>_. Some es))) (\<lambda>_.
     s_bind (s_gets (\<lambda>s. pss_author (persistent_storage s))) (\<lambda>author. reconcile_key cr es author))))) s (epoch_moves s)"
    for w new_w es
  proof -
    let ?m = "if wp_version w < wp_version new_w then on_storage (pss_set_waypoint new_w) else s_return ()"
    have "same_data s s1" if "?m s = (r, s1)" for r s1
      using that same_data_set_waypoint [OF _ assms] assms by (auto simp: s_return_def same_data_def split: if_splits)
    moreover have "epoch_moves s s1" if "same_data s s1" for s1
      using that by (simp add: same_data_def epoch_moves_def)
    ultimately show ?thesis by (blast intro: ends_bind mid)
  qed
  show ?thesis unfolding guarded_initialize_def by (intro ends_bind_pure refl wp)
qed

section \<open>The service\<close>

text \<open>The requests of serializer.rs and the answers to them. The JSON encoding of requests and answers is left
  out.\<close>

datatype safety_rules_input =
    ConsensusState
  | Initialize epoch_change_proof
  | SignProposal block_data
  | SignTimeoutWithQC two_chain_timeout "two_chain_timeout_certificate option"
  | ConstructAndSignVoteTwoChain vote_proposal "two_chain_timeout_certificate option"
  | SignCommitVote ledger_info_with_signatures ledger_info

datatype safety_rules_output =
    StateAnswer consensus_state
  | InitializeAnswer
  | SignatureAnswer bls_signature
  | VoteAnswer vote

definition s_map :: "('a \<Rightarrow> 'b) \<Rightarrow> ('s, 'e, 'a) smonad \<Rightarrow> ('s, 'e, 'b) smonad" where
  "s_map f m = s_bind m (\<lambda>x. s_return (f x))"

fun handle_message :: "crypto \<Rightarrow> u64 \<Rightarrow> safety_rules_input \<Rightarrow> (safety_rules, safety_error, safety_rules_output) smonad" where
  "handle_message cr now ConsensusState = s_map StateAnswer guarded_consensus_state"
| "handle_message cr now (Initialize li) = s_map (\<lambda>_. InitializeAnswer) (guarded_initialize cr li)"
| "handle_message cr now (SignProposal bd) = s_map SignatureAnswer (guarded_sign_proposal cr bd)"
| "handle_message cr now (SignTimeoutWithQC timeout maybe_tc) =
     s_map SignatureAnswer (guarded_sign_timeout_with_qc cr timeout maybe_tc)"
| "handle_message cr now (ConstructAndSignVoteTwoChain p maybe_tc) =
     s_map VoteAnswer (guarded_construct_and_sign_vote_two_chain cr now p maybe_tc)"
| "handle_message cr now (SignCommitVote l new_li) = s_map SignatureAnswer (guarded_sign_commit_vote cr l new_li)"

definition votes_of :: "(safety_error, safety_rules_output) result \<Rightarrow> vote list" where
  "votes_of r = (case r of Inr (VoteAnswer v) \<Rightarrow> [v] | _ \<Rightarrow> [])"

text \<open>A validator serves any sequence of requests. In between, its storage may start and stop failing, and the
  process may be restarted on the same storage, with the volatile state lost.\<close>

definition restart :: "bool \<Rightarrow> safety_rules \<Rightarrow> safety_rules" where
  "restart caching s = safety_rules_new (pss_new (internal_store (persistent_storage s)) caching)"

definition set_fault :: "storage_error option \<Rightarrow> safety_rules \<Rightarrow> safety_rules" where
  "set_fault f = persistent_storage_update (internal_store_update (st_fault_update (\<lambda>_. f)))"

inductive served :: "crypto \<Rightarrow> safety_rules \<Rightarrow> vote list \<Rightarrow> safety_rules \<Rightarrow> bool" for cr s where
  served_start: "served cr s [] s"
| served_request: "served cr s vs s1 \<Longrightarrow> handle_message cr now input s1 = (r, s2) \<Longrightarrow> served cr s (vs @ votes_of r) s2"
| served_fault: "served cr s vs s1 \<Longrightarrow> served cr s vs (set_fault f s1)"
| served_restart: "served cr s vs s1 \<Longrightarrow> served cr s vs (restart caching s1)"

text \<open>The order in which safety data may change: to a later epoch, or within the epoch to higher rounds.\<close>

definition safety_data_le :: "safety_data \<Rightarrow> safety_data \<Rightarrow> bool" where
  "safety_data_le d d' \<longleftrightarrow>
     sd_epoch d < sd_epoch d' \<or>
     sd_epoch d = sd_epoch d' \<and> sd_last_voted_round d \<le> sd_last_voted_round d' \<and>
       sd_preferred_round d \<le> sd_preferred_round d' \<and> sd_one_chain_round d \<le> sd_one_chain_round d'"

text \<open>The vote that is kept belongs to the epoch and to a round that counts as voted.\<close>

definition safety_data_wf :: "safety_data \<Rightarrow> bool" where
  "safety_data_wf d \<longleftrightarrow>
     (\<forall>v. sd_last_vote d = Some v \<longrightarrow> vote_epoch v = sd_epoch d \<and> vote_round v \<le> sd_last_voted_round d)"

lemma safety_data_le_refl: "safety_data_le d d"
  by (simp add: safety_data_le_def)

lemma safety_data_le_trans: "safety_data_le d e \<Longrightarrow> safety_data_le e f \<Longrightarrow> safety_data_le d f"
  by (auto simp: safety_data_le_def)

lemma s_map_cases:
  assumes "s_map f m s = (r, s')"
  obtains e where "m s = (Inl e, s')" "r = Inl e" | x where "m s = (Inr x, s')" "r = Inr (f x)"
  using assms by (auto simp: s_map_def s_bind_def s_return_def split: prod.splits sum.splits)

text \<open>A cast vote is for the proposed block.\<close>

lemma gen_vote_data_proposed:
  assumes "gen_vote_data cr p = Inr vd"
  shows "bi_epoch (vd_proposed vd) = b_epoch (vp_block p)" "bi_round (vd_proposed vd) = b_round (vp_block p)"
    "bi_id (vd_proposed vd) = b_id (vp_block p)" "vd_parent vd = certified_block (b_quorum_cert (vp_block p))"
  using assms
  by (auto simp: gen_vote_data_def vote_data_ordering_only_def vote_data_with_extension_proof_def gen_block_info_def
      Let_def result_simps split: if_splits)

text \<open>One step of the service on the stored data, with the votes it answers.\<close>

definition data_step :: "safety_data \<Rightarrow> vote list \<Rightarrow> safety_data \<Rightarrow> bool" where
  "data_step d vs d' \<longleftrightarrow>
     (vs = [] \<and>
      (d' = d \<or> (\<exists>r. sd_last_voted_round d < r \<and> d' = d\<lparr>sd_last_voted_round := r\<rparr>) \<or>
       (\<exists>e. sd_epoch d < e \<and> d' = safety_data_new e 0 0 0 None))) \<or>
     (\<exists>v. vs = [v] \<and> (d' = d \<and> sd_last_vote d = Some v \<or>
       sd_last_voted_round d < vote_round v \<and> vote_epoch v = sd_epoch d \<and> sd_epoch d' = sd_epoch d \<and>
       sd_last_voted_round d' = vote_round v \<and> sd_last_vote d' = Some v \<and>
       sd_one_chain_round d' = max (sd_one_chain_round d) (bi_round (vd_parent (v_vote_data v))) \<and>
       sd_preferred_round d \<le> sd_preferred_round d'))"

lemma keeps_data_step:
  "keeps s s' \<Longrightarrow> coherent s \<Longrightarrow> stored s = Some d \<Longrightarrow> coherent s' \<and> (\<exists>d'. stored s' = Some d' \<and> data_step d [] d')"
  by (auto simp: keeps_def stored_def data_step_def)

lemma vote_data_step:
  assumes "guarded_construct_and_sign_vote_two_chain cr now p maybe_tc s = (Inr v, s')" and "coherent s" and "stored s = Some d"
  shows "coherent s' \<and> (\<exists>d'. stored s' = Some d' \<and> data_step d [v] d')"
proof -
  from vote_ok [OF assms(1,2)] consider "stored s' = Some d" "sd_last_vote d = Some v" "coherent s'"
    | c where "vote_cast cr now p maybe_tc s v s' c" "coherent s'"
    using assms(3) by auto
  then show ?thesis
  proof cases
    case 1
    then show ?thesis by (auto simp: data_step_def)
  next
    case (2 c)
    then have g: "gen_vote_data cr p = Inr (v_vote_data v)" by (simp add: vote_cast_def Let_def)
    from 2 assms(3) gen_vote_data_proposed [OF g] show ?thesis
      by (auto simp: vote_cast_def Let_def data_step_def observe_qc_fields vote_round_def vote_epoch_def)
  qed
qed

lemma handle_message_step:
  assumes "handle_message cr now input s = (r, s')" and coh: "coherent s" and d: "stored s = Some d"
  shows "coherent s' \<and> (\<exists>d'. stored s' = Some d' \<and> data_step d (votes_of r) d')"
proof (cases input)
  case ConsensusState
  with assms(1) have "keeps s s' \<and> votes_of r = []"
    using keep_consensus_state by (auto simp: votes_of_def fails_keep_def succeeds_keep_def elim!: s_map_cases)
  then show ?thesis using keeps_data_step [OF _ coh d] by simp
next
  case (Initialize p)
  with assms(1) have "snd (guarded_initialize cr p s) = s' \<and> votes_of r = []"
    by (auto simp: votes_of_def elim!: s_map_cases)
  with initialize_effect [OF coh, of cr p] d show ?thesis by (auto simp: ends_def epoch_moves_def data_step_def)
next
  case (SignProposal bd)
  with assms(1) have "keeps s s' \<and> votes_of r = []"
    using keep_sign_proposal by (auto simp: votes_of_def fails_keep_def succeeds_keep_def elim!: s_map_cases)
  then show ?thesis using keeps_data_step [OF _ coh d] by simp
next
  case (SignTimeoutWithQC t maybe_tc)
  with assms(1) obtain q where q: "guarded_sign_timeout_with_qc cr t maybe_tc s = (q, s')" "votes_of r = []"
    by (auto simp: votes_of_def elim!: s_map_cases)
  from timeout_effect [OF q(1) coh] d q(2) show ?thesis by (auto simp: data_step_def)
next
  case (ConstructAndSignVoteTwoChain p maybe_tc)
  with assms(1) show ?thesis
  proof (auto elim!: s_map_cases)
    fix e assume "guarded_construct_and_sign_vote_two_chain cr now p maybe_tc s = (Inl e, s')"
    then have "keeps s s'" using fails_keep_vote by (auto simp: fails_keep_def)
    from keeps_data_step [OF this coh d] show "coherent s'" "\<exists>d'. stored s' = Some d' \<and> data_step d (votes_of (Inl e)) d'"
      by (auto simp: votes_of_def)
  next
    fix v assume "guarded_construct_and_sign_vote_two_chain cr now p maybe_tc s = (Inr v, s')"
    from vote_data_step [OF this coh d]
    show "coherent s'" "\<exists>d'. stored s' = Some d' \<and> data_step d (votes_of (Inr (VoteAnswer v))) d'"
      by (auto simp: votes_of_def)
  qed
next
  case (SignCommitVote l li)
  with assms(1) have "keeps s s' \<and> votes_of r = []"
    using keep_sign_commit_vote by (auto simp: votes_of_def fails_keep_def succeeds_keep_def elim!: s_map_cases)
  then show ?thesis using keeps_data_step [OF _ coh d] by simp
qed

lemma data_step_le: "data_step d vs d' \<Longrightarrow> safety_data_le d d'"
  by (auto simp: data_step_def safety_data_le_def safety_data_new_def)

lemma environment_keeps:
  "coherent s \<Longrightarrow> coherent (set_fault f s)" "stored (set_fault f s) = stored s"
  "coherent (restart caching s)" "stored (restart caching s) = stored s"
  by (simp_all add: coherent_def stored_def set_fault_def restart_def safety_rules_new_def pss_new_def)

text \<open>The invariant of a run: the votes so far lie within the stored data and there is one per epoch and round.\<close>

definition votes_inv :: "vote list \<Rightarrow> safety_data \<Rightarrow> bool" where
  "votes_inv vs d \<longleftrightarrow>
     safety_data_wf d \<and>
     (\<forall>v\<in>set vs. vote_epoch v < sd_epoch d \<or> vote_epoch v = sd_epoch d \<and> vote_round v \<le> sd_last_voted_round d) \<and>
     (\<forall>v\<in>set vs \<union> set_option (sd_last_vote d). \<forall>w\<in>set vs \<union> set_option (sd_last_vote d).
        vote_epoch v = vote_epoch w \<and> vote_round v = vote_round w \<longrightarrow> v = w)"

lemma votes_inv_step:
  assumes inv: "votes_inv vs d" and step: "data_step d new d'"
  shows "votes_inv (vs @ new) d'"
proof -
  from step consider (same) "new = []" "d' = d"
    | (timeout) r where "new = []" "sd_last_voted_round d < r" "d' = d\<lparr>sd_last_voted_round := r\<rparr>"
    | (epoch) e where "new = []" "sd_epoch d < e" "d' = safety_data_new e 0 0 0 None"
    | (again) v where "new = [v]" "d' = d" "sd_last_vote d = Some v"
    | (cast) v where "new = [v]" "sd_last_voted_round d < vote_round v" "vote_epoch v = sd_epoch d" "sd_epoch d' = sd_epoch d"
        "sd_last_voted_round d' = vote_round v" "sd_last_vote d' = Some v"
    unfolding data_step_def by blast
  then show ?thesis
  proof cases
    case same
    with inv show ?thesis by simp
  next
    case timeout
    with inv show ?thesis by (auto simp: votes_inv_def safety_data_wf_def)
  next
    case epoch
    with inv show ?thesis by (auto simp: votes_inv_def safety_data_wf_def safety_data_new_def)
  next
    case again
    with inv show ?thesis by (auto simp: votes_inv_def safety_data_wf_def)
  next
    case cast
    have fresh: "\<not> (vote_epoch w = vote_epoch v \<and> vote_round w = vote_round v)" if "w \<in> set vs" for w
      using inv that cast by (auto simp: votes_inv_def)
    have range: "vote_epoch w < sd_epoch d' \<or> vote_epoch w = sd_epoch d' \<and> vote_round w \<le> sd_last_voted_round d'"
      if "w \<in> set (vs @ new)" for w
    proof (cases "w = v")
      case False
      with that cast have "w \<in> set vs" by simp
      with inv have "vote_epoch w < sd_epoch d \<or> vote_epoch w = sd_epoch d \<and> vote_round w \<le> sd_last_voted_round d"
        by (simp add: votes_inv_def)
      with cast show ?thesis by force
    qed (simp add: cast)
    have unique: "w = u" if "w \<in> insert v (set vs)" "u \<in> insert v (set vs)" "vote_epoch w = vote_epoch u"
      "vote_round w = vote_round u" for w u
      using that fresh [of w] fresh [of u] inv by (auto simp: votes_inv_def)
    have "safety_data_wf d'" using cast by (simp add: safety_data_wf_def)
    moreover have "set (vs @ new) \<union> set_option (sd_last_vote d') = insert v (set vs)" using cast by auto
    ultimately show ?thesis unfolding votes_inv_def using range unique by auto
  qed
qed

lemma served_inv:
  assumes "served cr s vs s'" and "coherent s" and "stored s = Some d" and "safety_data_wf d"
  shows "coherent s' \<and> (\<exists>d'. stored s' = Some d' \<and> safety_data_le d d' \<and> votes_inv vs d')"
  using assms
proof (induction rule: served.induct)
  case served_start
  then show ?case by (auto simp: votes_inv_def safety_data_le_refl)
next
  case (served_request vs s1 now input r s2)
  then obtain d1 where d1: "coherent s1" "stored s1 = Some d1" "safety_data_le d d1" "votes_inv vs d1" by blast
  from handle_message_step [OF served_request.hyps(2) d1(1,2)]
  obtain d2 where "coherent s2" "stored s2 = Some d2" "data_step d1 (votes_of r) d2" by blast
  with d1 votes_inv_step data_step_le show ?case by (blast intro: safety_data_le_trans)
next
  case served_fault
  then show ?case by (simp add: environment_keeps)
next
  case served_restart
  then show ?case by (simp add: environment_keeps)
qed

section \<open>Sample runs\<close>

text \<open>A chain of blocks in consecutive rounds with their certificates, and the states of a validator that votes for
  them one after the other.\<close>

definition sample_proposal :: "round \<Rightarrow> vote_proposal" where
  "sample_proposal r = \<lparr>vp_accumulator_extension_proof = \<lparr>ext_frozen_subtree_roots = [], ext_num_leaves = 0, ext_leaves = []\<rparr>,
     vp_block = sample_block r, vp_next_epoch_state = None, vp_decoupled_execution = True\<rparr>"

definition sample_vote :: "account_address \<Rightarrow> round \<Rightarrow> vote" where
  "sample_vote a r = vote_new_with_signature (sample_vote_data r) a (sample_vote_info r) (ucast a)"

definition sample_data :: "account_address \<Rightarrow> round \<Rightarrow> safety_data" where
  "sample_data a r = \<lparr>sd_epoch = 1, sd_last_voted_round = r, sd_preferred_round = before (before r),
     sd_one_chain_round = before r, sd_last_vote = (if r = 0 then None else Some (sample_vote a r))\<rparr>"

definition sample_rules :: "account_address \<Rightarrow> round \<Rightarrow> safety_rules" where
  "sample_rules a r = \<lparr>persistent_storage = \<lparr>enable_cached_safety_data = True, cached_safety_data = Some (sample_data a r),
       internal_store = \<lparr>st_owner_account = Some a, st_consensus_key = Some (ucast a), st_safety_data = Some (sample_data a r),
         st_waypoint = Some sample_waypoint, st_fault = None\<rparr>\<rparr>,
     validator_signer_opt = Some \<lparr>vs_author = a, vs_private_key = ucast a\<rparr>,
     epoch_state_opt = Some \<lparr>es_epoch = 1, es_verifier = sample_verifier\<rparr>\<rparr>"


lemma before_next: "r \<noteq> 0 \<Longrightarrow> next_round (before r) = Inr r"
  using checked_before by (simp add: next_round_def ok_or_def)

lemma sample_verify_proposal:
  assumes "r \<noteq> 0" and "r \<le> 300000000"
  shows "verify_proposal sample_crypto 0 (sample_proposal r) (sample_rules a q) = (Inr (sample_vote_data r), sample_rules a q)"
  using sample_well_formed [OF assms]
  by (simp add: verify_proposal_def Let_def s_bind_def s_lift_def s_gets_def on_storage_def pss_safety_data_def sample_rules_def
      sample_proposal_def sample_data_def verify_epoch_def verify_qc_def sr_epoch_state_def ok_or_def
      sample_validate_signature gen_vote_data_def vote_data_ordering_only_def sample_vote_data_def gen_block_info_def
      sample_info_def)

lemma sample_cast_vote:
  assumes "r \<noteq> 0"
  shows "cast_vote sample_crypto (sample_block r) (sample_vote_data r) None (sample_data a (before r)) (sample_rules a (before r)) =
    (Inr (sample_vote a r), sample_rules a r)"
proof -
  have r: "\<not> r \<le> before r" using before_less [OF assms] by simp
  have safe: "safe_to_vote (sample_block r) None = Inr ()"
    using before_next [OF assms] by (simp add: safe_to_vote_def Let_def)
  have li: "construct_ledger_info_2chain (sample_block r) (hash_vote_data sample_crypto (sample_vote_data r)) = Inr (sample_vote_info r)"
    using before_next [OF assms] assms
    by (simp add: construct_ledger_info_2chain_def sample_vote_info_def sample_crypto_fields sample_vote_data_def)
  have mono: "before q \<le> q" for q
    using before_less [of q] by (cases "q = 0") (simp_all add: before_def)
  have obs: "snd (observe_qc (sample_qc (before r)) (sample_data a (before r)\<lparr>sd_last_voted_round := r\<rparr>))\<lparr>sd_last_vote := Some (sample_vote a r)\<rparr> =
      sample_data a r"
    using mono [of "before r"] mono [of "before (before r)"] assms
    by (intro safety_data.equality) (simp_all add: observe_qc_fields sample_data_def max_absorb2)
  have last: "sd_last_voted_round (sample_data a (before r)) = before r" by (simp add: sample_data_def)
  show ?thesis
    using r obs last
    by (simp add: cast_vote_def Let_def s_bind_def s_lift_def s_gets_def safe li sr_sign_def sr_signer_def signer_sign_def ok_or_def
      verify_and_update_last_vote_round_def sample_crypto_fields(3)
      sample_rules_def on_storage_def pss_set_safety_data_def storage_set_def s_return_def sample_vote_def)
qed

lemma sample_vote_step:
  assumes "r \<noteq> 0" and "r \<le> 300000000"
  shows "handle_message sample_crypto 0 (ConstructAndSignVoteTwoChain (sample_proposal r) None) (sample_rules a (before r)) =
    (Inr (VoteAnswer (sample_vote a r)), sample_rules a r)"
proof -
  have signer: "sr_signer (sample_rules a (before r)) = Inr \<lparr>vs_author = a, vs_private_key = ucast a\<rparr>"
    by (simp add: sr_signer_def sample_rules_def ok_or_def)
  have read: "on_storage pss_safety_data (sample_rules a (before r)) = (Inr (sample_data a (before r)), sample_rules a (before r))"
    by (simp add: on_storage_def pss_safety_data_def sample_rules_def Let_def)
  have fresh: "case sd_last_vote (sample_data a (before r)) of None \<Rightarrow> True | Some v \<Rightarrow> vote_round v \<noteq> r"
    using before_less [OF assms(1)]
    by (auto simp: sample_data_def sample_vote_def vote_round_def vote_new_with_signature_def sample_vote_data_def)
  have "vp_block (sample_proposal r) = sample_block r" by (simp add: sample_proposal_def)
  then show ?thesis
    using fresh
    by (auto simp: s_map_def guarded_construct_and_sign_vote_two_chain_def s_bind_def s_gets_def s_return_def signer
        sample_verify_proposal [OF assms] read sample_cast_vote [OF assms(1)] split: option.splits)
qed

lemma sample_rules_ok: "coherent (sample_rules a r)" "stored (sample_rules a r) = Some (sample_data a r)" "safety_data_wf (sample_data a r)"
  by (simp_all add: coherent_def stored_def sample_rules_def safety_data_wf_def sample_data_def sample_vote_def
      vote_epoch_def vote_round_def vote_new_with_signature_def sample_vote_data_def)

lemma sample_before: "before 1 = 0" "before 2 = 1" "before 3 = 2"
  by (simp_all add: before_def)

lemma sample_served: "served sample_crypto (sample_rules a 0) [sample_vote a 1, sample_vote a 2] (sample_rules a 2)"
proof -
  have 1: "served sample_crypto (sample_rules a 0) ([] @ votes_of (Inr (VoteAnswer (sample_vote a 1)))) (sample_rules a 1)"
    by (rule served_request [OF served_start sample_vote_step [of 1, unfolded sample_before]]) simp_all
  have "served sample_crypto (sample_rules a 0)
      (([] @ votes_of (Inr (VoteAnswer (sample_vote a 1)))) @ votes_of (Inr (VoteAnswer (sample_vote a 2)))) (sample_rules a 2)"
    by (rule served_request [OF 1 sample_vote_step [of 2, unfolded sample_before]]) simp_all
  then show ?thesis by (simp add: votes_of_def)
qed

text \<open>C2. A validator never signs two different votes for one epoch and round, whatever requests it serves, whenever
  its storage fails and however often it is restarted on that storage.\<close>

theorem one_vote_per_round:
  assumes "served cr s vs s'" and "coherent s" and "stored s = Some d" and "safety_data_wf d"
  shows "inj_on (\<lambda>v. (vote_epoch v, vote_round v)) (set vs)"
  using served_inv [OF assms] by (fastforce simp: votes_inv_def inj_on_def)

theorem one_vote_per_round_witness:
  "inj_on (\<lambda>v. (vote_epoch v, vote_round v)) (set [sample_vote 1 1, sample_vote 1 2])"
  by (rule one_vote_per_round [OF sample_served sample_rules_ok])

text \<open>C5. What is stored never goes back: after any run the stored epoch is higher, or it is the same and none of the
  last voted, preferred and one-chain rounds is lower.\<close>

theorem safety_data_never_regresses:
  assumes "served cr s vs s'" and "coherent s" and "stored s = Some d" and "safety_data_wf d"
  shows "\<exists>d'. stored s' = Some d' \<and> safety_data_le d d'"
  using served_inv [OF assms] by blast

theorem safety_data_never_regresses_witness:
  "\<exists>d'. stored (sample_rules 1 2) = Some d' \<and> safety_data_le (sample_data 1 0) d'"
  by (rule safety_data_never_regresses [OF sample_served sample_rules_ok])

lemma construct_ledger_info_ok:
  assumes "construct_ledger_info_2chain b h = Inr li"
  shows "li = \<lparr>li_commit_info =
      (if unat (b_round b) = unat (bi_round (certified_block (b_quorum_cert b))) + 1 then certified_block (b_quorum_cert b)
       else block_info_empty), li_consensus_data_hash = h\<rparr>"
proof -
  from assms obtain r where r:  "unat r = unat (bi_round (certified_block (b_quorum_cert b))) + 1"
    and li: "li = \<lparr>li_commit_info = (if r = b_round b then certified_block (b_quorum_cert b) else block_info_empty),
      li_consensus_data_hash = h\<rparr>"
    unfolding construct_ledger_info_2chain_def and_then_Inr next_round_ok by blast
  have "r = b_round b \<longleftrightarrow> unat (b_round b) = unat (bi_round (certified_block (b_quorum_cert b))) + 1"
    using r by (auto simp: word_unat_eq_iff)
  with li show ?thesis by simp
qed

text \<open>C3. The rule of a vote. A vote that is answered is the last vote again, or it is for the proposed block in a round
  above the last voted one; the block extends a certified block (a block of round 0, or one that a quorum signed) in the
  next round, or it follows a timeout certificate of the round before it whose highest certified round is not above the
  block it extends; the vote commits the extended block just when the rounds are consecutive; and it is stored.\<close>

theorem two_chain_vote_rule:
  assumes "handle_message cr now (ConstructAndSignVoteTwoChain p maybe_tc) s = (Inr (VoteAnswer v), s')" and "coherent s"
    and "\<And>es. epoch_state_opt s = Some es \<Longrightarrow> verifier_wf (es_verifier es)"
  shows "\<exists>d. stored s = Some d \<and>
    (sd_last_vote d = Some v \<and> vote_round v = b_round (vp_block p) \<and> stored s' = Some d \<or>
     (\<exists>es d'. let parent = certified_block (b_quorum_cert (vp_block p)); round = unat (vote_round v) in
       epoch_state_opt s = Some es \<and> vote_epoch v = sd_epoch d \<and> sd_last_voted_round d < vote_round v \<and>
       bi_id (vd_proposed (v_vote_data v)) = b_id (vp_block p) \<and> vote_round v = b_round (vp_block p) \<and>
       vd_parent (v_vote_data v) = parent \<and> bi_round parent < vote_round v \<and>
       (bi_round parent = 0 \<or>
        is_quorum (es_verifier es) (set (signers (es_verifier es) (lis_signatures (qc_signed_ledger_info (b_quorum_cert (vp_block p))))))) \<and>
       (round = unat (bi_round parent) + 1 \<or>
        (\<exists>tc. maybe_tc = Some tc \<and> tc_verify cr tc (es_verifier es) = Inr () \<and> round = unat (tc_round tc) + 1 \<and>
           highest_hqc_round tc \<le> bi_round parent)) \<and>
       li_commit_info (v_ledger_info v) = (if round = unat (bi_round parent) + 1 then parent else block_info_empty) \<and>
       li_consensus_data_hash (v_ledger_info v) = hash_vote_data cr (v_vote_data v) \<and>
       stored s' = Some d' \<and> sd_last_voted_round d' = vote_round v \<and> sd_last_vote d' = Some v))"
proof -
  from assms(1) have "guarded_construct_and_sign_vote_two_chain cr now p maybe_tc s = (Inr v, s')"
    by (auto elim!: s_map_cases)
  from vote_ok [OF this assms(2)] consider
      (again) d where "stored s = Some d" "stored s' = Some d" "sd_last_vote d = Some v" "vote_round v = b_round (vp_block p)"
    | (cast) c where "vote_cast cr now p maybe_tc s v s' c" by auto
  then show ?thesis
  proof cases
    case again
    then show ?thesis by blast
  next
    case cast
    let ?b = "vp_block p" and ?d = "cf_data c" and ?es = "cf_epoch_state c"
    let ?parent = "certified_block (b_quorum_cert ?b)"
    let ?d' = "(snd (observe_qc (b_quorum_cert ?b) (?d\<lparr>sd_last_voted_round := b_round ?b\<rparr>)))\<lparr>sd_last_vote := Some v\<rparr>"
    from cast have g: "gen_vote_data cr p = Inr (v_vote_data v)" and wf: "verify_well_formed now ?b = Inr ()"
      and qc: "qc_verify cr (b_quorum_cert ?b) (es_verifier ?es) = Inr ()" and es: "epoch_state_opt s = Some ?es"
      and safe: "safe_to_vote ?b maybe_tc = Inr ()"
      and li: "construct_ledger_info_2chain ?b (hash_vote_data cr (v_vote_data v)) = Inr (v_ledger_info v)"
      by (simp_all add: vote_cast_def Let_def)
    note vd = gen_vote_data_proposed [OF g]
    have lt: "bi_round ?parent < b_round ?b" using wf by (auto simp: verify_well_formed_def Let_def result_simps)
    have quorum: "bi_round ?parent = 0 \<or>
        is_quorum (es_verifier ?es) (set (signers (es_verifier ?es) (lis_signatures (qc_signed_ledger_info (b_quorum_cert ?b)))))"
      using qc_verify_quorum [OF qc assms(3) [OF es]] by blast
    have rule: "unat (b_round ?b) = unat (bi_round ?parent) + 1 \<or>
        (\<exists>tc. maybe_tc = Some tc \<and> tc_verify cr tc (es_verifier ?es) = Inr () \<and> unat (b_round ?b) = unat (tc_round tc) + 1 \<and>
           highest_hqc_round tc \<le> bi_round ?parent)"
      using safe_to_vote_ok [OF safe] lt cast
      by (auto simp: vote_cast_def Let_def word_less_nat_alt split: option.splits)
    have commit: "li_commit_info (v_ledger_info v) =
        (if unat (b_round ?b) = unat (bi_round ?parent) + 1 then ?parent else block_info_empty)"
      "li_consensus_data_hash (v_ledger_info v) = hash_vote_data cr (v_vote_data v)"
      unfolding construct_ledger_info_ok [OF li] by simp_all
    have "stored s = Some ?d" "stored s' = Some ?d'" "sd_epoch ?d = b_epoch ?b" "sd_last_voted_round ?d < b_round ?b"
      using cast by (simp_all add: vote_cast_def Let_def)
    moreover have "vote_round v = b_round ?b" "vote_epoch v = b_epoch ?b"
      using vd by (simp_all add: vote_round_def vote_epoch_def)
    moreover have "sd_last_voted_round ?d' = b_round ?b" "sd_last_vote ?d' = Some v"
      by (simp_all add: observe_qc_fields)
    ultimately show ?thesis
      unfolding Let_def using es vd(3,4) lt quorum rule commit by metis
  qed
qed

theorem two_chain_vote_rule_witness:
  "handle_message sample_crypto 0 (ConstructAndSignVoteTwoChain (sample_proposal 2) None) (sample_rules 1 1) =
     (Inr (VoteAnswer (sample_vote 1 2)), sample_rules 1 2) \<and>
   is_quorum sample_verifier (set (signers sample_verifier sample_signature))"
proof -
  let ?m = "handle_message sample_crypto 0 (ConstructAndSignVoteTwoChain (sample_proposal 2) None)"
  have step: "?m (sample_rules 1 1) = (Inr (VoteAnswer (sample_vote 1 2)), sample_rules 1 2)"
    using sample_vote_step [of 2 1] by (simp add: sample_before)
  have es: "epoch_state_opt (sample_rules 1 1) = Some es \<Longrightarrow> verifier_wf (es_verifier es)" for es
    using sample_verifier_wf by (auto simp: sample_rules_def)
  have "vote_round (sample_vote 1 2) = 2" "sd_last_vote (sample_data 1 1) = Some (sample_vote 1 1)"
    "vote_round (sample_vote 1 1) = 1" "b_quorum_cert (vp_block (sample_proposal 2)) = sample_qc 1"
    by (simp_all add: sample_vote_def vote_round_def vote_new_with_signature_def sample_vote_data_def sample_data_def
        sample_proposal_def sample_before)
  then have "is_quorum sample_verifier (set (signers sample_verifier (lis_signatures (qc_signed_ledger_info (sample_qc 1)))))"
    using two_chain_vote_rule [OF step sample_rules_ok(1) es] sample_rules_ok(2) [of 1 1]
    by (auto simp: Let_def sample_rules_def)
  then show ?thesis using step by (simp add: sample_qc_def)
qed


text \<open>A timeout closes its round and those below it.\<close>

definition closed_inv :: "u64 \<Rightarrow> round \<Rightarrow> vote option \<Rightarrow> vote list \<Rightarrow> safety_data \<Rightarrow> bool" where
  "closed_inv epoch round kept vs d \<longleftrightarrow>
     safety_data_wf d \<and>
     (\<forall>v\<in>set vs. vote_epoch v = epoch \<and> vote_round v \<le> round \<longrightarrow> kept = Some v) \<and>
     (sd_epoch d > epoch \<or>
      sd_epoch d = epoch \<and> round \<le> sd_last_voted_round d \<and>
        (\<forall>v. sd_last_vote d = Some v \<longrightarrow> kept = Some v \<or> round < vote_round v))"

lemma closed_inv_step:
  assumes inv: "closed_inv epoch round kept vs d" and step: "data_step d new d'"
  shows "closed_inv epoch round kept (vs @ new) d'"
proof -
  from step consider (same) "new = []" "d' = d"
    | (timeout) r where "new = []" "sd_last_voted_round d < r" "d' = d\<lparr>sd_last_voted_round := r\<rparr>"
    | (epoch) e where "new = []" "sd_epoch d < e" "d' = safety_data_new e 0 0 0 None"
    | (again) v where "new = [v]" "d' = d" "sd_last_vote d = Some v"
    | (cast) v where "new = [v]" "sd_last_voted_round d < vote_round v" "vote_epoch v = sd_epoch d" "sd_epoch d' = sd_epoch d"
        "sd_last_voted_round d' = vote_round v" "sd_last_vote d' = Some v"
    unfolding data_step_def by blast
  then show ?thesis
  proof cases
    case same
    with inv show ?thesis by simp
  next
    case timeout
    with inv show ?thesis by (auto simp: closed_inv_def safety_data_wf_def)
  next
    case epoch
    with inv show ?thesis by (auto simp: closed_inv_def safety_data_wf_def safety_data_new_def)
  next
    case again
    with inv show ?thesis by (auto simp: closed_inv_def safety_data_wf_def)
  next
    case cast
    then have "round < vote_round v" if "sd_epoch d = epoch" using inv that by (auto simp: closed_inv_def)
    with cast inv show ?thesis by (auto simp: closed_inv_def safety_data_wf_def)
  qed
qed

lemma closed_inv_served:
  assumes "served cr s vs s'" and "coherent s" and "stored s = Some d" and "closed_inv epoch round kept [] d"
  shows "coherent s' \<and> (\<exists>d'. stored s' = Some d' \<and> closed_inv epoch round kept vs d')"
  using assms
proof (induction rule: served.induct)
  case (served_request vs s1 now input r s2)
  then obtain d1 where d1: "coherent s1" "stored s1 = Some d1" "closed_inv epoch round kept vs d1" by blast
  from handle_message_step [OF served_request.hyps(2) d1(1,2)]
  obtain d2 where "coherent s2" "stored s2 = Some d2" "data_step d1 (votes_of r) d2" by blast
  with d1 closed_inv_step show ?case by blast
qed (simp_all add: environment_keeps)

text \<open>C4. A timeout closes its round: once a validator has signed a timeout of a round, the only vote it ever gives out
  again for that round or a lower one of the epoch is the last vote it had cast before.\<close>

theorem timeout_closes_round:
  assumes "handle_message cr now (SignTimeoutWithQC t maybe_tc) s = (Inr (SignatureAnswer sig), s1)"
    and "coherent s" and "stored s = Some d" and "safety_data_wf d"
    and "served cr s1 vs s2" and "v \<in> set vs" and "vote_epoch v = to_epoch t" and "vote_round v \<le> to_round t"
  shows "sd_last_vote d = Some v"
proof -
  from assms(1) have t: "guarded_sign_timeout_with_qc cr t maybe_tc s = (Inr sig, s1)" by (auto elim!: s_map_cases)
  let ?d1 = "d\<lparr>sd_last_voted_round := to_round t\<rparr>"
  have d1: "sd_epoch d = to_epoch t" "sd_last_voted_round d \<le> to_round t" "stored s1 = Some ?d1"
    using timeout_ok [OF t assms(2)] assms(3) by auto
  have "closed_inv (to_epoch t) (to_round t) (sd_last_vote d) [] ?d1"
    using assms(4) d1 by (auto simp: closed_inv_def safety_data_wf_def)
  from closed_inv_served [OF assms(5) _ d1(3) this] timeout_effect [OF t assms(2)] assms(6-8) show ?thesis
    by (auto simp: closed_inv_def)
qed

definition sample_timeout :: two_chain_timeout where
  "sample_timeout = \<lparr>to_epoch = 1, to_round = 2, to_quorum_cert = sample_qc 1\<rparr>"

lemma sample_timeout_step:
  "handle_message sample_crypto 0 (SignTimeoutWithQC sample_timeout None) (sample_rules 1 2) =
     (Inr (SignatureAnswer 1), sample_rules 1 2)"
  by (simp add: s_map_def guarded_sign_timeout_with_qc_def s_bind_def s_gets_def s_lift_def s_return_def on_storage_def
      pss_safety_data_def sample_rules_def sr_signer_def ok_or_def sample_timeout_def verify_epoch_def sample_data_def
      sr_epoch_state_def timeout_verify_def hqc_round_def safe_to_timeout_def Let_def next_round_def checked_add_def sample_before
      sr_sign_def signer_sign_def sample_crypto_fields)

lemma sample_resend:
  "handle_message sample_crypto 0 (ConstructAndSignVoteTwoChain (sample_proposal 2) None) (sample_rules 1 2) =
     (Inr (VoteAnswer (sample_vote 1 2)), sample_rules 1 2)"
proof -
  have signer: "sr_signer (sample_rules 1 2) = Inr \<lparr>vs_author = 1, vs_private_key = 1\<rparr>"
    by (simp add: sr_signer_def sample_rules_def ok_or_def)
  have read: "on_storage pss_safety_data (sample_rules 1 2) = (Inr (sample_data 1 2), sample_rules 1 2)"
    by (simp add: on_storage_def pss_safety_data_def sample_rules_def Let_def)
  have "sd_last_vote (sample_data 1 2) = Some (sample_vote 1 2)" "vote_round (sample_vote 1 2) = 2"
    "vp_block (sample_proposal 2) = sample_block 2"
    by (simp_all add: sample_data_def sample_vote_def vote_round_def vote_new_with_signature_def sample_vote_data_def
        sample_proposal_def)
  then show ?thesis
    by (simp add: s_map_def guarded_construct_and_sign_vote_two_chain_def s_bind_def s_gets_def s_return_def signer
        sample_verify_proposal read)
qed

theorem timeout_closes_round_witness: "sd_last_vote (sample_data 1 2) = Some (sample_vote 1 2)"
proof -
  have "served sample_crypto (sample_rules 1 2) ([] @ votes_of (Inr (VoteAnswer (sample_vote 1 2)))) (sample_rules 1 2)"
    by (rule served_request [OF served_start sample_resend])
  moreover have "vote_epoch (sample_vote 1 2) = 1" "vote_round (sample_vote 1 2) = 2"
    by (simp_all add: sample_vote_def vote_round_def vote_epoch_def vote_new_with_signature_def sample_vote_data_def)
  ultimately show ?thesis
    using timeout_closes_round [OF sample_timeout_step sample_rules_ok, of "[sample_vote 1 2]" "sample_rules 1 2" "sample_vote 1 2"]
    by (simp add: votes_of_def sample_timeout_def)
qed

text \<open>C6. Without the cache the safety rules sign nothing but commit votes: reading the safety data always fails, so every
  other request is refused.\<close>

theorem uncached_rules_refuse:
  assumes "\<not> enable_cached_safety_data (persistent_storage s)" and "\<And>l li. input \<noteq> SignCommitVote l li"
  shows "\<exists>e. fst (handle_message cr now input s) = Inl e"
proof (rule ccontr)
  assume "\<nexists>e. fst (handle_message cr now input s) = Inl e"
  then obtain x s' where ok: "handle_message cr now input s = (Inr x, s')"
    by (metis obj_sumE prod.collapse)
  have read: "on_storage pss_safety_data u \<noteq> (Inr d, u')"
    if "enable_cached_safety_data (persistent_storage u) = enable_cached_safety_data (persistent_storage s)" for u d u'
    using assms(1) that pss_safety_data_read(3) by blast
  have waypoint: "enable_cached_safety_data (persistent_storage u) = enable_cached_safety_data (persistent_storage s)"
    if "on_storage (pss_set_waypoint w) s = (r, u)" for w r u
    using that by (auto simp: on_storage_def pss_set_waypoint_def split: sum.splits)
  show False
  proof (cases input)
    case (Initialize p)
    with ok read waypoint show False
      by (auto simp: guarded_initialize_def start_epoch_def result_simps split: if_splits elim!: s_map_cases)
  qed (use ok read assms(2) in \<open>auto simp: guarded_consensus_state_def guarded_sign_proposal_def guarded_sign_timeout_with_qc_def
      guarded_construct_and_sign_vote_two_chain_def verify_proposal_def Let_def result_simps elim!: s_map_cases\<close>)
qed

theorem uncached_rules_refuse_witness:
  "\<exists>e. fst (handle_message sample_crypto 0 (ConstructAndSignVoteTwoChain (sample_proposal 1) None)
     (persistent_storage_update (enable_cached_safety_data_update (\<lambda>_. False)) (sample_rules 1 0))) = Inl e"
  by (rule uncached_rules_refuse) (simp_all add: sample_rules_def)

end
