(* ===== verification/Two_Chain_Agreement.thy ===== *)
theory Two_Chain_Agreement
  imports Safety_Rules
begin

text \<open>
  Agreement of the 2-chain protocol. The validators of one epoch run the safety rules of
  \<open>Safety_Rules\<close>; a network is the state of every validator with the log of what was signed and voted.
  Steps are requests that a validator which is not faulty serves, storage faults and restarts, in any
  order. What the consensus process in front of the safety rules guarantees of its requests is
  \<open>admissible\<close>; that signatures are not forged is part of it. The theorem is that committed blocks lie
  on one chain.
\<close>

section \<open>The epoch a validator is in\<close>

text \<open>The epoch state, when there is one, is of the epoch of the stored safety data.\<close>

definition epoch_linked :: "(epoch_state \<Rightarrow> bool) \<Rightarrow> safety_rules \<Rightarrow> bool" where
  "epoch_linked P s \<longleftrightarrow>
     coherent s \<and> (\<forall>es d. epoch_state_opt s = Some es \<and> stored s = Some d \<longrightarrow> es_epoch es = sd_epoch d \<and> P es)"

lemma epoch_linked_keeps: "epoch_linked P s \<Longrightarrow> keeps s s' \<Longrightarrow> epoch_linked P s'"
  by (simp add: epoch_linked_def keeps_def stored_def)

lemma epoch_linked_same: "epoch_linked P s \<Longrightarrow> same_data s s' \<Longrightarrow> epoch_state_opt s' = epoch_state_opt s \<Longrightarrow> epoch_linked P s'"
  by (simp add: epoch_linked_def same_data_def)

lemma start_epoch_linked:
  assumes "epoch_linked P s"
  shows "start_epoch w new_w es s = (Inl e, s') \<Longrightarrow> epoch_linked P s'"
    and "start_epoch w new_w es s = (Inr u, s') \<Longrightarrow> coherent s' \<and> (\<exists>d. stored s' = Some d \<and> sd_epoch d = es_epoch es)"
proof -
  have coh: "coherent s" using assms by (simp add: epoch_linked_def)
  show "epoch_linked P s'" if "start_epoch w new_w es s = (Inl e, s')"
  proof -
    have "fails_keep (start_epoch w new_w es)" unfolding start_epoch_def by (intro keep_intros)
    then show ?thesis using that assms epoch_linked_keeps by (auto simp: fails_keep_def)
  qed
  assume "start_epoch w new_w es s = (Inr u, s')"
  then obtain d s1 where read: "on_storage pss_safety_data s = (Inr d, s1)"
    and rest: "(if sd_epoch d < es_epoch es then on_storage (pss_set_safety_data (safety_data_new (es_epoch es) 0 0 0 None)) else s_return ()) s1 = (Inr u, s')"
    and le: "\<not> sd_epoch d > es_epoch es"
    by (auto simp: start_epoch_def result_simps split: if_splits)
  note k = pss_safety_data_read(1) [OF read]
  have d: "stored s1 = Some d" "coherent s1"
    using pss_safety_data_read(2) [OF read refl coh] stored_keeps [OF coh k] k coh by (auto simp: keeps_def)
  show "coherent s' \<and> (\<exists>d. stored s' = Some d \<and> sd_epoch d = es_epoch es)"
  proof (cases "sd_epoch d < es_epoch es")
    case True
    with rest have "on_storage (pss_set_safety_data (safety_data_new (es_epoch es) 0 0 0 None)) s1 = (Inr u, s')" by simp
    from pss_set_safety_data_write(2) [OF this refl] show ?thesis by (simp add: safety_data_new_def)
  next
    case False
    with rest le d show ?thesis by (auto simp: s_return_def)
  qed
qed

lemma reconcile_key_epoch: "epoch_state_opt (snd (reconcile_key cr es a s)) = epoch_state_opt s"
  by (auto simp: reconcile_key_def split: option.splits sum.splits fault.splits safety_error.splits)

lemma ecp_verify_last:
  assumes "ecp_verify cr ver stale p = Inr l"
  shows "l \<in> set (ecp_ledger_info_with_sigs p)"
  using assms by (auto simp: ecp_verify_def Let_def result_simps last_in_set)

lemma initialize_linked:
  assumes link: "epoch_linked P s"
    and P: "\<And>l es. l \<in> set (ecp_ledger_info_with_sigs p) \<Longrightarrow> li_next_epoch_state (lis_ledger_info l) = Some es \<Longrightarrow> P es"
  shows "ends (guarded_initialize cr p) s (epoch_linked P)"
proof -
  have coh: "coherent s" using link by (simp add: epoch_linked_def)
  have tail: "ends (s_bind (s_modify (epoch_state_opt_update (\<lambda>_. Some es))) (\<lambda>_.
     s_bind (s_gets (\<lambda>s. pss_author (persistent_storage s))) (\<lambda>author. reconcile_key cr es author))) u (epoch_linked P)"
    if u: "coherent u \<and> (\<exists>d. stored u = Some d \<and> sd_epoch d = es_epoch es)" and Pes: "P es" for u es
  proof -
    let ?u = "u\<lparr>epoch_state_opt := Some es\<rparr>"
    have u': "epoch_linked P ?u" using u Pes by (auto simp: epoch_linked_def coherent_def stored_def)
    then have "epoch_linked P (snd (reconcile_key cr es a ?u))" for a
      using epoch_linked_same same_data_reconcile_key reconcile_key_epoch by (metis epoch_linked_def)
    with u' show ?thesis by (auto simp: ends_def s_bind_def s_modify_def s_gets_def split: sum.splits)
  qed
  have mid: "ends (s_bind (start_epoch w new_w es) (\<lambda>_.
     s_bind (s_modify (epoch_state_opt_update (\<lambda>_. Some es))) (\<lambda>_.
     s_bind (s_gets (\<lambda>s. pss_author (persistent_storage s))) (\<lambda>author. reconcile_key cr es author)))) s1 (epoch_linked P)"
    if s1: "epoch_linked P s1" and Pes: "P es" for s1 w new_w es
    by (intro ends_bind tail Pes) (use start_epoch_linked [OF s1] in auto)
  have wp: "ends (s_bind (if wp_version w < wp_version new_w then on_storage (pss_set_waypoint new_w) else s_return ()) (\<lambda>_.
     s_bind (start_epoch w new_w es) (\<lambda>_.
     s_bind (s_modify (epoch_state_opt_update (\<lambda>_. Some es))) (\<lambda>_.
     s_bind (s_gets (\<lambda>s. pss_author (persistent_storage s))) (\<lambda>author. reconcile_key cr es author))))) s (epoch_linked P)"
    if Pes: "P es" for w new_w es
  proof -
    let ?m = "if wp_version w < wp_version new_w then on_storage (pss_set_waypoint new_w) else s_return ()"
    have "epoch_linked P s1" if "?m s = (r, s1)" for r s1
    proof (cases "wp_version w < wp_version new_w")
      case True
      with that have m: "on_storage (pss_set_waypoint new_w) s = (r, s1)" by simp
      then have "epoch_state_opt s1 = epoch_state_opt s" by (auto simp: on_storage_def split: prod.splits)
      with epoch_linked_same [OF link same_data_set_waypoint [OF m coh]] show ?thesis by simp
    next
      case False
      with that link show ?thesis by (simp add: s_return_def)
    qed
    then show ?thesis by (intro ends_bind mid Pes) auto
  qed
  show ?thesis
    unfolding guarded_initialize_def
    by (intro ends_bind_pure link wp) (auto simp: result_simps intro: P dest: ecp_verify_last)
qed

section \<open>The network\<close>

text \<open>One epoch of the protocol: its verifier, the validators that may be faulty, and the vote data that occur in it.\<close>

record epoch_env =
  env_crypto :: crypto
  env_epoch :: u64
  env_verifier :: validator_verifier
  env_faulty :: "account_address set"
  env_data :: "vote_data set"

record net =
  node :: "account_address \<Rightarrow> safety_rules"
  signed_log :: "(account_address \<times> signable) set"
  voted_log :: "(account_address \<times> vote_data) set"

abbreviation vd_round :: "vote_data \<Rightarrow> round" where
  "vd_round vd \<equiv> bi_round (vd_proposed vd)"

abbreviation vd_epoch :: "vote_data \<Rightarrow> u64" where
  "vd_epoch vd \<equiv> bi_epoch (vd_proposed vd)"

abbreviation vd_parent_round :: "vote_data \<Rightarrow> round" where
  "vd_parent_round vd \<equiv> bi_round (vd_parent vd)"

text \<open>Signatures cannot be forged: when a multi-signature or an aggregate signature verifies, every signer it names that
  is not faulty has signed its message.\<close>

definition multi_unforged :: "epoch_env \<Rightarrow> net \<Rightarrow> signable \<Rightarrow> aggregate_signature \<Rightarrow> bool" where
  "multi_unforged E N m s \<longleftrightarrow>
     (verify_multi_signatures (env_crypto E) (env_verifier E) m s = Inr () \<longrightarrow>
        (\<forall>a \<in> set (signers (env_verifier E) s) - env_faulty E. (a, m) \<in> signed_log N))"

definition tc_unforged :: "epoch_env \<Rightarrow> net \<Rightarrow> two_chain_timeout_certificate \<Rightarrow> bool" where
  "tc_unforged E N tc \<longleftrightarrow>
     (let sig = asr_sig (tc_signatures_with_rounds tc); ms = timeout_messages tc (env_verifier E);
          ss = signers (env_verifier E) sig in
      verify_aggregate_signatures (env_crypto E) (env_verifier E) (map SignTimeout ms) sig = Inr () \<longrightarrow>
        length ms = length ss \<and> (\<forall>i < length ss. ss ! i \<notin> env_faulty E \<longrightarrow> (ss ! i, SignTimeout (ms ! i)) \<in> signed_log N))"

definition qc_unforged :: "epoch_env \<Rightarrow> net \<Rightarrow> quorum_cert \<Rightarrow> bool" where
  "qc_unforged E N qc \<longleftrightarrow>
     multi_unforged E N (SignLedgerInfo (lis_ledger_info (qc_signed_ledger_info qc))) (lis_signatures (qc_signed_ledger_info qc)) \<and>
     qc_vote_data qc \<in> env_data E"

text \<open>What a validator's consensus process asks of its safety rules: its certificates are not forged, the timeout
  certificate of a vote is of the epoch of the block, a commit vote keeps the consensus data of the ordered ledger info
  and belongs to the epoch the validator is in, and an epoch change into this epoch brings this epoch's verifier.\<close>

fun admissible :: "epoch_env \<Rightarrow> net \<Rightarrow> safety_rules \<Rightarrow> safety_rules_input \<Rightarrow> bool" where
  "admissible E N s (Initialize p) \<longleftrightarrow>
     (\<forall>l es. l \<in> set (ecp_ledger_info_with_sigs p) \<and> li_next_epoch_state (lis_ledger_info l) = Some es \<and>
        es_epoch es = env_epoch E \<longrightarrow> es_verifier es = env_verifier E)"
| "admissible E N s (ConstructAndSignVoteTwoChain p maybe_tc) \<longleftrightarrow>
     qc_unforged E N (b_quorum_cert (vp_block p)) \<and>
     (\<forall>vd. gen_vote_data (env_crypto E) p = Inr vd \<longrightarrow> vd \<in> env_data E) \<and>
     (\<forall>tc. maybe_tc = Some tc \<longrightarrow> tc_unforged E N tc \<and> tc_epoch tc = b_epoch (vp_block p))"
| "admissible E N s (SignCommitVote l new_li) \<longleftrightarrow>
     multi_unforged E N (SignLedgerInfo (lis_ledger_info l)) (lis_signatures l) \<and>
     li_consensus_data_hash new_li = li_consensus_data_hash (lis_ledger_info l) \<and>
     (\<forall>es vd. epoch_state_opt s = Some es \<and> vd \<in> env_data E \<and>
        hash_vote_data (env_crypto E) vd = li_consensus_data_hash new_li \<longrightarrow> vd_epoch vd = es_epoch es)"
| "admissible E N s _ \<longleftrightarrow> True"

definition emitted :: "safety_rules_input \<Rightarrow> (safety_error, safety_rules_output) result \<Rightarrow> signable set" where
  "emitted input r =
     (case r of
        Inr (VoteAnswer v) \<Rightarrow> {SignLedgerInfo (v_ledger_info v)}
      | Inr (SignatureAnswer _) \<Rightarrow>
          (case input of
             SignProposal bd \<Rightarrow> {SignBlockData bd}
           | SignTimeoutWithQC t _ \<Rightarrow> {SignTimeout (signing_format t)}
           | SignCommitVote _ new_li \<Rightarrow> {SignLedgerInfo new_li}
           | _ \<Rightarrow> {})
      | _ \<Rightarrow> {})"

text \<open>A step: a validator that is not faulty serves a request, its storage starts or stops failing, or it is restarted.
  What the faulty validators sign needs no step, since no certificate is checked against it.\<close>

inductive net_step :: "epoch_env \<Rightarrow> net \<Rightarrow> net \<Rightarrow> bool" for E where
  net_serve: "a \<notin> env_faulty E \<Longrightarrow> handle_message (env_crypto E) now input (node N a) = (r, s') \<Longrightarrow>
     admissible E N (node N a) input \<Longrightarrow>
     net_step E N \<lparr>node = (node N)(a := s'), signed_log = signed_log N \<union> Pair a ` emitted input r,
       voted_log = voted_log N \<union> Pair a ` v_vote_data ` set (votes_of r)\<rparr>"
| net_fault: "net_step E N (N\<lparr>node := (node N)(a := set_fault f (node N a))\<rparr>)"
| net_restart: "net_step E N (N\<lparr>node := (node N)(a := restart caching (node N a))\<rparr>)"

text \<open>The epoch starts with validators that have not voted in it.\<close>

definition node_starts :: "epoch_env \<Rightarrow> safety_rules \<Rightarrow> bool" where
  "node_starts E s \<longleftrightarrow>
     epoch_linked (\<lambda>es. es_epoch es = env_epoch E \<longrightarrow> es_verifier es = env_verifier E) s \<and>
     (\<exists>d. stored s = Some d \<and> safety_data_wf d \<and>
        (\<forall>v. sd_last_vote d = Some v \<longrightarrow> sd_epoch d \<noteq> env_epoch E \<and> v_vote_data v \<in> env_data E \<and>
           li_consensus_data_hash (v_ledger_info v) = hash_vote_data (env_crypto E) (v_vote_data v)))"

definition net_starts :: "epoch_env \<Rightarrow> net \<Rightarrow> bool" where
  "net_starts E N \<longleftrightarrow>
     (\<forall>a. a \<notin> env_faulty E \<longrightarrow> node_starts E (node N a)) \<and> voted_log N = {} \<and>
     (\<forall>a li vd. a \<notin> env_faulty E \<and> (a, SignLedgerInfo li) \<in> signed_log N \<and> vd \<in> env_data E \<and> vd_epoch vd = env_epoch E \<longrightarrow>
        li_consensus_data_hash li \<noteq> hash_vote_data (env_crypto E) vd) \<and>
     (\<forall>a t. a \<notin> env_faulty E \<and> (a, SignTimeout t) \<in> signed_log N \<longrightarrow> tsr_epoch t \<noteq> env_epoch E)"

definition env_wf :: "epoch_env \<Rightarrow> bool" where
  "env_wf E \<longleftrightarrow>
     verifier_wf (env_verifier E) \<and> tolerates (env_verifier E) (env_faulty E) \<and>
     inj_on (hash_vote_data (env_crypto E)) (env_data E)"

section \<open>The invariant of one validator\<close>

definition epoch_votes :: "epoch_env \<Rightarrow> net \<Rightarrow> account_address \<Rightarrow> vote_data set" where
  "epoch_votes E N a = {vd. (a, vd) \<in> voted_log N \<and> vd_epoch vd = env_epoch E}"

definition epoch_timeouts :: "epoch_env \<Rightarrow> net \<Rightarrow> account_address \<Rightarrow> timeout_signing_repr set" where
  "epoch_timeouts E N a = {t. (a, SignTimeout t) \<in> signed_log N \<and> tsr_epoch t = env_epoch E}"

definition data_inv :: "u64 \<Rightarrow> safety_data \<Rightarrow> vote_data set \<Rightarrow> timeout_signing_repr set \<Rightarrow> bool" where
  "data_inv e d VS TS \<longleftrightarrow>
     (VS \<noteq> {} \<or> TS \<noteq> {} \<longrightarrow> e \<le> sd_epoch d) \<and>
     (sd_epoch d = e \<longrightarrow>
        (\<forall>vd\<in>VS. vd_round vd \<le> sd_last_voted_round d \<and> vd_parent_round vd \<le> sd_one_chain_round d) \<and>
        (\<forall>t\<in>TS. tsr_round t \<le> sd_last_voted_round d) \<and>
        (\<forall>v. sd_last_vote d = Some v \<longrightarrow> v_vote_data v \<in> VS)) \<and>
     inj_on vd_round VS \<and>
     (\<forall>t\<in>TS. \<forall>vd\<in>VS. vd_round vd \<le> tsr_round t \<longrightarrow> vd_parent_round vd \<le> tsr_hqc_round t)"

lemma data_step_wf: "data_step d vs d' \<Longrightarrow> safety_data_wf d \<Longrightarrow> safety_data_wf d'"
  by (auto simp: data_step_def safety_data_wf_def safety_data_new_def)

lemma data_inv_cast:
  assumes inv: "data_inv e d VS TS" and lt: "sd_last_voted_round d < vd_round vd" and e: "sd_epoch d = e"
    and d': "sd_epoch d' = e" "sd_last_voted_round d' = vd_round vd" "sd_last_vote d' = Some v" "v_vote_data v = vd"
      "sd_one_chain_round d' = max (sd_one_chain_round d) (vd_parent_round vd)"
  shows "data_inv e d' (insert vd VS) TS"
proof -
  have old: "vd_round w \<le> sd_last_voted_round d" "vd_parent_round w \<le> sd_one_chain_round d" if "w \<in> VS" for w
    using inv e that by (auto simp: data_inv_def)
  have t: "tsr_round t \<le> sd_last_voted_round d" if "t \<in> TS" for t using inv e that by (auto simp: data_inv_def)
  have bounds: "vd_round w \<le> sd_last_voted_round d' \<and> vd_parent_round w \<le> sd_one_chain_round d'" if "w \<in> insert vd VS" for w
    using that old [of w] lt d' by (auto simp: le_max_iff_disj)
  have tbounds: "tsr_round t \<le> sd_last_voted_round d'" "\<not> vd_round vd \<le> tsr_round t" if "t \<in> TS" for t
    using t [OF that] lt d'(2) by auto
  have "vd_round vd \<notin> vd_round ` VS" using old(1) lt by fastforce
  moreover have "inj_on vd_round VS" using inv by (simp add: data_inv_def)
  ultimately have "inj_on vd_round (insert vd VS)" by (auto simp: inj_on_insert)
  with bounds tbounds inv d' show ?thesis by (auto simp: data_inv_def)
qed

lemma data_inv_step:
  assumes step: "data_step d vs d'" and inv: "data_inv e d VS TS" and wf: "safety_data_wf d"
  shows "data_inv e d' (VS \<union> {vd \<in> v_vote_data ` set vs. vd_epoch vd = e}) TS"
proof -
  from step consider (same) "vs = []" "d' = d"
    | (timeout) r where "vs = []" "sd_last_voted_round d < r" "d' = d\<lparr>sd_last_voted_round := r\<rparr>"
    | (epoch) f where "vs = []" "sd_epoch d < f" "d' = safety_data_new f 0 0 0 None"
    | (again) v where "vs = [v]" "d' = d" "sd_last_vote d = Some v"
    | (cast) v where "vs = [v]" "sd_last_voted_round d < vote_round v" "vote_epoch v = sd_epoch d" "sd_epoch d' = sd_epoch d"
        "sd_last_voted_round d' = vote_round v" "sd_last_vote d' = Some v"
        "sd_one_chain_round d' = max (sd_one_chain_round d) (bi_round (vd_parent (v_vote_data v)))"
    unfolding data_step_def by blast
  then show ?thesis
  proof cases
    case same
    with inv show ?thesis by simp
  next
    case timeout
    with inv show ?thesis by (auto simp: data_inv_def)
  next
    case epoch
    with inv show ?thesis by (auto simp: data_inv_def safety_data_new_def)
  next
    case again
    then have "{vd \<in> v_vote_data ` set vs. vd_epoch vd = e} \<subseteq> VS"
      using inv wf by (auto simp: data_inv_def safety_data_wf_def vote_epoch_def)
    with again inv show ?thesis by (simp add: Un_absorb2)
  next
    case cast
    show ?thesis
    proof (cases "sd_epoch d = e")
      case True
      then have "data_inv e d' (insert (v_vote_data v) VS) TS"
        using cast by (intro data_inv_cast [OF inv, where v = v]) (auto simp: vote_round_def)
      moreover have "{vd \<in> v_vote_data ` set vs. vd_epoch vd = e} = {v_vote_data v}"
        using cast True by (auto simp: vote_epoch_def)
      ultimately show ?thesis by simp
    next
      case False
      then have "{vd \<in> v_vote_data ` set vs. vd_epoch vd = e} = {}" using cast by (auto simp: vote_epoch_def)
      moreover have "data_inv e d' VS TS" using inv cast False by (auto simp: data_inv_def)
      ultimately show ?thesis by (simp only: Un_empty_right)
    qed
  qed
qed

lemma data_inv_timeout:
  assumes "data_inv e d VS TS" and "sd_epoch d = e" and "sd_one_chain_round d \<le> tsr_hqc_round t"
    and "sd_last_voted_round d \<le> tsr_round t"
  shows "data_inv e (d\<lparr>sd_last_voted_round := tsr_round t\<rparr>) VS (insert t TS)"
  using assms by (fastforce simp: data_inv_def)

lemma handle_message_linked:
  assumes step: "handle_message cr now input s = (r, s')" and link: "epoch_linked P s"
    and P: "\<And>p l es. input = Initialize p \<Longrightarrow> l \<in> set (ecp_ledger_info_with_sigs p) \<Longrightarrow>
      li_next_epoch_state (lis_ledger_info l) = Some es \<Longrightarrow> P es"
  shows "epoch_linked P s'"
proof -
  have coh: "coherent s" using link by (simp add: epoch_linked_def)
  show ?thesis
  proof (cases input)
    case ConsensusState
    with step have "keeps s s'" using keep_consensus_state by (auto simp: fails_keep_def succeeds_keep_def elim!: s_map_cases)
    with link show ?thesis by (rule epoch_linked_keeps)
  next
    case (Initialize p)
    with step have "snd (guarded_initialize cr p s) = s'" by (auto elim!: s_map_cases)
    with initialize_linked [OF link, of p cr] P Initialize show ?thesis by (auto simp: ends_def)
  next
    case (SignProposal bd)
    with step have "keeps s s'" using keep_sign_proposal by (auto simp: fails_keep_def succeeds_keep_def elim!: s_map_cases)
    with link show ?thesis by (rule epoch_linked_keeps)
  next
    case (SignTimeoutWithQC t maybe_tc)
    with step obtain q where "guarded_sign_timeout_with_qc cr t maybe_tc s = (q, s')" by (auto elim!: s_map_cases)
    from timeout_effect [OF this coh] link show ?thesis by (auto simp: epoch_linked_def)
  next
    case (ConstructAndSignVoteTwoChain p maybe_tc)
    with step consider e where "guarded_construct_and_sign_vote_two_chain cr now p maybe_tc s = (Inl e, s')"
      | v where "guarded_construct_and_sign_vote_two_chain cr now p maybe_tc s = (Inr v, s')"
      by (auto elim!: s_map_cases)
    then show ?thesis
    proof cases
      case 1
      then have "keeps s s'" using fails_keep_vote by (auto simp: fails_keep_def)
      with link show ?thesis by (rule epoch_linked_keeps)
    next
      case (2 v)
      from vote_ok [OF 2 coh] link show ?thesis
        by (auto simp: epoch_linked_def vote_cast_def Let_def observe_qc_fields)
    qed
  next
    case (SignCommitVote l li)
    with step have "keeps s s'" using keep_sign_commit_vote by (auto simp: fails_keep_def succeeds_keep_def elim!: s_map_cases)
    with link show ?thesis by (rule epoch_linked_keeps)
  qed
qed

section \<open>The invariant of the network\<close>

definition same_block :: "block_info \<Rightarrow> block_info \<Rightarrow> bool" where
  "same_block a b \<longleftrightarrow> bi_epoch a = bi_epoch b \<and> bi_round a = bi_round b \<and> bi_id a = bi_id b"

text \<open>A quorum has voted, or timed out, as far as its members are not faulty.\<close>

definition certified :: "epoch_env \<Rightarrow> net \<Rightarrow> vote_data \<Rightarrow> bool" where
  "certified E N vd \<longleftrightarrow> vd \<in> env_data E \<and> vd_epoch vd = env_epoch E \<and>
     (\<exists>Q. is_quorum (env_verifier E) Q \<and> (\<forall>a \<in> Q - env_faulty E. (a, vd) \<in> voted_log N))"

definition timed_out :: "epoch_env \<Rightarrow> net \<Rightarrow> round \<Rightarrow> round \<Rightarrow> bool" where
  "timed_out E N round hqc \<longleftrightarrow>
     (\<exists>Q. is_quorum (env_verifier E) Q \<and>
        (\<forall>a \<in> Q - env_faulty E. \<exists>t \<in> epoch_timeouts E N a. tsr_round t = round \<and> tsr_hqc_round t \<le> hqc))"

definition justified :: "epoch_env \<Rightarrow> net \<Rightarrow> vote_data \<Rightarrow> bool" where
  "justified E N vd \<longleftrightarrow>
     vd \<in> env_data E \<and> vd_parent_round vd < vd_round vd \<and>
     (vd_parent_round vd = 0 \<or> (\<exists>p. certified E N p \<and> vd_proposed p = vd_parent vd)) \<and>
     (unat (vd_round vd) = unat (vd_parent_round vd) + 1 \<or>
      (\<exists>q. unat (vd_round vd) = unat q + 1 \<and> timed_out E N q (vd_parent_round vd)))"

definition commit_fits :: "vote_data \<Rightarrow> ledger_info \<Rightarrow> bool" where
  "commit_fits vd li \<longleftrightarrow>
     bi_round (li_commit_info li) = 0 \<or>
     unat (vd_round vd) = unat (vd_parent_round vd) + 1 \<and> same_block (vd_parent vd) (li_commit_info li)"

definition last_vote_ok :: "epoch_env \<Rightarrow> safety_data \<Rightarrow> bool" where
  "last_vote_ok E d \<longleftrightarrow>
     (\<forall>v. sd_last_vote d = Some v \<longrightarrow> v_vote_data v \<in> env_data E \<and>
        li_consensus_data_hash (v_ledger_info v) = hash_vote_data (env_crypto E) (v_vote_data v) \<and>
        (sd_epoch d = env_epoch E \<longrightarrow> commit_fits (v_vote_data v) (v_ledger_info v)))"

definition node_inv :: "epoch_env \<Rightarrow> net \<Rightarrow> account_address \<Rightarrow> bool" where
  "node_inv E N a \<longleftrightarrow>
     epoch_linked (\<lambda>es. es_epoch es = env_epoch E \<longrightarrow> es_verifier es = env_verifier E) (node N a) \<and>
     (\<exists>d. stored (node N a) = Some d \<and> safety_data_wf d \<and> last_vote_ok E d \<and>
        data_inv (env_epoch E) d (epoch_votes E N a) (epoch_timeouts E N a))"

definition log_inv :: "epoch_env \<Rightarrow> net \<Rightarrow> account_address \<Rightarrow> bool" where
  "log_inv E N a \<longleftrightarrow>
     (\<forall>vd \<in> epoch_votes E N a. justified E N vd) \<and>
     (\<forall>li vd. (a, SignLedgerInfo li) \<in> signed_log N \<and> vd \<in> env_data E \<and> vd_epoch vd = env_epoch E \<and>
        li_consensus_data_hash li = hash_vote_data (env_crypto E) vd \<longrightarrow>
        ((a, vd) \<in> voted_log N \<or> certified E N vd) \<and> commit_fits vd li)"

definition net_inv :: "epoch_env \<Rightarrow> net \<Rightarrow> bool" where
  "net_inv E N \<longleftrightarrow> (\<forall>a. a \<notin> env_faulty E \<longrightarrow> node_inv E N a \<and> log_inv E N a)"

definition grows :: "net \<Rightarrow> net \<Rightarrow> bool" where
  "grows N N' \<longleftrightarrow> signed_log N \<subseteq> signed_log N' \<and> voted_log N \<subseteq> voted_log N'"

lemma grows_mono:
  assumes "grows N N'"
  shows "certified E N vd \<Longrightarrow> certified E N' vd" and "timed_out E N q h \<Longrightarrow> timed_out E N' q h"
    and "justified E N vd \<Longrightarrow> justified E N' vd"
proof -
  show c: "certified E N' vd" if "certified E N vd" for vd using that assms unfolding certified_def grows_def by blast
  show t: "timed_out E N' q h" if "timed_out E N q h" for q h
    using that assms unfolding timed_out_def grows_def epoch_timeouts_def by (clarsimp) (metis (no_types, lifting) DiffI in_mono)
  show "justified E N' vd" if "justified E N vd" using that c t unfolding justified_def by metis
qed

lemma log_inv_grows:
  assumes "log_inv E N a" and "grows N N'" and "\<And>m. (a, m) \<in> signed_log N' \<Longrightarrow> (a, m) \<in> signed_log N"
    and "\<And>vd. (a, vd) \<in> voted_log N' \<Longrightarrow> (a, vd) \<in> voted_log N"
  shows "log_inv E N' a"
proof -
  have "epoch_votes E N' a \<subseteq> epoch_votes E N a" using assms(4) by (auto simp: epoch_votes_def)
  then have "justified E N' vd" if "vd \<in> epoch_votes E N' a" for vd
    using that assms(1) grows_mono(3) [OF assms(2)] by (auto simp: log_inv_def)
  moreover have "((a, vd) \<in> voted_log N' \<or> certified E N' vd) \<and> commit_fits vd li"
    if "(a, SignLedgerInfo li) \<in> signed_log N'" "vd \<in> env_data E" "vd_epoch vd = env_epoch E"
      "li_consensus_data_hash li = hash_vote_data (env_crypto E) vd" for li vd
    using assms(1) assms(3) [OF that(1)] that(2-4) assms(2) grows_mono(1) [OF assms(2)] unfolding log_inv_def grows_def by blast
  ultimately show ?thesis unfolding log_inv_def by blast
qed

text \<open>A ledger info that a verified multi-signature covers carries certified vote data.\<close>

lemma signed_certified:
  assumes env: "env_wf E" and inv: "net_inv E N"
    and sig: "verify_multi_signatures (env_crypto E) (env_verifier E) (SignLedgerInfo li) s = Inr ()"
    and unforged: "multi_unforged E N (SignLedgerInfo li) s" and vd: "vd \<in> env_data E" "vd_epoch vd = env_epoch E"
      "li_consensus_data_hash li = hash_vote_data (env_crypto E) vd"
  shows "certified E N vd \<and> commit_fits vd li"
proof -
  let ?Q = "set (signers (env_verifier E) s)"
  have q: "is_quorum (env_verifier E) ?Q" using env sig verify_multi_signatures_quorum by (auto simp: env_wf_def)
  have s: "((a, vd) \<in> voted_log N \<or> certified E N vd) \<and> commit_fits vd li" if "a \<in> ?Q - env_faulty E" for a
    using that inv unforged sig vd unfolding multi_unforged_def net_inv_def log_inv_def by blast
  obtain a where "a \<in> ?Q - env_faulty E"
    using validators.quorum_has_honest [OF _ _ q] env by (auto simp: env_wf_def)
  moreover have "certified E N vd" using s q vd unfolding certified_def by blast
  ultimately show ?thesis using s by blast
qed

lemma qc_certified:
  assumes env: "env_wf E" and inv: "net_inv E N" and qc: "qc_verify (env_crypto E) qc (env_verifier E) = Inr ()"
    and u: "qc_unforged E N qc" and e: "bi_epoch (certified_block qc) = env_epoch E" and r: "bi_round (certified_block qc) \<noteq> 0"
  shows "certified E N (qc_vote_data qc) \<and> commit_fits (qc_vote_data qc) (lis_ledger_info (qc_signed_ledger_info qc))"
  using qc u e r
  by (intro signed_certified [OF env inv])
     (auto simp: qc_verify_def result_simps with_context_def lis_verify_signatures_def qc_unforged_def certified_block_def)

lemma tc_timed_out:
  assumes env: "env_wf E" and tc: "tc_verify (env_crypto E) tc (env_verifier E) = Inr ()" and u: "tc_unforged E N tc"
    and e: "tc_epoch tc = env_epoch E" and le: "highest_hqc_round tc \<le> hqc"
  shows "timed_out E N (tc_round tc) hqc"
proof -
  let ?sig = "asr_sig (tc_signatures_with_rounds tc)" and ?ms = "timeout_messages tc (env_verifier E)"
  let ?ss = "signers (env_verifier E) ?sig"
  have q: "is_quorum (env_verifier E) (set ?ss)"
    using verify_aggregate_signatures_quorum [OF _ tc_verify_ok(2) [OF tc]] env by (simp add: env_wf_def)
  have "\<exists>t \<in> epoch_timeouts E N a. tsr_round t = tc_round tc \<and> tsr_hqc_round t \<le> hqc" if a: "a \<in> set ?ss - env_faulty E" for a
  proof -
    obtain i where i: "i < length ?ss" "?ss ! i = a" using a by (auto simp: in_set_conv_nth)
    then have t: "(a, SignTimeout (?ms ! i)) \<in> signed_log N" "?ms ! i \<in> set ?ms"
      using a u tc_verify_ok(2) [OF tc] unfolding tc_unforged_def Let_def by (auto simp: in_set_conv_nth)
    from timeout_message_round [OF tc t(2)] e le t(1) show ?thesis
      by (intro bexI [of _ "?ms ! i"]) (auto simp: epoch_timeouts_def)
  qed
  with q show ?thesis unfolding timed_out_def by blast
qed

lemma vote_answer_input:
  assumes "handle_message cr now input s = (r, s')" and "v \<in> set (votes_of r)"
  obtains p maybe_tc where "input = ConstructAndSignVoteTwoChain p maybe_tc" "r = Inr (VoteAnswer v)"
    "guarded_construct_and_sign_vote_two_chain cr now p maybe_tc s = (Inr v, s')"
proof -
  from assms(2) have r: "r = Inr (VoteAnswer v)"
    by (auto simp: votes_of_def split: sum.splits safety_rules_output.splits)
  show ?thesis
  proof (cases input)
    case (ConstructAndSignVoteTwoChain p maybe_tc)
    with assms(1) r that show ?thesis by (auto elim!: s_map_cases)
  qed (use assms(1) r in \<open>auto elim!: s_map_cases\<close>)
qed

lemma cast_ledger_info:
  assumes "vote_cast cr now p maybe_tc s v s' c"
  shows "commit_fits (v_vote_data v) (v_ledger_info v)"
    and "li_consensus_data_hash (v_ledger_info v) = hash_vote_data cr (v_vote_data v)"
proof -
  have g: "gen_vote_data cr p = Inr (v_vote_data v)"
    and li: "construct_ledger_info_2chain (vp_block p) (hash_vote_data cr (v_vote_data v)) = Inr (v_ledger_info v)"
    using assms by (simp_all add: vote_cast_def Let_def)
  note vd = gen_vote_data_proposed [OF g] and ok = construct_ledger_info_ok [OF li]
  show "commit_fits (v_vote_data v) (v_ledger_info v)"
    by (subst ok) (simp add: commit_fits_def same_block_def block_info_empty_def vd)
  show "li_consensus_data_hash (v_ledger_info v) = hash_vote_data cr (v_vote_data v)"
    by (subst ok) simp
qed

text \<open>The state after a request is served.\<close>

definition serve :: "net \<Rightarrow> account_address \<Rightarrow> safety_rules_input \<Rightarrow> (safety_error, safety_rules_output) result \<Rightarrow> safety_rules \<Rightarrow> net" where
  "serve N a input r s' = \<lparr>node = (node N)(a := s'), signed_log = signed_log N \<union> Pair a ` emitted input r,
     voted_log = voted_log N \<union> Pair a ` v_vote_data ` set (votes_of r)\<rparr>"

lemma serve_node [simp]: "node (serve N a input r s') b = (if b = a then s' else node N b)"
  by (simp add: serve_def)

lemma serve_grows: "grows N (serve N a input r s')"
  by (auto simp: grows_def serve_def)

lemma serve_votes:
  "epoch_votes E (serve N a input r s') a = epoch_votes E N a \<union> {vd \<in> v_vote_data ` set (votes_of r). vd_epoch vd = env_epoch E}"
  by (auto simp: epoch_votes_def serve_def)

lemma serve_timeouts:
  "epoch_timeouts E (serve N a input r s') a = epoch_timeouts E N a \<union> {t. SignTimeout t \<in> emitted input r \<and> tsr_epoch t = env_epoch E}"
  by (auto simp: epoch_timeouts_def serve_def)

lemma emitted_timeout:
  assumes "handle_message cr now input s = (r, s')" and "SignTimeout t \<in> emitted input r"
  obtains timeout maybe_tc sig where "input = SignTimeoutWithQC timeout maybe_tc" "t = signing_format timeout" "votes_of r = []"
    "guarded_sign_timeout_with_qc cr timeout maybe_tc s = (Inr sig, s')" "emitted input r = {SignTimeout t}"
proof -
  from assms(2) obtain timeout maybe_tc sig where i: "input = SignTimeoutWithQC timeout maybe_tc" "t = signing_format timeout"
    "r = Inr (SignatureAnswer sig)"
    by (auto simp: emitted_def split: sum.splits safety_rules_output.splits safety_rules_input.splits)
  with assms(1) have "guarded_sign_timeout_with_qc cr timeout maybe_tc s = (Inr sig, s')" by (auto elim!: s_map_cases)
  with i that show ?thesis by (simp add: votes_of_def emitted_def)
qed

lemma serve_data_inv:
  assumes step: "handle_message cr now input s = (r, s')" and coh: "coherent s" and d: "stored s = Some d"
    and d': "stored s' = Some d'" and ds: "data_step d (votes_of r) d'" and inv: "data_inv e d VS TS" and wf: "safety_data_wf d"
  shows "data_inv e d' (VS \<union> {vd \<in> v_vote_data ` set (votes_of r). vd_epoch vd = e}) (TS \<union> {t. SignTimeout t \<in> emitted input r \<and> tsr_epoch t = e})"
proof (cases "\<exists>t. SignTimeout t \<in> emitted input r \<and> tsr_epoch t = e")
  case True
  then obtain t where t: "SignTimeout t \<in> emitted input r" "tsr_epoch t = e" by blast
  from step t(1) obtain timeout maybe_tc sig where "input = SignTimeoutWithQC timeout maybe_tc"
    and i: "t = signing_format timeout" "votes_of r = []"
      "guarded_sign_timeout_with_qc cr timeout maybe_tc s = (Inr sig, s')" "emitted input r = {SignTimeout t}"
    by (rule emitted_timeout)
  have f: "tsr_epoch t = to_epoch timeout" "tsr_round t = to_round timeout" "tsr_hqc_round t = hqc_round timeout"
    by (simp_all add: i(1) signing_format_def)
  from timeout_ok [OF i(3) coh] d d' have "sd_epoch d = to_epoch timeout" "sd_one_chain_round d \<le> hqc_round timeout"
    "sd_last_voted_round d \<le> to_round timeout" "d' = d\<lparr>sd_last_voted_round := to_round timeout\<rparr>" by auto
  then have "data_inv e d' VS (insert t TS)"
    using data_inv_timeout [OF inv, of t] t(2) f by simp
  moreover have "{u. SignTimeout u \<in> emitted input r \<and> tsr_epoch u = e} = {t}" using i(4) t(2) by auto
  ultimately show ?thesis using i(2) by simp
next
  case False
  then have "{t. SignTimeout t \<in> emitted input r \<and> tsr_epoch t = e} = {}" by auto
  with data_inv_step [OF ds inv wf] show ?thesis by (simp only: Un_empty_right)
qed

lemma serve_last_vote_ok:
  assumes step: "handle_message (env_crypto E) now input s = (r, s')" and coh: "coherent s" and d: "stored s = Some d"
    and d': "stored s' = Some d'" and ds: "data_step d (votes_of r) d'" and ok: "last_vote_ok E d"
    and adm: "admissible E N s input"
  shows "last_vote_ok E d'"
proof (cases "sd_last_vote d' = None \<or> sd_last_vote d' = sd_last_vote d \<and> sd_epoch d' = sd_epoch d")
  case True
  with ok show ?thesis by (auto simp: last_vote_ok_def)
next
  case False
  with ds obtain v where v: "v \<in> set (votes_of r)" "sd_last_vote d' = Some v"
    by (auto simp: data_step_def safety_data_new_def)
  from step v(1) obtain p maybe_tc where i: "input = ConstructAndSignVoteTwoChain p maybe_tc"
    and g: "guarded_construct_and_sign_vote_two_chain (env_crypto E) now p maybe_tc s = (Inr v, s')"
    by (rule vote_answer_input)
  from vote_ok [OF g coh] False d d' v obtain c where c: "vote_cast (env_crypto E) now p maybe_tc s v s' c" by auto
  have "v_vote_data v \<in> env_data E" using adm c i by (simp add: vote_cast_def Let_def)
  with v(2) cast_ledger_info [OF c] show ?thesis by (simp add: last_vote_ok_def)
qed

lemma serve_node_inv:
  assumes inv: "node_inv E N a" and step: "handle_message (env_crypto E) now input (node N a) = (r, s')"
    and adm: "admissible E N (node N a) input"
  shows "node_inv E (serve N a input r s') a"
proof -
  let ?P = "\<lambda>es. es_epoch es = env_epoch E \<longrightarrow> es_verifier es = env_verifier E"
  obtain d where d: "stored (node N a) = Some d" "safety_data_wf d" "last_vote_ok E d"
    "data_inv (env_epoch E) d (epoch_votes E N a) (epoch_timeouts E N a)" and link: "epoch_linked ?P (node N a)"
    using inv by (auto simp: node_inv_def)
  have coh: "coherent (node N a)" using link by (simp add: epoch_linked_def)
  from handle_message_step [OF step coh d(1)] obtain d' where d': "stored s' = Some d'" "data_step d (votes_of r) d'" by blast
  have "epoch_linked ?P s'"
    by (rule handle_message_linked [OF step link]) (use adm in auto)
  with d' data_step_wf [OF d'(2) d(2)] serve_last_vote_ok [OF step coh d(1) d' d(3) adm]
    serve_data_inv [OF step coh d(1) d' d(4,2)]
  show ?thesis by (simp add: node_inv_def serve_votes serve_timeouts)
qed

text \<open>A vote that is cast in the epoch is justified.\<close>

lemma cast_justified:
  assumes env: "env_wf E" and inv: "net_inv E N" and node: "node_inv E N a"
    and cast: "vote_cast (env_crypto E) now p maybe_tc (node N a) v s' c"
    and adm: "admissible E N (node N a) (ConstructAndSignVoteTwoChain p maybe_tc)"
    and e: "vd_epoch (v_vote_data v) = env_epoch E"
  shows "justified E N (v_vote_data v)"
proof -
  let ?b = "vp_block p" and ?cr = "env_crypto E" and ?vd = "v_vote_data v" and ?qc = "b_quorum_cert (vp_block p)"
  have facts: "gen_vote_data ?cr p = Inr ?vd" "verify_well_formed now ?b = Inr ()" "safe_to_vote ?b maybe_tc = Inr ()"
    "epoch_state_opt (node N a) = Some (cf_epoch_state c)" "stored (node N a) = Some (cf_data c)" "sd_epoch (cf_data c) = b_epoch ?b"
    "qc_verify ?cr ?qc (es_verifier (cf_epoch_state c)) = Inr ()"
    "\<And>tc. maybe_tc = Some tc \<Longrightarrow> tc_verify ?cr tc (es_verifier (cf_epoch_state c)) = Inr ()"
    using cast by (simp_all add: vote_cast_def Let_def)
  note vd = gen_vote_data_proposed [OF facts(1)]
  have ver: "es_verifier (cf_epoch_state c) = env_verifier E"
    using node facts(4-6) e vd(1) by (auto simp: node_inv_def epoch_linked_def)
  have lt: "bi_round (certified_block ?qc) < b_round ?b" and ep: "bi_epoch (certified_block ?qc) = env_epoch E"
    using facts(2) e vd(1) by (auto simp: verify_well_formed_def Let_def result_simps)
  have parent: "\<exists>q. certified E N q \<and> vd_proposed q = vd_parent ?vd" if "vd_parent_round ?vd \<noteq> 0"
    using qc_certified [OF env inv _ _ ep] facts(7) adm ver that vd(4) by (auto simp: certified_block_def)
  have rule: "unat (b_round ?b) = unat (bi_round (certified_block ?qc)) + 1 \<or>
      (\<exists>q. unat (b_round ?b) = unat q + 1 \<and> timed_out E N q (bi_round (certified_block ?qc)))"
  proof (cases maybe_tc)
    case None
    with safe_to_vote_ok [OF facts(3)] lt show ?thesis by (auto simp: word_less_nat_alt)
  next
    case (Some tc)
    with safe_to_vote_ok [OF facts(3)] tc_timed_out [OF env _ _ _, of tc N] facts(8) adm ver e vd(1)
    show ?thesis by auto
  qed
  show ?thesis
    using adm facts(1) lt parent rule by (auto simp: justified_def vd)
qed

lemma serve_vote_justified:
  assumes env: "env_wf E" and inv: "net_inv E N" and a: "a \<notin> env_faulty E"
    and step: "handle_message (env_crypto E) now input (node N a) = (r, s')" and adm: "admissible E N (node N a) input"
    and v: "v \<in> set (votes_of r)"
  shows "vd_epoch (v_vote_data v) = env_epoch E \<Longrightarrow> justified E N (v_vote_data v)"
    and "v_vote_data v \<in> env_data E \<and> li_consensus_data_hash (v_ledger_info v) = hash_vote_data (env_crypto E) (v_vote_data v) \<and>
      (vd_epoch (v_vote_data v) = env_epoch E \<longrightarrow> commit_fits (v_vote_data v) (v_ledger_info v))"
proof -
  let ?s = "node N a"
  have node: "node_inv E N a" and log: "log_inv E N a" using inv a by (simp_all add: net_inv_def)
  from step v obtain p maybe_tc where i: "input = ConstructAndSignVoteTwoChain p maybe_tc" and "r = Inr (VoteAnswer v)"
    and g: "guarded_construct_and_sign_vote_two_chain (env_crypto E) now p maybe_tc ?s = (Inr v, s')"
    by (rule vote_answer_input)
  obtain d where d: "stored ?s = Some d" "safety_data_wf d" "last_vote_ok E d"
    "data_inv (env_epoch E) d (epoch_votes E N a) (epoch_timeouts E N a)" and coh: "coherent ?s"
    using node by (auto simp: node_inv_def epoch_linked_def)
  from vote_ok [OF g coh] d(1) consider (again) "sd_last_vote d = Some v"
    | (cast) c where "vote_cast (env_crypto E) now p maybe_tc ?s v s' c" by auto
  then have "(vd_epoch (v_vote_data v) = env_epoch E \<longrightarrow> justified E N (v_vote_data v)) \<and>
      v_vote_data v \<in> env_data E \<and> li_consensus_data_hash (v_ledger_info v) = hash_vote_data (env_crypto E) (v_vote_data v) \<and>
      (vd_epoch (v_vote_data v) = env_epoch E \<longrightarrow> commit_fits (v_vote_data v) (v_ledger_info v))"
  proof cases
    case again
    then have "vd_epoch (v_vote_data v) = sd_epoch d" using d(2) by (simp add: safety_data_wf_def vote_epoch_def)
    moreover from again have "v_vote_data v \<in> epoch_votes E N a" if "sd_epoch d = env_epoch E"
      using d(4) that by (simp add: data_inv_def)
    ultimately show ?thesis using again d(3) log by (simp add: last_vote_ok_def log_inv_def)
  next
    case cast
    have "v_vote_data v \<in> env_data E" using adm cast i by (simp add: vote_cast_def Let_def)
    with cast_ledger_info [OF cast] cast_justified [OF env inv node cast] adm i show ?thesis by blast
  qed
  then show "vd_epoch (v_vote_data v) = env_epoch E \<Longrightarrow> justified E N (v_vote_data v)"
    and "v_vote_data v \<in> env_data E \<and> li_consensus_data_hash (v_ledger_info v) = hash_vote_data (env_crypto E) (v_vote_data v) \<and>
      (vd_epoch (v_vote_data v) = env_epoch E \<longrightarrow> commit_fits (v_vote_data v) (v_ledger_info v))"
    by blast+
qed

lemma emitted_ledger_info:
  assumes "handle_message cr now input s = (r, s')" and "SignLedgerInfo li \<in> emitted input r"
  obtains (vote) v where "v \<in> set (votes_of r)" "li = v_ledger_info v"
  | (commit) l sig where "input = SignCommitVote l li" "guarded_sign_commit_vote cr l li s = (Inr sig, s')"
proof -
  from assms(2) consider v where "r = Inr (VoteAnswer v)" "li = v_ledger_info v"
    | l sig where "r = Inr (SignatureAnswer sig)" "input = SignCommitVote l li"
    by (auto simp: emitted_def split: sum.splits safety_rules_output.splits safety_rules_input.splits)
  then show ?thesis
  proof cases
    case 1
    then show ?thesis by (intro vote) (simp_all add: votes_of_def)
  next
    case 2
    with assms(1) show ?thesis by (intro commit) (auto elim!: s_map_cases)
  qed
qed

lemma commit_vote_certified:
  assumes env: "env_wf E" and inv: "net_inv E N" and a: "a \<notin> env_faulty E"
    and g: "guarded_sign_commit_vote (env_crypto E) l li (node N a) = (Inr sig, s')"
    and adm: "admissible E N (node N a) (SignCommitVote l li)"
    and vd: "vd \<in> env_data E" "vd_epoch vd = env_epoch E" "li_consensus_data_hash li = hash_vote_data (env_crypto E) vd"
  shows "certified E N vd \<and> commit_fits vd li"
proof -
  from commit_vote_ok [OF g] obtain es where es: "epoch_state_opt (node N a) = Some es"
    "match_ordered_only (li_commit_info (lis_ledger_info l)) (li_commit_info li)"
    "lis_verify_signatures (env_crypto E) l (es_verifier es) = Inr ()" by blast
  have link: "epoch_linked (\<lambda>es. es_epoch es = env_epoch E \<longrightarrow> es_verifier es = env_verifier E) (node N a)"
    "\<exists>d. stored (node N a) = Some d" using inv a by (auto simp: net_inv_def node_inv_def)
  have "es_epoch es = env_epoch E" using adm es(1) vd by fastforce
  then have ver: "es_verifier es = env_verifier E" using link es(1) by (auto simp: epoch_linked_def)
  have "certified E N vd \<and> commit_fits vd (lis_ledger_info l)"
    by (rule signed_certified [OF env inv]) (use es(3) ver adm vd in \<open>auto simp: lis_verify_signatures_def\<close>)
  with es(2) show ?thesis by (auto simp: commit_fits_def same_block_def match_ordered_only_def)
qed

lemma serve_log_inv:
  assumes env: "env_wf E" and inv: "net_inv E N" and a: "a \<notin> env_faulty E"
    and step: "handle_message (env_crypto E) now input (node N a) = (r, s')" and adm: "admissible E N (node N a) input"
  shows "log_inv E (serve N a input r s') a"
proof -
  let ?N = "serve N a input r s'"
  note mono = grows_mono [OF serve_grows [of N a input r s']]
  have log: "log_inv E N a" using inv a by (simp add: net_inv_def)
  have "justified E ?N vd" if vd: "vd \<in> epoch_votes E ?N a" for vd
  proof (cases "vd \<in> epoch_votes E N a")
    case True
    with log mono(3) show ?thesis by (simp add: log_inv_def)
  next
    case False
    with vd obtain v where "v \<in> set (votes_of r)" "vd = v_vote_data v" "vd_epoch vd = env_epoch E"
      by (auto simp: serve_votes)
    with serve_vote_justified(1) [OF env inv a step adm] mono(3) show ?thesis by blast
  qed
  moreover have "((a, vd) \<in> voted_log ?N \<or> certified E ?N vd) \<and> commit_fits vd li"
    if li: "(a, SignLedgerInfo li) \<in> signed_log ?N" and vd: "vd \<in> env_data E" "vd_epoch vd = env_epoch E"
      "li_consensus_data_hash li = hash_vote_data (env_crypto E) vd" for li vd
  proof (cases "(a, SignLedgerInfo li) \<in> signed_log N")
    case True
    then have "((a, vd) \<in> voted_log N \<or> certified E N vd) \<and> commit_fits vd li" using log vd unfolding log_inv_def by blast
    then show ?thesis using mono(1) by (auto simp: serve_def)
  next
    case False
    then have "SignLedgerInfo li \<in> emitted input r" using li by (auto simp: serve_def)
    with step show ?thesis
    proof (cases rule: emitted_ledger_info)
      case (vote v)
      note v = serve_vote_justified(2) [OF env inv a step adm vote(1)]
      then have "v_vote_data v = vd" using env vd vote(2) by (auto simp: env_wf_def dest: inj_onD)
      with v vd vote show ?thesis by (auto simp: serve_def)
    next
      case (commit l sig)
      from commit_vote_certified [OF env inv a commit(2) _ vd] adm commit(1) mono(1) show ?thesis by blast
    qed
  qed
  ultimately show ?thesis unfolding log_inv_def by blast
qed

lemma node_inv_cong:
  assumes "node N' a = node N a \<or> same_data (node N a) (node N' a) \<and> (epoch_state_opt (node N' a) = epoch_state_opt (node N a) \<or> epoch_state_opt (node N' a) = None)"
    and "epoch_votes E N' a = epoch_votes E N a" and "epoch_timeouts E N' a = epoch_timeouts E N a" and "node_inv E N a"
  shows "node_inv E N' a"
  using assms by (auto simp: node_inv_def epoch_linked_def same_data_def)

lemma net_inv_update:
  assumes inv: "net_inv E N"
    and upd: "a \<notin> env_faulty E \<Longrightarrow> same_data (node N a) s' \<and> (epoch_state_opt s' = epoch_state_opt (node N a) \<or> epoch_state_opt s' = None)"
  shows "net_inv E (N\<lparr>node := (node N)(a := s')\<rparr>)"
proof -
  let ?N = "N\<lparr>node := (node N)(a := s')\<rparr>"
  have "node_inv E ?N b \<and> log_inv E ?N b" if b: "b \<notin> env_faulty E" for b
  proof -
    have old: "node_inv E N b" "log_inv E N b" using inv b by (auto simp: net_inv_def)
    have "log_inv E ?N b" by (rule log_inv_grows [OF old(2)]) (simp_all add: grows_def)
    moreover have "node_inv E ?N b"
      by (rule node_inv_cong [OF _ _ _ old(1)]) (use upd b in \<open>auto simp: epoch_votes_def epoch_timeouts_def\<close>)
    ultimately show ?thesis by blast
  qed
  then show ?thesis by (simp add: net_inv_def)
qed

lemma net_step_inv:
  assumes env: "env_wf E" and step: "net_step E N N'" and inv: "net_inv E N"
  shows "net_inv E N'"
  using step
proof cases
  case (net_serve a now input r s')
  have N': "N' = serve N a input r s'" using net_serve by (simp add: serve_def)
  have "node_inv E N' b \<and> log_inv E N' b" if b: "b \<notin> env_faulty E" for b
  proof (cases "b = a")
    case True
    have "node_inv E N a" using inv b True by (simp add: net_inv_def)
    from serve_node_inv [OF this net_serve(3,4)] serve_log_inv [OF env inv net_serve(2-4)] show ?thesis
      by (simp add: True N')
  next
    case False
    have old: "node_inv E N b" "log_inv E N b" using inv b by (auto simp: net_inv_def)
    have same: "epoch_votes E N' b = epoch_votes E N b" "epoch_timeouts E N' b = epoch_timeouts E N b" "node N' b = node N b"
      using False by (auto simp: N' serve_def epoch_votes_def epoch_timeouts_def)
    have "log_inv E N' b"
      by (rule log_inv_grows [OF old(2)]) (use False in \<open>auto simp: N' serve_def grows_def\<close>)
    with node_inv_cong [OF disjI1 [OF same(3)] same(1,2) old(1)] show ?thesis by blast
  qed
  then show ?thesis by (simp add: net_inv_def)
next
  case (net_fault a f)
  have "same_data (node N a) (set_fault f (node N a))" "epoch_state_opt (set_fault f (node N a)) = epoch_state_opt (node N a)"
    if "a \<notin> env_faulty E"
    using inv that environment_keeps by (auto simp: net_inv_def node_inv_def epoch_linked_def same_data_def) (simp add: set_fault_def)
  then show ?thesis unfolding net_fault by (intro net_inv_update [OF inv]) blast
next
  case (net_restart a caching)
  have "same_data (node N a) (restart caching (node N a))" "epoch_state_opt (restart caching (node N a)) = None"
    using environment_keeps by (auto simp: same_data_def) (simp add: restart_def safety_rules_new_def)
  then show ?thesis unfolding net_restart by (intro net_inv_update [OF inv]) blast
qed

lemma net_starts_inv:
  assumes "net_starts E N"
  shows "net_inv E N"
  using assms
  by (fastforce simp: net_inv_def net_starts_def node_inv_def node_starts_def log_inv_def data_inv_def last_vote_ok_def
      epoch_votes_def epoch_timeouts_def)

lemma reachable_inv:
  assumes "env_wf E" and "net_starts E N" and "(net_step E)\<^sup>*\<^sup>* N N'"
  shows "net_inv E N'"
  using assms(3)
  by (induction rule: rtranclp_induct) (auto intro: net_starts_inv assms net_step_inv)

section \<open>Agreement\<close>

text \<open>The edges from a certified block to the block it extends.\<close>

definition parent_edges :: "epoch_env \<Rightarrow> net \<Rightarrow> (block_info \<times> block_info) set" where
  "parent_edges E N = {(vd_parent vd, vd_proposed vd) | vd. certified E N vd}"

lemma certified_voter:
  assumes env: "env_wf E" and inv: "net_inv E N" and c: "certified E N vd"
  obtains a where "a \<notin> env_faulty E" "vd \<in> epoch_votes E N a"
proof -
  from c obtain Q where q: "is_quorum (env_verifier E) Q" "\<forall>a \<in> Q - env_faulty E. (a, vd) \<in> voted_log N"
    and e: "vd_epoch vd = env_epoch E" by (auto simp: certified_def)
  obtain a where "a \<in> Q - env_faulty E" using validators.quorum_has_honest [OF _ _ q(1)] env by (auto simp: env_wf_def)
  with q(2) e that show ?thesis by (auto simp: epoch_votes_def)
qed

lemma certified_justified:
  assumes "env_wf E" and "net_inv E N" and "certified E N vd"
  shows "justified E N vd"
proof -
  from assms obtain a where "a \<notin> env_faulty E" "vd \<in> epoch_votes E N a" by (rule certified_voter)
  with assms(2) show ?thesis by (auto simp: net_inv_def log_inv_def)
qed

lemma certified_unique:
  assumes env: "env_wf E" and inv: "net_inv E N" and c: "certified E N vd" "certified E N vd'"
    and r: "vd_round vd = vd_round vd'"
  shows "vd = vd'"
proof -
  from c obtain Q Q' where q: "is_quorum (env_verifier E) Q" "\<forall>a \<in> Q - env_faulty E. (a, vd) \<in> voted_log N"
    "is_quorum (env_verifier E) Q'" "\<forall>a \<in> Q' - env_faulty E. (a, vd') \<in> voted_log N"
    and e: "vd_epoch vd = env_epoch E" "vd_epoch vd' = env_epoch E" unfolding certified_def by blast
  from quorum_honest_overlap [OF _ _ q(1,3)] env obtain a where a: "a \<in> Q" "a \<in> Q'" "a \<notin> env_faulty E"
    by (auto simp: env_wf_def)
  then have "vd \<in> epoch_votes E N a" "vd' \<in> epoch_votes E N a" using q e by (auto simp: epoch_votes_def)
  moreover have "inj_on vd_round (epoch_votes E N a)" using inv a by (auto simp: net_inv_def node_inv_def data_inv_def)
  ultimately show ?thesis using r by (auto dest: inj_onD)
qed

text \<open>The lock: a timeout quorum above a certified vote does not certify less than the parent of that vote.\<close>

lemma timed_out_locked:
  assumes env: "env_wf E" and inv: "net_inv E N" and c: "certified E N vd" and t: "timed_out E N q hqc"
    and le: "vd_round vd \<le> q"
  shows "vd_parent_round vd \<le> hqc"
proof -
  from c obtain Q where q: "is_quorum (env_verifier E) Q" "\<forall>a \<in> Q - env_faulty E. (a, vd) \<in> voted_log N"
    and e: "vd_epoch vd = env_epoch E" unfolding certified_def by blast
  from t obtain Q' where q': "is_quorum (env_verifier E) Q'"
    "\<forall>a \<in> Q' - env_faulty E. \<exists>t \<in> epoch_timeouts E N a. tsr_round t = q \<and> tsr_hqc_round t \<le> hqc"
    unfolding timed_out_def by blast
  from quorum_honest_overlap [OF _ _ q(1) q'(1)] env obtain a where a: "a \<in> Q" "a \<in> Q'" "a \<notin> env_faulty E"
    by (auto simp: env_wf_def)
  then obtain t where t: "t \<in> epoch_timeouts E N a" "tsr_round t = q" "tsr_hqc_round t \<le> hqc" using q' by auto
  have "vd \<in> epoch_votes E N a" using q e a by (auto simp: epoch_votes_def)
  moreover have "\<forall>t \<in> epoch_timeouts E N a. \<forall>vd \<in> epoch_votes E N a. vd_round vd \<le> tsr_round t \<longrightarrow> vd_parent_round vd \<le> tsr_hqc_round t"
    using inv a unfolding net_inv_def node_inv_def data_inv_def by blast
  ultimately show ?thesis using t le by force
qed

text \<open>Once a block is committed by a certified child in the next round, every certified block from that round on
  extends it.\<close>

lemma committed_extended:
  assumes env: "env_wf E" and inv: "net_inv E N" and c: "certified E N vd"
    and commit: "unat (vd_round vd) = unat (vd_parent_round vd) + 1" and pos: "vd_parent_round vd \<noteq> 0"
  shows "certified E N w \<Longrightarrow> vd_parent_round vd \<le> vd_round w \<Longrightarrow> (vd_parent vd, vd_proposed w) \<in> (parent_edges E N)\<^sup>*"
proof (induction "unat (vd_round w)" arbitrary: w rule: less_induct)
  case less
  from certified_justified [OF env inv c] pos obtain b where b: "certified E N b" "vd_proposed b = vd_parent vd"
    by (auto simp: justified_def)
  note jw = certified_justified [OF env inv less.prems(1)]
  have edge: "(vd_parent w, vd_proposed w) \<in> parent_edges E N" using less.prems(1) by (auto simp: parent_edges_def)
  consider (same) "vd_round w = vd_parent_round vd" | (child) "vd_round w = vd_round vd" | (later) "vd_round vd < vd_round w"
  proof -
    have "unat (vd_round w) = unat (vd_parent_round vd) \<or> unat (vd_round w) = unat (vd_round vd) \<or> unat (vd_round vd) < unat (vd_round w)"
      using less.prems(2) commit by (auto simp: word_le_nat_alt)
    then show ?thesis using that by (auto simp: word_less_nat_alt word_unat_eq_iff)
  qed
  then show ?case
  proof cases
    case same
    with certified_unique [OF env inv less.prems(1) b(1)] b(2) show ?thesis by simp
  next
    case child
    with certified_unique [OF env inv less.prems(1) c] edge show ?thesis by auto
  next
    case later
    have ge: "vd_parent_round vd \<le> vd_parent_round w"
    proof (rule ccontr)
      assume n: "\<not> vd_parent_round vd \<le> vd_parent_round w"
      then have "unat (vd_round w) \<noteq> unat (vd_parent_round w) + 1" using later commit by (simp add: word_less_nat_alt word_le_nat_alt)
      with jw obtain q where q: "unat (vd_round w) = unat q + 1" "timed_out E N q (vd_parent_round w)" by (auto simp: justified_def)
      have "vd_round vd \<le> q" using later q(1) by (simp add: word_less_nat_alt word_le_nat_alt)
      from timed_out_locked [OF env inv c q(2) this] n show False by simp
    qed
    with pos have "vd_parent_round w \<noteq> 0" by auto
    with jw obtain u where u: "certified E N u" "vd_proposed u = vd_parent w" by (auto simp: justified_def)
    have "unat (vd_round u) < unat (vd_round w)" using jw u(2) by (auto simp: justified_def word_less_nat_alt)
    from less.hyps [OF this u(1)] ge u(2) have "(vd_parent vd, vd_parent w) \<in> (parent_edges E N)\<^sup>*" by simp
    with edge show ?thesis by (rule rtrancl_into_rtrancl [rotated]) 
  qed
qed

lemma parent_edges_round:
  assumes env: "env_wf E" and inv: "net_inv E N"
  shows "(x, y) \<in> (parent_edges E N)\<^sup>* \<Longrightarrow> x = y \<or> bi_round x < bi_round y"
proof (induction rule: rtrancl_induct)
  case (step y z)
  then obtain vd where vd: "certified E N vd" "y = vd_parent vd" "z = vd_proposed vd" by (auto simp: parent_edges_def)
  then have "bi_round y < bi_round z" using certified_justified [OF env inv vd(1)] by (simp add: justified_def)
  with step.IH show ?case by auto
qed simp

lemma committed_block:
  assumes env: "env_wf E" and inv: "net_inv E N" and qc: "qc_verify (env_crypto E) qc (env_verifier E) = Inr ()"
    and u: "qc_unforged E N qc" and e: "bi_epoch (certified_block qc) = env_epoch E" and r: "bi_round (qc_commit_info qc) \<noteq> 0"
  obtains vd where "certified E N vd" "unat (vd_round vd) = unat (vd_parent_round vd) + 1" "vd_parent_round vd \<noteq> 0"
    "same_block (vd_parent vd) (qc_commit_info qc)"
proof -
  have "bi_round (certified_block qc) \<noteq> 0" using qc r by (auto simp: qc_verify_def result_simps)
  from qc_certified [OF env inv qc u e this] r that [of "qc_vote_data qc"] show ?thesis
    by (auto simp: commit_fits_def qc_commit_info_def same_block_def)
qed

lemma committed_chain:
  assumes env: "env_wf E" and inv: "net_inv E N"
    and v: "certified E N v" "unat (vd_round v) = unat (vd_parent_round v) + 1" "vd_parent_round v \<noteq> 0"
    and w: "certified E N w" "unat (vd_round w) = unat (vd_parent_round w) + 1" "vd_parent_round w \<noteq> 0"
    and le: "vd_parent_round v \<le> vd_parent_round w"
  shows "(vd_parent v, vd_parent w) \<in> (parent_edges E N)\<^sup>*"
proof -
  from certified_justified [OF env inv w(1)] w(3) obtain b where b: "certified E N b" "vd_proposed b = vd_parent w"
    by (auto simp: justified_def)
  with committed_extended [OF env inv v b(1)] le show ?thesis by simp
qed

text \<open>C1. Agreement. In every state that the validators reach in an epoch, with less than a third of the voting power
  faulty and no signature forged, any two blocks that verified quorum certificates commit lie on one chain of certified
  blocks; in particular two commits of one round are of the same block.\<close>

theorem two_chain_agreement:
  assumes "env_wf E" and "net_starts E N0" and "(net_step E)\<^sup>*\<^sup>* N0 N"
    and "\<forall>qc \<in> {qc1, qc2}. qc_verify (env_crypto E) qc (env_verifier E) = Inr () \<and> qc_unforged E N qc \<and>
      bi_epoch (certified_block qc) = env_epoch E \<and> bi_round (qc_commit_info qc) \<noteq> 0"
  shows "(\<exists>b1 b2. same_block b1 (qc_commit_info qc1) \<and> same_block b2 (qc_commit_info qc2) \<and>
      ((b1, b2) \<in> (parent_edges E N)\<^sup>* \<or> (b2, b1) \<in> (parent_edges E N)\<^sup>*)) \<and>
    (bi_round (qc_commit_info qc1) = bi_round (qc_commit_info qc2) \<longrightarrow> bi_id (qc_commit_info qc1) = bi_id (qc_commit_info qc2))"
proof -
  note inv = reachable_inv [OF assms(1-3)]
  obtain v where v: "certified E N v" "unat (vd_round v) = unat (vd_parent_round v) + 1" "vd_parent_round v \<noteq> 0"
    "same_block (vd_parent v) (qc_commit_info qc1)"
    by (rule committed_block [OF assms(1) inv, of qc1]) (use assms(4) in auto)
  obtain w where w: "certified E N w" "unat (vd_round w) = unat (vd_parent_round w) + 1" "vd_parent_round w \<noteq> 0"
    "same_block (vd_parent w) (qc_commit_info qc2)"
    by (rule committed_block [OF assms(1) inv, of qc2]) (use assms(4) in auto)
  have chain: "(vd_parent v, vd_parent w) \<in> (parent_edges E N)\<^sup>* \<or> (vd_parent w, vd_parent v) \<in> (parent_edges E N)\<^sup>*"
    using committed_chain [OF assms(1) inv v(1-3) w(1-3)] committed_chain [OF assms(1) inv w(1-3) v(1-3)] by (meson linear)
  moreover have "vd_parent v = vd_parent w" if "vd_parent_round v = vd_parent_round w"
    using chain parent_edges_round [OF assms(1) inv] that by (metis less_irrefl)
  ultimately show ?thesis using v(4) w(4) unfolding same_block_def by metis
qed

section \<open>A run of four validators\<close>

text \<open>Three of the four sample validators vote for the sample blocks of rounds 1, 2 and 3; the fourth may be faulty.\<close>

definition sample_env :: epoch_env where
  "sample_env = \<lparr>env_crypto = sample_crypto, env_epoch = 1, env_verifier = sample_verifier, env_faulty = {4},
     env_data = sample_vote_data ` {0, 1, 2, 3}\<rparr>"

definition sample_net :: "(account_address \<Rightarrow> round) \<Rightarrow> net" where
  "sample_net latest = \<lparr>node = (\<lambda>a. sample_rules a (latest a)),
     signed_log = (SIGMA a:UNIV. (\<lambda>r. SignLedgerInfo (sample_vote_info r)) ` {0<..latest a}),
     voted_log = (SIGMA a:UNIV. sample_vote_data ` {0<..latest a})\<rparr>"

lemma sample_env_wf: "env_wf sample_env"
proof -
  have "inj_on (hash_vote_data sample_crypto) (sample_vote_data ` {0, 1, 2, 3})"
    by (rule inj_onI) (auto simp: sample_crypto_fields sample_vote_data_def)
  moreover have "tolerates sample_verifier {4}"
  proof -
    have "{4} \<inter> validator_set sample_verifier = {4}"
      by (simp add: validator_set_def sample_verifier_def sample_infos_def build_index_def)
    moreover have "unat (total_voting_power sample_verifier) = 4" by (simp add: sample_verifier_def build_index_def)
    ultimately show ?thesis by (simp add: tolerates_def power_of_def vp_def sample_voting_power)
  qed
  ultimately show ?thesis by (simp add: env_wf_def sample_env_def sample_verifier_wf)
qed

lemma sample_net_starts: "net_starts sample_env (sample_net (\<lambda>_. 0))"
proof -
  have "node_starts sample_env (sample_rules a 0)" for a
    using sample_rules_ok [of a 0]
    by (auto simp: node_starts_def epoch_linked_def sample_env_def) (auto simp: sample_rules_def sample_data_def)
  then show ?thesis by (auto simp: net_starts_def sample_net_def)
qed

lemma sample_signers: "set (signers sample_verifier sample_signature) = {1, 2, 3}"
  by (simp add: signers_def sample_signature_def sample_iter_ones sample_verifier_def sample_infos_def build_index_def)

lemma sample_qc_unforged:
  assumes "r \<in> {0, 1, 2, 3}" and "\<And>a. a \<in> {1, 2, 3} \<Longrightarrow> r \<le> latest a"
  shows "qc_unforged sample_env (sample_net latest) (sample_qc r)"
proof -
  have empty: "signers v aggregate_signature_empty = []" for v
    by (simp add: signers_def aggregate_signature_empty_def bv_default_def iter_ones_def)
  have "sample_vote_data r \<in> env_data sample_env" using assms(1) by (auto simp: sample_env_def)
  then show ?thesis
    using assms(2) by (auto simp: qc_unforged_def multi_unforged_def sample_qc_def empty sample_env_def sample_signers sample_net_def word_gt_0)
qed

lemma sample_net_step:
  assumes "r \<in> {1, 2, 3}" and "a \<in> {1, 2, 3}" and "latest a = before r" and "\<And>b. b \<in> {1, 2, 3} \<Longrightarrow> before r \<le> latest b"
  shows "net_step sample_env (sample_net latest) (sample_net (latest(a := r)))"
proof -
  let ?input = "ConstructAndSignVoteTwoChain (sample_proposal r) None"
  have r: "r \<noteq> 0" "r \<le> 300000000" using assms(1) by auto
  have step: "handle_message (env_crypto sample_env) 0 ?input (node (sample_net latest) a) =
      (Inr (VoteAnswer (sample_vote a r)), sample_rules a r)"
    using sample_vote_step [OF r, of a] assms(3) by (simp add: sample_env_def sample_net_def)
  have before: "before r \<in> {0, 1, 2, 3}" using assms(1) by (auto simp: before_def)
  have "gen_vote_data sample_crypto (sample_proposal r) = Inr (sample_vote_data r)"
    by (simp add: gen_vote_data_def sample_proposal_def vote_data_ordering_only_def sample_vote_data_def gen_block_info_def sample_info_def)
  then have adm: "admissible sample_env (sample_net latest) (node (sample_net latest) a) ?input"
    using sample_qc_unforged [OF before assms(4)] assms(1) by (auto simp: sample_env_def sample_proposal_def)
  have "x \<le> r \<longleftrightarrow> x \<le> before r \<or> x = r" for x
    using checked_before [OF r(1)] by (auto simp: word_to_nat word_le_nat_alt word_unat_eq_iff)
  then have up: "{0<..r} = insert r {0<..before r}" using r(1) by (auto simp: word_gt_0)
  have log: "(SIGMA b:UNIV. f ` {0<..(latest(a := r)) b}) = (SIGMA b:UNIV. f ` {0<..latest b}) \<union> {(a, f r)}" for f :: "round \<Rightarrow> 'b"
    using assms(3) up by (auto split: if_splits)
  have "sample_net (latest(a := r)) = \<lparr>node = (node (sample_net latest))(a := sample_rules a r),
       signed_log = signed_log (sample_net latest) \<union> Pair a ` emitted ?input (Inr (VoteAnswer (sample_vote a r))),
       voted_log = voted_log (sample_net latest) \<union> Pair a ` v_vote_data ` set (votes_of (Inr (VoteAnswer (sample_vote a r))))\<rparr>"
    unfolding sample_net_def log
    by (auto simp: emitted_def votes_of_def sample_vote_def vote_new_with_signature_def)
  with net_serve [OF _ step adm] assms(2) show ?thesis by (auto simp: sample_env_def)
qed

lemma sample_run:
  "(net_step sample_env)\<^sup>*\<^sup>* (sample_net (\<lambda>_. 0)) (sample_net ((\<lambda>_. 0)(1 := 3, 2 := 3, 3 := 3)))"
proof -
  let ?n = "\<lambda>x y z :: round. (\<lambda>_. 0)(1 := x, 2 := y, 3 := z) :: account_address \<Rightarrow> round"
  have round: "(net_step sample_env)\<^sup>*\<^sup>* (sample_net (?n (before r) (before r) (before r))) (sample_net (?n r r r))"
    if r: "r \<in> {1, 2, 3}" for r
  proof -
    have le: "before r \<le> r" using r by (auto simp: before_def)
    let ?b = "before r"
    have upd: "?n r ?b ?b = (?n ?b ?b ?b)(1 := r)" "?n r r ?b = (?n r ?b ?b)(2 := r)" "?n r r r = (?n r r ?b)(3 := r)"
      by (auto simp: fun_eq_iff)
    have "net_step sample_env (sample_net (?n ?b ?b ?b)) (sample_net ((?n ?b ?b ?b)(1 := r)))"
      by (rule sample_net_step [OF r]) auto
    moreover have "net_step sample_env (sample_net (?n r ?b ?b)) (sample_net ((?n r ?b ?b)(2 := r)))"
      by (rule sample_net_step [OF r]) (use le in auto)
    moreover have "net_step sample_env (sample_net (?n r r ?b)) (sample_net ((?n r r ?b)(3 := r)))"
      by (rule sample_net_step [OF r]) (use le in auto)
    ultimately have "net_step sample_env (sample_net (?n ?b ?b ?b)) (sample_net (?n r ?b ?b))"
      "net_step sample_env (sample_net (?n r ?b ?b)) (sample_net (?n r r ?b))" "net_step sample_env (sample_net (?n r r ?b)) (sample_net (?n r r r))"
      by (simp_all only: upd)
    then show ?thesis by (meson converse_rtranclp_into_rtranclp rtranclp.rtrancl_refl)
  qed
  have "?n 0 0 0 = (\<lambda>_. 0)" by (simp add: fun_upd_idem)
  with round [of 1] round [of 2] round [of 3] show ?thesis by (simp add: sample_before)
qed

theorem two_chain_agreement_witness:
  "\<exists>b1 b2. same_block b1 (sample_info 1) \<and> same_block b2 (sample_info 2) \<and>
     ((b1, b2) \<in> (parent_edges sample_env (sample_net ((\<lambda>_. 0)(1 := 3, 2 := 3, 3 := 3))))\<^sup>* \<or>
      (b2, b1) \<in> (parent_edges sample_env (sample_net ((\<lambda>_. 0)(1 := 3, 2 := 3, 3 := 3))))\<^sup>*)"
proof -
  let ?N = "sample_net ((\<lambda>_. 0)(1 := 3, 2 := 3, 3 := 3))"
  have commit: "qc_commit_info (sample_qc r) = sample_info (before r)" for r
    by (simp add: qc_commit_info_def sample_vote_info_def)
  have qcs: "\<forall>qc \<in> {sample_qc 2, sample_qc 3}. qc_verify (env_crypto sample_env) qc (env_verifier sample_env) = Inr () \<and>
      qc_unforged sample_env ?N qc \<and> bi_epoch (certified_block qc) = env_epoch sample_env \<and> bi_round (qc_commit_info qc) \<noteq> 0"
  proof -
    have "qc_unforged sample_env ?N (sample_qc 2)" "qc_unforged sample_env ?N (sample_qc 3)"
      by (rule sample_qc_unforged; auto)+
    then show ?thesis by (simp add: commit sample_before) (simp add: sample_env_def)
  qed
  from two_chain_agreement [OF sample_env_wf sample_net_starts sample_run qcs] show ?thesis
    by (simp add: commit sample_before)
qed

end
