(* ===== verification/Mempool_Index.thy ===== *)
theory Mempool_Index
  imports Chain_Data "HOL-Library.Product_Lexorder" "HOL-Library.Multiset"
begin

text \<open>
  The transactions of the mempool and the indexes over them (mempool/src/core_mempool/transaction.rs and index.rs):
  the priority index that blocks are built from, the two expiration indexes, the timelines for broadcasting and
  the parking lot of the transactions that are not ready.

  \<^item> A \<open>BTreeSet\<close> is an ordered map to \<open>unit\<close>. Sizes of collections (\<open>usize\<close>) are natural numbers, with the
    panic of a subtraction below zero.
  \<^item> The locale \<open>txn_index\<close> is what the store relies on: an index is the set of the keys put into it. It is
    interpreted on each index; for the parking lot this is the correctness of its vector of accounts with
    \<open>swap_remove\<close> and the map of positions into it.
  \<^item> \<open>timeline_inv\<close> relates the timelines to the states of the transactions.

  The labels of the metrics are left out.
\<close>

section \<open>Transactions in the mempool\<close>

datatype timeline_state = Ready u64 | NotReady | NonQualified

fun is_ready :: "timeline_state \<Rightarrow> bool" where
  "is_ready (Ready _) = True"
| "is_ready NotReady = False"
| "is_ready NonQualified = False"

record sequence_info =
  transaction_sequence_number :: u64
  account_sequence_number :: u64

datatype submitted_by = Client | Downstream | PeerValidator

record insertion_info =
  ii_insertion_time :: duration
  ii_submitted_by :: submitted_by

definition insertion_info_new :: "duration \<Rightarrow> bool \<Rightarrow> timeline_state \<Rightarrow> insertion_info" where
  "insertion_info_new now client_submitted state =
     \<lparr> ii_insertion_time = now,
       ii_submitted_by = (if client_submitted then Client
                          else if state = NonQualified then PeerValidator else Downstream) \<rparr>"

record mempool_transaction =
  mt_txn :: signed_transaction
  mt_expiration_time :: duration
  mt_ranking_score :: u64
  mt_timeline_state :: timeline_state
  mt_sequence_info :: sequence_info
  mt_insertion_info :: insertion_info
  mt_was_parked :: bool

definition st_sender :: "signed_transaction \<Rightarrow> account_address" where
  "st_sender t = rt_sender (st_raw_txn t)"

definition st_sequence_number :: "signed_transaction \<Rightarrow> u64" where
  "st_sequence_number t = rt_sequence_number (st_raw_txn t)"

definition mempool_transaction_new ::
  "signed_transaction \<Rightarrow> duration \<Rightarrow> u64 \<Rightarrow> timeline_state \<Rightarrow> u64 \<Rightarrow> duration \<Rightarrow> bool \<Rightarrow> mempool_transaction" where
  "mempool_transaction_new txn expiration ranking_score state seqno now client_submitted =
     \<lparr> mt_txn = txn, mt_expiration_time = expiration, mt_ranking_score = ranking_score,
       mt_timeline_state = state,
       mt_sequence_info = \<lparr> transaction_sequence_number = st_sequence_number txn, account_sequence_number = seqno \<rparr>,
       mt_insertion_info = insertion_info_new now client_submitted state,
       mt_was_parked = False \<rparr>"

definition get_sender :: "mempool_transaction \<Rightarrow> account_address" where
  "get_sender t = st_sender (mt_txn t)"

definition get_gas_price :: "mempool_transaction \<Rightarrow> u64" where
  "get_gas_price t = rt_gas_unit_price (st_raw_txn (mt_txn t))"

abbreviation mt_sequence_number :: "mempool_transaction \<Rightarrow> u64" where
  "mt_sequence_number t \<equiv> transaction_sequence_number (mt_sequence_info t)"

text \<open>\<open>TxnPointer\<close> is the \<open>TransactionSummary\<close> of consensus-types.\<close>

type_synonym txn_pointer = "account_address \<times> u64"

definition txn_pointer :: "mempool_transaction \<Rightarrow> txn_pointer" where
  "txn_pointer t = (get_sender t, mt_sequence_number t)"

text \<open>What the mempool reads of code outside it: the length of the BCS encoding of a raw transaction, the
  SHA3 hash a committed transaction has, and the memory a transaction takes beside its raw bytes, which is a
  sum of the sizes the compiler gives the structures that hold it.\<close>

record txn_env =
  raw_txn_bytes_len :: "raw_transaction \<Rightarrow> nat"
  committed_hash :: "signed_transaction \<Rightarrow> hash_value"
  txn_overhead_bytes :: nat

definition get_estimated_bytes :: "txn_env \<Rightarrow> mempool_transaction \<Rightarrow> nat" where
  "get_estimated_bytes E t = raw_txn_bytes_len E (st_raw_txn (mt_txn t)) + txn_overhead_bytes E"

section \<open>Priority index\<close>

text \<open>The ordering of \<open>OrderedQueueKey\<close> does not look at the account's sequence number, and a \<open>BTreeSet\<close> only
  looks at the ordering: the index maps the part that is compared to the part that is not, and an insertion
  keeps the entry that is there.\<close>

datatype ordered_queue_key =
  OrderedQueueKey (qk_gas_ranking_score: u64) (qk_expiration_time: duration)
    (qk_address: account_address) (qk_sequence_number: u64)

fun queue_key_less :: "ordered_queue_key \<Rightarrow> ordered_queue_key \<Rightarrow> bool" where
  "queue_key_less (OrderedQueueKey g e a n) (OrderedQueueKey g' e' a' n') \<longleftrightarrow>
     (if g \<noteq> g' then g < g' else if e \<noteq> e' then e' < e else if a \<noteq> a' then a < a' else n' < n)"

instantiation ordered_queue_key :: linorder
begin

definition less_ordered_queue_key :: "ordered_queue_key \<Rightarrow> ordered_queue_key \<Rightarrow> bool" where
  "less_ordered_queue_key = queue_key_less"

definition less_eq_ordered_queue_key :: "ordered_queue_key \<Rightarrow> ordered_queue_key \<Rightarrow> bool" where
  "less_eq_ordered_queue_key k l \<longleftrightarrow> k < l \<or> k = l"

instance
proof
  fix x y z :: ordered_queue_key
  show "x < y \<longleftrightarrow> x \<le> y \<and> \<not> y \<le> x"
    by (cases x; cases y) (auto simp: less_eq_ordered_queue_key_def less_ordered_queue_key_def split: if_splits)
  show "x \<le> x" by (simp add: less_eq_ordered_queue_key_def less_ordered_queue_key_def)
  show "x \<le> y \<Longrightarrow> y \<le> z \<Longrightarrow> x \<le> z"
    by (cases x; cases y; cases z) (auto simp: less_eq_ordered_queue_key_def less_ordered_queue_key_def split: if_splits)
  show "x \<le> y \<Longrightarrow> y \<le> x \<Longrightarrow> x = y"
    by (cases x; cases y) (auto simp: less_eq_ordered_queue_key_def less_ordered_queue_key_def split: if_splits)
  show "x \<le> y \<or> y \<le> x"
    by (cases x; cases y) (auto simp: less_eq_ordered_queue_key_def less_ordered_queue_key_def)
qed

end

lemma less_OrderedQueueKey [simp]:
  "OrderedQueueKey g e a n < OrderedQueueKey g' e' a' n' \<longleftrightarrow>
     (if g \<noteq> g' then g < g' else if e \<noteq> e' then e' < e else if a \<noteq> a' then a < a' else n' < n)"
  by (simp add: less_ordered_queue_key_def)

type_synonym priority_index = "(ordered_queue_key, u64) btree"

definition priority_key :: "mempool_transaction \<Rightarrow> ordered_queue_key" where
  "priority_key t = OrderedQueueKey (mt_ranking_score t) (mt_expiration_time t) (get_sender t) (mt_sequence_number t)"

definition priority_insert :: "mempool_transaction \<Rightarrow> priority_index \<Rightarrow> priority_index" where
  "priority_insert t ix = bt_entry (priority_key t) (account_sequence_number (mt_sequence_info t)) ix"

definition priority_remove :: "mempool_transaction \<Rightarrow> priority_index \<Rightarrow> priority_index" where
  "priority_remove t ix = bt_remove (priority_key t) ix"

definition priority_contains :: "priority_index \<Rightarrow> mempool_transaction \<Rightarrow> bool" where
  "priority_contains ix t \<longleftrightarrow> map_of ix (priority_key t) \<noteq> None"

definition priority_iter :: "priority_index \<Rightarrow> ordered_queue_key list" where
  "priority_iter ix = rev (map fst ix)"

section \<open>Expiration indexes\<close>

datatype ttl_ordering_key =
  TTLOrderingKey (tk_expiration_time: duration) (tk_address: account_address) (tk_sequence_number: u64)

fun ttl_key_less :: "ttl_ordering_key \<Rightarrow> ttl_ordering_key \<Rightarrow> bool" where
  "ttl_key_less (TTLOrderingKey e a n) (TTLOrderingKey e' a' n') \<longleftrightarrow>
     (if e = e' then (a, n) < (a', n') else e < e')"

instantiation ttl_ordering_key :: linorder
begin

definition less_ttl_ordering_key :: "ttl_ordering_key \<Rightarrow> ttl_ordering_key \<Rightarrow> bool" where
  "less_ttl_ordering_key = ttl_key_less"

definition less_eq_ttl_ordering_key :: "ttl_ordering_key \<Rightarrow> ttl_ordering_key \<Rightarrow> bool" where
  "less_eq_ttl_ordering_key k l \<longleftrightarrow> k < l \<or> k = l"

instance
proof
  fix x y z :: ttl_ordering_key
  show "x < y \<longleftrightarrow> x \<le> y \<and> \<not> y \<le> x"
    by (cases x; cases y) (auto simp: less_eq_ttl_ordering_key_def less_ttl_ordering_key_def split: if_splits)
  show "x \<le> x" by (simp add: less_eq_ttl_ordering_key_def less_ttl_ordering_key_def)
  show "x \<le> y \<Longrightarrow> y \<le> z \<Longrightarrow> x \<le> z"
    by (cases x; cases y; cases z) (auto simp: less_eq_ttl_ordering_key_def less_ttl_ordering_key_def split: if_splits)
  show "x \<le> y \<Longrightarrow> y \<le> x \<Longrightarrow> x = y"
    by (cases x; cases y) (auto simp: less_eq_ttl_ordering_key_def less_ttl_ordering_key_def split: if_splits)
  show "x \<le> y \<or> y \<le> x"
    by (cases x; cases y) (auto simp: less_eq_ttl_ordering_key_def less_ttl_ordering_key_def)
qed

end

lemma less_TTLOrderingKey [simp]:
  "TTLOrderingKey e a n < TTLOrderingKey e' a' n' \<longleftrightarrow>
     (if e = e' then (a, n) < (a', n') else e < e')"
  by (simp add: less_ttl_ordering_key_def)

text \<open>A \<open>TTLIndex\<close> is built with the function that reads the expiration time of a transaction; the store has one
  index for each of the two functions below.\<close>

type_synonym ttl_index = "(ttl_ordering_key, unit) btree"

definition system_expiration :: "mempool_transaction \<Rightarrow> duration" where
  "system_expiration t = mt_expiration_time t"

definition client_expiration :: "mempool_transaction \<Rightarrow> duration" where
  "client_expiration t = duration_from_secs (rt_expiration_timestamp_secs (st_raw_txn (mt_txn t)))"

definition ttl_key :: "(mempool_transaction \<Rightarrow> duration) \<Rightarrow> mempool_transaction \<Rightarrow> ttl_ordering_key" where
  "ttl_key f t = TTLOrderingKey (f t) (get_sender t) (mt_sequence_number t)"

definition ttl_insert :: "(mempool_transaction \<Rightarrow> duration) \<Rightarrow> mempool_transaction \<Rightarrow> ttl_index \<Rightarrow> ttl_index" where
  "ttl_insert f t ix = bt_insert (ttl_key f t) () ix"

definition ttl_remove :: "(mempool_transaction \<Rightarrow> duration) \<Rightarrow> mempool_transaction \<Rightarrow> ttl_index \<Rightarrow> ttl_index" where
  "ttl_remove f t ix = bt_remove (ttl_key f t) ix"

definition ttl_gc :: "duration \<Rightarrow> ttl_index \<Rightarrow> ttl_ordering_key list \<times> ttl_index" where
  "ttl_gc now ix =
     (let key = TTLOrderingKey now 0 0
      in (map fst (filter (\<lambda>(k, _). k < key) ix), filter (\<lambda>(k, _). \<not> k < key) ix))"

section \<open>Timelines\<close>

record timeline_index =
  tl_timeline_id :: u64
  tl_timeline :: "(u64, account_address \<times> u64) btree"

definition timeline_new :: timeline_index where
  "timeline_new = \<lparr> tl_timeline_id = 1, tl_timeline = [] \<rparr>"

text \<open>The loop of \<open>read_timeline\<close> compares the length of the batch with the max_count after each push.\<close>

fun read_batch :: "'a list \<Rightarrow> nat \<Rightarrow> 'a list \<Rightarrow> 'a list" where
  "read_batch batch max_count [] = batch"
| "read_batch batch max_count (x # xs) =
     (if length (batch @ [x]) = max_count then batch @ [x] else read_batch (batch @ [x]) max_count xs)"

definition timeline_read :: "timeline_index \<Rightarrow> u64 \<Rightarrow> nat \<Rightarrow> (account_address \<times> u64) list" where
  "timeline_read ti timeline_id max_count =
     read_batch [] max_count (map snd (filter (\<lambda>(id, _). timeline_id < id) (tl_timeline ti)))"

definition timeline_range :: "timeline_index \<Rightarrow> u64 \<Rightarrow> u64 \<Rightarrow> (account_address \<times> u64) list anyhow" where
  "timeline_range ti start_id end_id =
     (if end_id < start_id then Inl Panic
      else Inr (map snd (filter (\<lambda>(id, _). start_id < id \<and> id \<le> end_id) (tl_timeline ti))))"

definition timeline_insert :: "mempool_transaction \<Rightarrow> timeline_index \<Rightarrow> (mempool_transaction \<times> timeline_index) anyhow" where
  "timeline_insert t ti =
     and_then (expect (checked_add (tl_timeline_id ti) 1)) (\<lambda>id'.
       Inr (t\<lparr> mt_timeline_state := Ready (tl_timeline_id ti) \<rparr>,
            \<lparr> tl_timeline_id = id',
              tl_timeline = bt_insert (tl_timeline_id ti) (get_sender t, mt_sequence_number t) (tl_timeline ti) \<rparr>))"

definition timeline_remove :: "mempool_transaction \<Rightarrow> timeline_index \<Rightarrow> timeline_index" where
  "timeline_remove t ti =
     (case mt_timeline_state t of
        Ready timeline_id \<Rightarrow> ti\<lparr> tl_timeline := bt_remove timeline_id (tl_timeline ti) \<rparr>
      | _ \<Rightarrow> ti)"

record multi_bucket_timeline_index =
  mb_timelines :: "timeline_index list"
  mb_bucket_mins :: "u64 list"

definition multi_bucket_new :: "u64 list \<Rightarrow> multi_bucket_timeline_index anyhow" where
  "multi_bucket_new bucket_mins =
     and_then (ensure (bucket_mins \<noteq> []) ''Must not be empty'') (\<lambda>_.
     and_then (ensure (hd bucket_mins = 0) ''First bucket must start at 0'') (\<lambda>_.
     and_then (ensure (sorted_wrt (<) bucket_mins) ''Values must be sorted and not repeat'') (\<lambda>_.
       Inr \<lparr> mb_timelines = map (\<lambda>_. timeline_new) bucket_mins, mb_bucket_mins = bucket_mins \<rparr>)))"

text \<open>\<open>binary_search\<close> of a sorted slice: the index of the element, or where it would be inserted.\<close>

definition binary_search :: "u64 list \<Rightarrow> u64 \<Rightarrow> nat + nat" where
  "binary_search xs x =
     (let i = length (takeWhile (\<lambda>y. y < x) xs)
      in if i < length xs \<and> xs ! i = x then Inr i else Inl i)"

definition bucket_index :: "multi_bucket_timeline_index \<Rightarrow> u64 \<Rightarrow> nat anyhow" where
  "bucket_index mb ranking_score =
     (case binary_search (mb_bucket_mins mb) ranking_score of Inr i \<Rightarrow> Inr i | Inl i \<Rightarrow> nat_sub i 1)"

definition get_timeline :: "multi_bucket_timeline_index \<Rightarrow> u64 \<Rightarrow> (nat \<times> timeline_index) anyhow" where
  "get_timeline mb ranking_score =
     and_then (bucket_index mb ranking_score) (\<lambda>i.
       if i < length (mb_timelines mb) then Inr (i, mb_timelines mb ! i) else Inl Panic)"

definition multi_insert :: "mempool_transaction \<Rightarrow> multi_bucket_timeline_index \<Rightarrow>
    (mempool_transaction \<times> multi_bucket_timeline_index) anyhow" where
  "multi_insert t mb =
     and_then (get_timeline mb (mt_ranking_score t)) (\<lambda>(i, ti).
     and_then (timeline_insert t ti) (\<lambda>(t', ti').
       Inr (t', mb\<lparr> mb_timelines := (mb_timelines mb)[i := ti'] \<rparr>)))"

definition multi_remove :: "mempool_transaction \<Rightarrow> multi_bucket_timeline_index \<Rightarrow> multi_bucket_timeline_index anyhow" where
  "multi_remove t mb =
     and_then (get_timeline mb (mt_ranking_score t)) (\<lambda>(i, ti).
       Inr (mb\<lparr> mb_timelines := (mb_timelines mb)[i := timeline_remove t ti] \<rparr>))"

text \<open>The loop of \<open>read_timeline\<close> runs from the last bucket to the first; what is left of the buckets when the
  max_count is reached is filled with empty batches.\<close>

fun read_buckets :: "nat \<Rightarrow> nat \<Rightarrow> (timeline_index \<times> u64) list \<Rightarrow> (account_address \<times> u64) list list anyhow" where
  "read_buckets added max_count [] = Inr []"
| "read_buckets added max_count ((ti, timeline_id) # rest) =
     and_then (nat_sub max_count added) (\<lambda>left.
       let txns = timeline_read ti timeline_id left; added' = added + length txns
       in if added' = max_count then Inr [txns]
          else and_then (read_buckets added' max_count rest) (\<lambda>more_txns. Inr (txns # more_txns)))"

definition multi_read_timeline :: "multi_bucket_timeline_index \<Rightarrow> u64 list \<Rightarrow> nat \<Rightarrow> (account_address \<times> u64) list list anyhow" where
  "multi_read_timeline mb id_per_bucket max_count =
     and_then (assert_that (length id_per_bucket = length (mb_bucket_mins mb))) (\<lambda>_.
     and_then (read_buckets 0 max_count (rev (zip (mb_timelines mb) id_per_bucket))) (\<lambda>returned.
       Inr (rev (returned @ replicate (length (mb_timelines mb) - length returned) []))))"

fun multi_ranges :: "(timeline_index \<times> u64 \<times> u64) list \<Rightarrow> (account_address \<times> u64) list anyhow" where
  "multi_ranges [] = Inr []"
| "multi_ranges ((ti, start_id, end_id) # rest) =
     and_then (timeline_range ti start_id end_id) (\<lambda>txns.
     and_then (multi_ranges rest) (\<lambda>more_txns. Inr (txns @ more_txns)))"

definition multi_timeline_range :: "multi_bucket_timeline_index \<Rightarrow> (u64 \<times> u64) list \<Rightarrow> (account_address \<times> u64) list anyhow" where
  "multi_timeline_range mb start_end_pairs =
     and_then (assert_that (length start_end_pairs = length (mb_timelines mb))) (\<lambda>_.
       multi_ranges (zip (mb_timelines mb) start_end_pairs))"

section \<open>Parking lot\<close>

record parking_lot_index =
  pl_data :: "(account_address \<times> (u64, unit) btree) list"
  pl_account_indices :: "account_address \<Rightarrow> nat option"
  pl_size :: nat

definition parking_new :: parking_lot_index where
  "parking_new = \<lparr> pl_data = [], pl_account_indices = Map.empty, pl_size = 0 \<rparr>"

definition swap_remove :: "nat \<Rightarrow> 'a list \<Rightarrow> 'a list" where
  "swap_remove i xs = (if Suc i < length xs then (butlast xs)[i := last xs] else butlast xs)"

definition parking_insert :: "mempool_transaction \<Rightarrow> parking_lot_index \<Rightarrow> parking_lot_index" where
  "parking_insert t pl =
     (let sender = st_sender (mt_txn t); n = st_sequence_number (mt_txn t)
      in case pl_account_indices pl sender of
           Some i \<Rightarrow>
             if i < length (pl_data pl)
             then let (a, seq_nums) = pl_data pl ! i
                  in pl\<lparr> pl_data := (pl_data pl)[i := (a, bt_insert n () seq_nums)],
                         pl_size := (if map_of seq_nums n = None then pl_size pl + 1 else pl_size pl) \<rparr>
             else pl
         | None \<Rightarrow>
             pl\<lparr> pl_data := pl_data pl @ [(sender, [(n, ())])],
                 pl_account_indices := (pl_account_indices pl)(sender \<mapsto> length (pl_data pl)),
                 pl_size := pl_size pl + 1 \<rparr>)"

definition parking_drop_account :: "account_address \<Rightarrow> nat \<Rightarrow> parking_lot_index \<Rightarrow> parking_lot_index" where
  "parking_drop_account sender i pl =
     (let data = swap_remove i (pl_data pl);
          indices = (pl_account_indices pl)(sender := None)
      in pl\<lparr> pl_data := data,
             pl_account_indices := (if i < length data then indices(fst (data ! i) \<mapsto> i) else indices) \<rparr>)"

definition parking_remove :: "mempool_transaction \<Rightarrow> parking_lot_index \<Rightarrow> parking_lot_index anyhow" where
  "parking_remove t pl =
     (let sender = st_sender (mt_txn t); n = st_sequence_number (mt_txn t)
      in case pl_account_indices pl sender of
           None \<Rightarrow> Inr pl
         | Some i \<Rightarrow>
             if i < length (pl_data pl)
             then let (a, txns) = pl_data pl ! i; txns' = bt_remove n txns
                  in and_then (if map_of txns n = None then Inr (pl_size pl) else nat_sub (pl_size pl) 1) (\<lambda>sz.
                       let pl' = pl\<lparr> pl_data := (pl_data pl)[i := (a, txns')], pl_size := sz \<rparr>
                       in Inr (if txns' = [] then parking_drop_account sender i pl' else pl'))
             else Inr pl)"

definition parking_contains :: "parking_lot_index \<Rightarrow> account_address \<Rightarrow> u64 \<Rightarrow> bool" where
  "parking_contains pl a n =
     (case pl_account_indices pl a of
        Some i \<Rightarrow> i < length (pl_data pl) \<and> map_of (snd (pl_data pl ! i)) n \<noteq> None
      | None \<Rightarrow> False)"

text \<open>\<open>choose\<close> of the random generator: any element of the slice, here the one that \<open>pick\<close> selects.\<close>

definition get_poppable :: "nat \<Rightarrow> parking_lot_index \<Rightarrow> (account_address \<times> u64) option" where
  "get_poppable pick pl =
     (if pl_data pl = [] then None
      else let (sender, txns) = pl_data pl ! (pick mod length (pl_data pl))
           in if txns = [] then None else Some (sender, fst (last txns)))"

section \<open>The indexes as sets of keys\<close>

text \<open>What the store relies on: an index is the set of the keys of the transactions put into it. \<open>del\<close> may panic
  on an index that is not well-formed.\<close>

locale txn_index =
  fixes inv :: "'i \<Rightarrow> bool"
    and keys :: "'i \<Rightarrow> 'k set"
    and key :: "mempool_transaction \<Rightarrow> 'k"
    and ins :: "mempool_transaction \<Rightarrow> 'i \<Rightarrow> 'i"
    and del :: "mempool_transaction \<Rightarrow> 'i \<Rightarrow> 'i anyhow"
  assumes inv_ins: "inv i \<Longrightarrow> inv (ins t i)"
    and keys_ins: "inv i \<Longrightarrow> keys (ins t i) = insert (key t) (keys i)"
    and del_ok: "inv i \<Longrightarrow> \<exists>j. del t i = Inr j \<and> inv j \<and> keys j = keys i - {key t}"
begin

lemma fold_ins: "inv i \<Longrightarrow> inv (fold ins ts i) \<and> keys (fold ins ts i) = keys i \<union> key ` set ts"
  by (induction ts arbitrary: i) (auto simp: inv_ins keys_ins)

lemma del_Inr: "inv i \<Longrightarrow> del t i = Inr j \<Longrightarrow> inv j \<and> keys j = keys i - {key t}"
  using del_ok [of i t] by auto

lemma del_ins: "inv i \<Longrightarrow> key t \<notin> keys i \<Longrightarrow> \<exists>j. del t (ins t i) = Inr j \<and> inv j \<and> keys j = keys i"
  using del_ok [OF inv_ins, of i t t] by (auto simp: keys_ins)

end

definition bt_keys :: "('k, 'v) btree \<Rightarrow> 'k set" where
  "bt_keys m = fst ` set m"

lemma bt_keys_simps [simp]:
  "bt_keys [] = {}" "bt_keys (bt_insert k v m) = insert k (bt_keys m)"
  "bt_keys (bt_entry k v m) = insert k (bt_keys m)" "bt_keys (bt_remove k m) = bt_keys m - {k}"
  by (auto simp: bt_keys_def keys_bt_insert keys_bt_entry bt_remove_def)

lemma bt_keys_None [simp]: "map_of m k = None \<longleftrightarrow> k \<notin> bt_keys m"
  by (simp add: bt_keys_def map_of_eq_None_iff)

lemma bt_keys_Some: "map_of m k = Some v \<Longrightarrow> k \<in> bt_keys m"
  by (auto simp: bt_keys_def dest: map_of_SomeD intro: rev_image_eqI)

lemma finite_bt_keys [simp]: "finite (bt_keys m)"
  by (simp add: bt_keys_def)

lemma bt_keys_Cons [simp]: "bt_keys (e # m) = insert (fst e) (bt_keys m)"
  by (simp add: bt_keys_def)

lemma length_bt: "bt_wf m \<Longrightarrow> length m = card (bt_keys m)"
  using distinct_card [of "map fst m"] bt_wf_distinct [of m] by (simp add: bt_keys_def)

interpretation priority: txn_index bt_wf bt_keys priority_key priority_insert "\<lambda>t i. Inr (priority_remove t i)"
  by unfold_locales (auto simp: priority_insert_def priority_remove_def bt_wf_entry bt_wf_remove)

interpretation system_ttl: txn_index bt_wf bt_keys "ttl_key system_expiration" "ttl_insert system_expiration"
    "\<lambda>t i. Inr (ttl_remove system_expiration t i)"
  by unfold_locales (auto simp: ttl_insert_def ttl_remove_def bt_wf_insert bt_wf_remove)

interpretation client_ttl: txn_index bt_wf bt_keys "ttl_key client_expiration" "ttl_insert client_expiration"
    "\<lambda>t i. Inr (ttl_remove client_expiration t i)"
  by unfold_locales (auto simp: ttl_insert_def ttl_remove_def bt_wf_insert bt_wf_remove)

subsection \<open>Parking lot\<close>

text \<open>The two invariants that the source states for the parking lot, and that its size is the number of
  sequence numbers in it.\<close>

definition parking_wf :: "parking_lot_index \<Rightarrow> bool" where
  "parking_wf pl \<longleftrightarrow>
     (\<forall>a i. pl_account_indices pl a = Some i \<longleftrightarrow> i < length (pl_data pl) \<and> fst (pl_data pl ! i) = a) \<and>
     (\<forall>(a, ns) \<in> set (pl_data pl). ns \<noteq> [] \<and> bt_wf ns) \<and>
     pl_size pl = sum_list (map (length \<circ> snd) (pl_data pl))"

definition parked :: "parking_lot_index \<Rightarrow> txn_pointer set" where
  "parked pl = {(a, n). parking_contains pl a n}"

definition signed_pointer :: "mempool_transaction \<Rightarrow> txn_pointer" where
  "signed_pointer t = (st_sender (mt_txn t), st_sequence_number (mt_txn t))"

lemma parking_wf_nth:
  assumes "parking_wf pl" and "i < length (pl_data pl)"
  shows "snd (pl_data pl ! i) \<noteq> []" "bt_wf (snd (pl_data pl ! i))"
    "pl_account_indices pl (fst (pl_data pl ! i)) = Some i"
proof -
  have "pl_data pl ! i \<in> set (pl_data pl)" using assms(2) by simp
  then show "snd (pl_data pl ! i) \<noteq> []" "bt_wf (snd (pl_data pl ! i))"
    using assms(1) by (fastforce simp: parking_wf_def)+
  show "pl_account_indices pl (fst (pl_data pl ! i)) = Some i"
    using assms by (simp add: parking_wf_def)
qed

lemma parking_wf_index:
  "parking_wf pl \<Longrightarrow> pl_account_indices pl a = Some i \<Longrightarrow> i < length (pl_data pl) \<and> fst (pl_data pl ! i) = a"
  by (simp add: parking_wf_def)

lemma parked_iff:
  assumes "parking_wf pl"
  shows "(a, n) \<in> parked pl \<longleftrightarrow> (\<exists>i < length (pl_data pl). fst (pl_data pl ! i) = a \<and> n \<in> bt_keys (snd (pl_data pl ! i)))"
  using parking_wf_index [OF assms] parking_wf_nth(3) [OF assms]
  by (fastforce simp: parked_def parking_contains_def split: option.splits)

lemma parked_set:
  assumes "parking_wf pl"
  shows "(a, n) \<in> parked pl \<longleftrightarrow> (\<exists>ns. (a, ns) \<in> set (pl_data pl) \<and> n \<in> bt_keys ns)"
proof -
  have "(\<exists>i < length xs. P (xs ! i)) \<longleftrightarrow> (\<exists>e \<in> set xs. P e)" for P and xs :: "'b list"
    by (metis in_set_conv_nth)
  from this [of "pl_data pl" "\<lambda>e. fst e = a \<and> n \<in> bt_keys (snd e)"] show ?thesis
    unfolding parked_iff [OF assms] by force
qed

lemma sum_list_update:
  fixes f :: "'a \<Rightarrow> nat"
  assumes "i < length xs"
  shows "sum_list (map f (xs[i := x])) + f (xs ! i) = sum_list (map f xs) + f x"
  using assms by (induction xs arbitrary: i) (auto split: nat.splits)

lemma parking_insert_old:
  assumes wf: "parking_wf pl" and i: "pl_account_indices pl (st_sender (mt_txn t)) = Some i"
  shows "parking_wf (parking_insert t pl)" "parked (parking_insert t pl) = insert (signed_pointer t) (parked pl)"
proof -
  let ?n = "st_sequence_number (mt_txn t)" and ?d = "pl_data pl"
  obtain a ns where ns: "?d ! i = (a, ns)" by fastforce
  note facts = parking_wf_index [OF wf i] parking_wf_nth [OF wf, of i]
  then have il: "i < length ?d" and wfn: "bt_wf ns" and a: "a = st_sender (mt_txn t)" using ns by auto
  let ?pl = "parking_insert t pl" and ?d' = "?d[i := (a, bt_insert ?n () ns)]"
  have pl: "?pl = pl\<lparr> pl_data := ?d', pl_size := (if map_of ns ?n = None then pl_size pl + 1 else pl_size pl) \<rparr>"
    using i il ns by (simp add: parking_insert_def Let_def)
  have nth: "fst (?d' ! j) = fst (?d ! j)" if "j < length ?d" for j
    using that ns by (cases "j = i") auto
  have "length (bt_insert ?n () ns) = (if map_of ns ?n = None then length ns + 1 else length ns)"
    using length_bt [OF wfn] length_bt [OF bt_wf_insert [OF wfn], of ?n "()"]
    by (auto simp: insert_absorb)
  then have len: "sum_list (map (length \<circ> snd) ?d') = (if map_of ns ?n = None then pl_size pl + 1 else pl_size pl)"
    using sum_list_update [of i ?d "length \<circ> snd" "(a, bt_insert ?n () ns)"] il wf ns
    by (auto simp: parking_wf_def split: if_splits)
  have "bt_insert ?n () ns \<noteq> []" using bt_keys_simps(2) [of ?n "()" ns] by force
  then have entries: "\<forall>(b, ms) \<in> set ?d'. ms \<noteq> [] \<and> bt_wf ms"
    using wf bt_wf_insert [OF wfn] by (auto simp: parking_wf_def dest: set_update_subset_insert [THEN subsetD])
  show wf': "parking_wf ?pl"
  proof -
    have "pl_account_indices pl b = Some j \<longleftrightarrow> j < length ?d' \<and> fst (?d' ! j) = b" for b j
      using wf nth by (auto simp: parking_wf_def)
    with len entries show ?thesis unfolding parking_wf_def pl by simp
  qed
  show "parked ?pl = insert (signed_pointer t) (parked pl)"
  proof (rule set_eqI, clarify)
    fix b m
    have "(b, m) \<in> parked ?pl \<longleftrightarrow> (\<exists>j < length ?d. fst (?d ! j) = b \<and> m \<in> bt_keys (snd (?d' ! j)))"
      unfolding parked_iff [OF wf'] by (simp add: pl nth cong: conj_cong)
    also have "\<dots> \<longleftrightarrow> (\<exists>j < length ?d. fst (?d ! j) = b \<and> (m \<in> bt_keys (snd (?d ! j)) \<or> j = i \<and> m = ?n))"
      using ns il by (intro ex_cong conj_cong refl) (auto simp: nth_list_update)
    also have "\<dots> \<longleftrightarrow> (b, m) \<in> insert (signed_pointer t) (parked pl)"
      using parked_iff [OF wf] il ns a by (auto simp: signed_pointer_def)
    finally show "(b, m) \<in> parked ?pl \<longleftrightarrow> (b, m) \<in> insert (signed_pointer t) (parked pl)" .
  qed
qed

lemma parking_insert_new:
  assumes wf: "parking_wf pl" and i: "pl_account_indices pl (st_sender (mt_txn t)) = None"
  shows "parking_wf (parking_insert t pl)" "parked (parking_insert t pl) = insert (signed_pointer t) (parked pl)"
proof -
  let ?a = "st_sender (mt_txn t)" and ?n = "st_sequence_number (mt_txn t)" and ?d = "pl_data pl"
  let ?pl = "parking_insert t pl"
  have pl: "?pl = \<lparr> pl_data = ?d @ [(?a, [(?n, ())])], pl_account_indices = (pl_account_indices pl)(?a \<mapsto> length ?d),
      pl_size = pl_size pl + 1 \<rparr>"
    using i by (simp add: parking_insert_def Let_def)
  have new: "fst (?d ! j) \<noteq> ?a" if "j < length ?d" for j
    using parking_wf_nth(3) [OF wf that] i by auto
  show wf': "parking_wf ?pl"
    using wf new unfolding parking_wf_def pl by (auto simp: nth_append less_Suc_eq bt_wf_def)
  show "parked ?pl = insert (signed_pointer t) (parked pl)"
  proof (rule set_eqI, clarify)
    fix b m
    have "(b, m) \<in> parked ?pl \<longleftrightarrow> (\<exists>ns. (b, ns) \<in> set (?d @ [(?a, [(?n, ())])]) \<and> m \<in> bt_keys ns)"
      using parked_set [OF wf'] by (simp add: pl)
    also have "\<dots> \<longleftrightarrow> (b, m) = (?a, ?n) \<or> (\<exists>ns. (b, ns) \<in> set ?d \<and> m \<in> bt_keys ns)"
      by auto
    finally show "(b, m) \<in> parked ?pl \<longleftrightarrow> (b, m) \<in> insert (signed_pointer t) (parked pl)"
      using parked_set [OF wf] by (simp add: signed_pointer_def)
  qed
qed

lemma mset_swap_remove:
  assumes "i < length xs"
  shows "add_mset (xs ! i) (mset (swap_remove i xs)) = mset xs"
proof (cases xs rule: rev_cases)
  case (snoc ys z)
  with assms show ?thesis
    by (cases "i < length ys")
       (auto simp: swap_remove_def nth_append mset_update less_Suc_eq add_mset_commute [of _ z] intro!: insert_DiffM)
qed (use assms in simp)

lemma swap_remove_nth:
  "i < length xs \<Longrightarrow> j < length xs - 1 \<Longrightarrow> swap_remove i xs ! j = (if j = i then last xs else xs ! j)"
  "length (swap_remove i xs) = length xs - 1"
  by (auto simp: swap_remove_def nth_butlast nth_list_update)

lemma parking_index_inj:
  assumes "parking_wf pl" "i < length (pl_data pl)" "j < length (pl_data pl)" "fst (pl_data pl ! i) = fst (pl_data pl ! j)"
  shows "i = j"
  using parking_wf_nth(3) [OF assms(1,2), unfolded assms(4)] parking_wf_nth(3) [OF assms(1,3)] by simp

lemma swap_remove_index:
  assumes ix: "\<And>a j. ix a = Some j \<longleftrightarrow> j < length d \<and> fst (d ! j) = a" and i: "i < length d"
  defines "d' \<equiv> swap_remove i d"
  defines "ix' \<equiv> ix(fst (d ! i) := None)"
  defines "ix'' \<equiv> if i < length d' then ix'(fst (d' ! i) \<mapsto> i) else ix'"
  shows "ix'' a = Some j \<longleftrightarrow> j < length d' \<and> fst (d' ! j) = a"
proof -
  have inj: "k = l" if "k < length d" "l < length d" "fst (d ! k) = fst (d ! l)" for k l
    using ix [of "fst (d ! k)" k] ix [of "fst (d ! k)" l] that by auto
  have len: "length d' = length d - 1" by (simp add: d'_def swap_remove_nth)
  obtain l where l: "length d = Suc l" using i by (cases d) auto
  show ?thesis
  proof (cases "i < length d - 1")
    case True
    have nth: "d' ! k = (if k = i then d ! l else d ! k)" if "k < l" for k
      using swap_remove_nth(1) [OF i, of k] that i l by (cases d) (auto simp: d'_def last_conv_nth)
    have ix'': "ix'' = (ix(fst (d ! i) := None))(fst (d ! l) \<mapsto> i)"
      using True len nth l by (simp add: ix''_def ix'_def)
    have "fst (d ! i) \<noteq> fst (d ! l)" using inj [of i l] True l by auto
    then show ?thesis
      using ix [of a j] inj [of j i] inj [of j l] nth [of j] True l len by (auto simp: ix'' less_Suc_eq)
  next
    case False
    then have il: "i = l" using i l by simp
    have "ix'' = ix(fst (d ! i) := None)" using False len by (simp add: ix''_def ix'_def)
    moreover have "d' ! j = d ! j" if "j < l" using swap_remove_nth(1) [OF i, of j] that l il by (simp add: d'_def)
    ultimately show ?thesis
      using ix [of a j] inj [of j l] il l len by (auto simp: less_Suc_eq)
  qed
qed

lemma parking_drop_account_ok:
  assumes ix: "\<And>a j. pl_account_indices pl a = Some j \<longleftrightarrow> j < length (pl_data pl) \<and> fst (pl_data pl ! j) = a"
    and i: "i < length (pl_data pl)" "pl_data pl ! i = (a, [])"
    and ns: "\<And>b ns. (b, ns) \<in> set (pl_data pl) \<Longrightarrow> (b, ns) \<noteq> (a, []) \<Longrightarrow> ns \<noteq> [] \<and> bt_wf ns"
    and sz: "pl_size pl = sum_list (map (length \<circ> snd) (pl_data pl))"
  shows "parking_wf (parking_drop_account a i pl)"
    and "set (pl_data (parking_drop_account a i pl)) = set (pl_data pl) - {(a, [])}"
proof -
  let ?d = "pl_data pl" and ?d' = "swap_remove i (pl_data pl)"
  have m: "mset ?d = add_mset (a, []) (mset ?d')" using mset_swap_remove [OF i(1)] i(2) by simp
  have inj: "k = l" if "k < length ?d" "l < length ?d" "?d ! k = ?d ! l" for k l
    using ix [of "fst (?d ! k)" k] ix [of "fst (?d ! k)" l] that by auto
  then have "distinct ?d" by (auto simp: distinct_conv_nth)
  then have "distinct ((a, []) # ?d')" using m by (metis mset.simps(2) mset_eq_imp_distinct_iff)
  moreover have "set ?d = insert (a, []) (set ?d')" using arg_cong [OF m, of set_mset] by simp
  ultimately show s: "set (pl_data (parking_drop_account a i pl)) = set ?d - {(a, [])}"
    by (auto simp: parking_drop_account_def Let_def)
  have "sum_mset (image_mset (length \<circ> snd) (mset ?d)) = sum_mset (image_mset (length \<circ> snd) (mset ?d'))"
    by (simp add: m)
  then have sz': "pl_size pl = sum_list (map (length \<circ> snd) ?d')"
    by (simp only: sz flip: mset_map sum_mset_sum_list)
  show "parking_wf (parking_drop_account a i pl)"
    unfolding parking_wf_def
  proof (intro conjI allI)
    fix b j
    show "pl_account_indices (parking_drop_account a i pl) b = Some j \<longleftrightarrow>
        j < length (pl_data (parking_drop_account a i pl)) \<and> fst (pl_data (parking_drop_account a i pl) ! j) = b"
      using swap_remove_index [OF ix i(1), of b j] i(2)
      by (simp add: parking_drop_account_def Let_def cong: if_cong split del: if_split)
  next
    show "\<forall>(b, ns) \<in> set (pl_data (parking_drop_account a i pl)). ns \<noteq> [] \<and> bt_wf ns"
      unfolding s using ns by blast
  next
    show "pl_size (parking_drop_account a i pl) = sum_list (map (length \<circ> snd) (pl_data (parking_drop_account a i pl)))"
      using sz' by (simp add: parking_drop_account_def Let_def)
  qed
qed

text \<open>The parking lot after the sequence number is taken out of the set of its account.\<close>

lemma parking_shrink:
  fixes n m :: u64
  assumes wf: "parking_wf pl" and i: "i < length (pl_data pl)" "pl_data pl ! i = (a, ns)"
  defines "pl' \<equiv> pl\<lparr> pl_data := (pl_data pl)[i := (a, bt_remove n ns)],
                      pl_size := (if map_of ns n = None then pl_size pl else pl_size pl - 1) \<rparr>"
  shows "\<And>b j. pl_account_indices pl' b = Some j \<longleftrightarrow> j < length (pl_data pl') \<and> fst (pl_data pl' ! j) = b"
    and "pl_size pl' = sum_list (map (length \<circ> snd) (pl_data pl'))"
    and "map_of ns n \<noteq> None \<Longrightarrow> 0 < pl_size pl"
    and "(b, m) \<in> parked pl \<and> (b, m) \<noteq> (a, n) \<longleftrightarrow> (\<exists>ms. (b, ms) \<in> set (pl_data pl') \<and> m \<in> bt_keys ms)"
    and "(b, ms) \<in> set (pl_data pl') \<Longrightarrow> bt_wf ms \<and> (ms = [] \<longrightarrow> b = a \<and> bt_remove n ns = [])"
proof -
  let ?d = "pl_data pl"
  have wfn: "bt_wf ns" "ns \<noteq> []" using parking_wf_nth [OF wf i(1)] i(2) by auto
  have nth: "fst (?d[i := (a, bt_remove n ns)] ! j) = fst (?d ! j)" if "j < length ?d" for j
    using that i(2) by (cases "j = i") auto
  show "pl_account_indices pl' b = Some j \<longleftrightarrow> j < length (pl_data pl') \<and> fst (pl_data pl' ! j) = b" for b j
    using wf nth by (auto simp: pl'_def parking_wf_def)
  have len: "length (bt_remove n ns) + (if map_of ns n = None then 0 else 1) = length ns"
    using length_bt [OF wfn(1)] length_bt [OF bt_wf_remove [OF wfn(1)], of n]
      card_Suc_Diff1 [of "bt_keys ns" n] by auto
  have sz: "pl_size pl = sum_list (map (length \<circ> snd) ?d)" using wf by (simp add: parking_wf_def)
  show pos: "0 < pl_size pl" if "map_of ns n \<noteq> None"
  proof -
    have "0 < length ns" using wfn by simp
    also have "length ns \<le> pl_size pl"
      using member_le_sum_list [of "length ns" "map (length \<circ> snd) ?d"] i nth_mem [OF i(1)] sz
      by (auto simp: image_iff) (metis comp_apply image_eqI member_le_sum_list set_map snd_conv)
    finally show ?thesis .
  qed
  show "pl_size pl' = sum_list (map (length \<circ> snd) (pl_data pl'))"
    using sum_list_update [of i ?d "length \<circ> snd" "(a, bt_remove n ns)"] i len sz pos
    by (auto simp: pl'_def split: if_splits)
  have uniq: "ms = ns" if "(a, ms) \<in> set ?d" for ms
    using that i parking_index_inj [OF wf i(1)] by (fastforce simp: in_set_conv_nth)
  have s: "set (?d[i := (a, bt_remove n ns)]) = insert (a, bt_remove n ns) {e \<in> set ?d. fst e \<noteq> a}"
  proof (intro set_eqI iffI)
    fix e assume "e \<in> set (?d[i := (a, bt_remove n ns)])"
    then obtain j where j: "j < length ?d" "e = ?d[i := (a, bt_remove n ns)] ! j" by (auto simp: in_set_conv_nth)
    show "e \<in> insert (a, bt_remove n ns) {e \<in> set ?d. fst e \<noteq> a}"
      using j parking_index_inj [OF wf i(1) j(1)] i by (cases "j = i") auto
  next
    fix e assume "e \<in> insert (a, bt_remove n ns) {e \<in> set ?d. fst e \<noteq> a}"
    then consider "e = (a, bt_remove n ns)" | "e \<in> set ?d" "fst e \<noteq> a" by blast
    then show "e \<in> set (?d[i := (a, bt_remove n ns)])"
    proof cases
      case 2
      then obtain j where "j < length ?d" "e = ?d ! j" by (auto simp: in_set_conv_nth)
      with 2(2) i have "j \<noteq> i" "j < length (?d[i := (a, bt_remove n ns)])" "?d[i := (a, bt_remove n ns)] ! j = e" by (auto simp: nth_list_update)
      then show ?thesis by (metis nth_mem)
    qed (use i in \<open>auto simp: set_update_memI\<close>)
  qed
  have "(a, ns) \<in> set ?d" using i by (metis nth_mem)
  then have old: "(a, m) \<in> parked pl \<longleftrightarrow> m \<in> bt_keys ns"
    unfolding parked_set [OF wf] using uniq by metis
  show "(b, m) \<in> parked pl \<and> (b, m) \<noteq> (a, n) \<longleftrightarrow> (\<exists>ms. (b, ms) \<in> set (pl_data pl') \<and> m \<in> bt_keys ms)"
    using old by (cases "b = a") (simp_all add: parked_set [OF wf] pl'_def s)
  show "bt_wf ms \<and> (ms = [] \<longrightarrow> b = a \<and> bt_remove n ns = [])" if "(b, ms) \<in> set (pl_data pl')"
    using that wf bt_wf_remove [OF wfn(1)] by (auto simp: pl'_def s parking_wf_def)
qed

lemma parking_remove_ok:
  assumes wf: "parking_wf pl"
  shows "\<exists>pl'. parking_remove t pl = Inr pl' \<and> parking_wf pl' \<and> parked pl' = parked pl - {signed_pointer t}"
proof (cases "pl_account_indices pl (st_sender (mt_txn t))")
  case None
  then have "signed_pointer t \<notin> parked pl"
    by (simp add: parked_def parking_contains_def signed_pointer_def)
  with None wf show ?thesis by (simp add: parking_remove_def Let_def)
next
  case (Some i)
  let ?n = "st_sequence_number (mt_txn t)"
  obtain a ns where "pl_data pl ! i = (a, ns)" by fastforce
  with parking_wf_index [OF wf Some] have i: "i < length (pl_data pl)" "pl_data pl ! i = (a, ns)" and a: "a = st_sender (mt_txn t)"
    by auto
  define pl' where "pl' = pl\<lparr> pl_data := (pl_data pl)[i := (a, bt_remove ?n ns)],
                               pl_size := (if map_of ns ?n = None then pl_size pl else pl_size pl - 1) \<rparr>"
  note shrink = parking_shrink [OF wf i, where n = ?n, folded pl'_def]
  have p: "signed_pointer t = (a, ?n)" by (simp add: signed_pointer_def a)
  have rem: "parking_remove t pl = Inr (if bt_remove ?n ns = [] then parking_drop_account a i pl' else pl')"
    using Some i a shrink(3) by (auto simp: parking_remove_def pl'_def Let_def nat_sub_def)
  show ?thesis
  proof (cases "bt_remove ?n ns = []")
    case False
    then have wf': "parking_wf pl'"
      unfolding parking_wf_def
    proof (intro conjI allI)
      show "\<forall>(b, ms) \<in> set (pl_data pl'). ms \<noteq> [] \<and> bt_wf ms" using shrink(5) False by fast
    qed (rule shrink(1), rule shrink(2))
    moreover have "parked pl' = parked pl - {signed_pointer t}"
    proof (rule set_eqI, clarify)
      fix b m show "(b, m) \<in> parked pl' \<longleftrightarrow> (b, m) \<in> parked pl - {signed_pointer t}"
        using shrink(4) [of b m] unfolding parked_set [OF wf'] p by blast
    qed
    ultimately show ?thesis using rem False by simp
  next
    case True
    have "pl_data pl' ! i = (a, [])" "i < length (pl_data pl')" using i True by (simp_all add: pl'_def)
    note drop = parking_drop_account_ok [OF shrink(1) this(2,1) _ shrink(2)]
    have wf': "parking_wf (parking_drop_account a i pl')"
      and s: "set (pl_data (parking_drop_account a i pl')) = set (pl_data pl') - {(a, [])}"
      by (rule drop; use shrink(5) in fast)+
    have "parked (parking_drop_account a i pl') = parked pl - {signed_pointer t}"
    proof (rule set_eqI, clarify)
      fix b m
      have "(b, m) \<in> parked (parking_drop_account a i pl') \<longleftrightarrow> (\<exists>ms. (b, ms) \<in> set (pl_data pl') \<and> m \<in> bt_keys ms)"
        unfolding parked_set [OF wf'] s by auto
      then show "(b, m) \<in> parked (parking_drop_account a i pl') \<longleftrightarrow> (b, m) \<in> parked pl - {signed_pointer t}"
        using shrink(4) [of b m] unfolding p by blast
    qed
    with wf' rem True show ?thesis by simp
  qed
qed

interpretation parking: txn_index parking_wf parked signed_pointer parking_insert parking_remove
proof
  fix pl t assume wf: "parking_wf pl"
  show "parking_wf (parking_insert t pl)" "parked (parking_insert t pl) = insert (signed_pointer t) (parked pl)"
    using parking_insert_old [OF wf] parking_insert_new [OF wf]
    by (cases "pl_account_indices pl (st_sender (mt_txn t))"; simp)+
  show "\<exists>pl'. parking_remove t pl = Inr pl' \<and> parking_wf pl' \<and> parked pl' = parked pl - {signed_pointer t}"
    by (rule parking_remove_ok [OF wf])
qed

lemma get_poppable_parked:
  assumes "parking_wf pl" and "get_poppable pick pl = Some p"
  shows "p \<in> parked pl"
proof -
  have d: "pl_data pl \<noteq> []" using assms(2) by (auto simp: get_poppable_def)
  let ?i = "pick mod length (pl_data pl)"
  obtain a ns where ns: "pl_data pl ! ?i = (a, ns)" by fastforce
  have i: "?i < length (pl_data pl)" using d by simp
  have p: "p = (a, fst (last ns))" "ns \<noteq> []"
    using assms(2) d ns by (auto simp: get_poppable_def split: if_splits)
  then have "fst (last ns) \<in> bt_keys ns" by (simp add: bt_keys_def)
  moreover have "(a, ns) \<in> set (pl_data pl)" using nth_mem [OF i] ns by simp
  ultimately show ?thesis using parked_set [OF assms(1)] p by blast
qed

subsection \<open>Timelines\<close>

definition multi_wf :: "multi_bucket_timeline_index \<Rightarrow> bool" where
  "multi_wf mb \<longleftrightarrow>
     length (mb_timelines mb) = length (mb_bucket_mins mb) \<and> mb_bucket_mins mb \<noteq> [] \<and> hd (mb_bucket_mins mb) = 0 \<and>
     (\<forall>ti \<in> set (mb_timelines mb). bt_wf (tl_timeline ti) \<and> (\<forall>i \<in> bt_keys (tl_timeline ti). i < tl_timeline_id ti))"

definition bucket_of :: "multi_bucket_timeline_index \<Rightarrow> mempool_transaction \<Rightarrow> nat" where
  "bucket_of mb t = (case bucket_index mb (mt_ranking_score t) of Inr i \<Rightarrow> i | Inl _ \<Rightarrow> 0)"

definition timeline_entry :: "multi_bucket_timeline_index \<Rightarrow> nat \<Rightarrow> u64 \<Rightarrow> txn_pointer option" where
  "timeline_entry mb i = (if i < length (mb_timelines mb) then map_of (tl_timeline (mb_timelines mb ! i)) else Map.empty)"

lemma multi_wf_nth:
  assumes "multi_wf mb" and "i < length (mb_timelines mb)"
  shows "bt_wf (tl_timeline (mb_timelines mb ! i))"
    and "j \<in> bt_keys (tl_timeline (mb_timelines mb ! i)) \<Longrightarrow> j < tl_timeline_id (mb_timelines mb ! i)"
  using assms nth_mem [OF assms(2)] by (auto simp: multi_wf_def)

lemma get_timeline_ok:
  assumes wf: "multi_wf mb"
  shows "get_timeline mb (mt_ranking_score t) = Inr (bucket_of mb t, mb_timelines mb ! bucket_of mb t)"
    and "bucket_of mb t < length (mb_timelines mb)"
proof -
  let ?x = "mt_ranking_score t"
  obtain ms where ms: "mb_bucket_mins mb = 0 # ms"
    using wf by (cases "mb_bucket_mins mb") (auto simp: multi_wf_def)
  let ?l = "length (takeWhile (\<lambda>y. y < ?x) (0 # ms))"
  have len: "?l \<le> length (0 # ms)" by (rule length_takeWhile_le)
  have "\<exists>i < length (0 # ms). bucket_index mb ?x = Inr i"
  proof (cases "?x = 0")
    case True
    then show ?thesis by (auto simp: bucket_index_def binary_search_def ms Let_def)
  next
    case False
    then have "1 \<le> ?l" by (simp add: word_gt_0)
    with len show ?thesis
      unfolding bucket_index_def binary_search_def ms Let_def nat_sub_def by (cases "?l < length (0 # ms) \<and> (0 # ms) ! ?l = ?x") force+
  qed
  then obtain i where i: "i < length (mb_timelines mb)" "bucket_index mb ?x = Inr i"
    using wf ms by (auto simp: multi_wf_def)
  then show "get_timeline mb ?x = Inr (bucket_of mb t, mb_timelines mb ! bucket_of mb t)"
    and "bucket_of mb t < length (mb_timelines mb)"
    by (simp_all add: get_timeline_def bucket_of_def)
qed

lemma bucket_of_cong: "mb_bucket_mins mb' = mb_bucket_mins mb \<Longrightarrow> mt_ranking_score t' = mt_ranking_score t \<Longrightarrow>
    bucket_of mb' t' = bucket_of mb t"
  by (simp add: bucket_of_def bucket_index_def)

text \<open>The timelines of the transactions \<open>X\<close>: exactly the ready ones are in them, each in the timeline of its bucket
  and under its own number.\<close>

definition timeline_inv :: "multi_bucket_timeline_index \<Rightarrow> mempool_transaction set \<Rightarrow> bool" where
  "timeline_inv mb X \<longleftrightarrow>
     multi_wf mb \<and>
     (\<forall>i n p. timeline_entry mb i n = Some p \<longleftrightarrow>
        (\<exists>t \<in> X. i = bucket_of mb t \<and> mt_timeline_state t = Ready n \<and> p = txn_pointer t))"

lemma multi_remove_ok:
  assumes inv: "timeline_inv mb X" and t: "t \<in> X" and inj: "inj_on txn_pointer X"
  shows "\<exists>mb'. multi_remove t mb = Inr mb' \<and> mb_bucket_mins mb' = mb_bucket_mins mb \<and> timeline_inv mb' (X - {t})"
proof -
  let ?i = "bucket_of mb t"
  have wf: "multi_wf mb" using inv by (simp add: timeline_inv_def)
  note ok = get_timeline_ok [OF wf, of t] multi_wf_nth [OF wf]
  define mb' where "mb' = mb\<lparr> mb_timelines := (mb_timelines mb)[?i := timeline_remove t (mb_timelines mb ! ?i)] \<rparr>"
  have mins: "mb_bucket_mins mb' = mb_bucket_mins mb" by (simp add: mb'_def)
  have "bt_wf (tl_timeline (timeline_remove t (mb_timelines mb ! ?i))) \<and>
      (\<forall>j \<in> bt_keys (tl_timeline (timeline_remove t (mb_timelines mb ! ?i))).
         j < tl_timeline_id (timeline_remove t (mb_timelines mb ! ?i)))"
    using ok(2,3) ok(4) [of ?i] by (auto simp: timeline_remove_def bt_wf_remove split: timeline_state.splits)
  then have wf': "multi_wf mb'"
    using wf ok(2) by (auto simp: multi_wf_def mb'_def dest!: set_update_subset_insert [THEN subsetD])
  have entry: "timeline_entry mb' i n =
      (if i = ?i \<and> mt_timeline_state t = Ready n then None else timeline_entry mb i n)" for i n
    using ok(2) by (auto simp: timeline_entry_def mb'_def nth_list_update timeline_remove_def map_of_bt_remove
        split: timeline_state.splits)
  have all: "timeline_entry mb i n = Some p \<longleftrightarrow>
      (\<exists>t \<in> X. i = bucket_of mb t \<and> mt_timeline_state t = Ready n \<and> p = txn_pointer t)" for i n p
    using inv unfolding timeline_inv_def by blast
  have "timeline_entry mb' i n = Some p \<longleftrightarrow>
      (\<exists>u \<in> X - {t}. i = bucket_of mb' u \<and> mt_timeline_state u = Ready n \<and> p = txn_pointer u)" for i n p
  proof (cases "i = ?i \<and> mt_timeline_state t = Ready n")
    case True
    then have tn: "timeline_entry mb i n = Some (txn_pointer t)" using all t by blast
    have "u = t" if "u \<in> X" "i = bucket_of mb u" "mt_timeline_state u = Ready n" for u
    proof -
      have "timeline_entry mb i n = Some (txn_pointer u)" using all that by blast
      with tn that(1) t show ?thesis using inj by (auto dest: inj_onD)
    qed
    with True show ?thesis by (auto simp: entry bucket_of_cong [OF mins])
  next
    case False
    then show ?thesis using all [of i n p] by (auto simp: entry bucket_of_cong [OF mins])
  qed
  with wf' have "timeline_inv mb' (X - {t})" unfolding timeline_inv_def by blast
  moreover have "multi_remove t mb = Inr mb'"
    using ok(1) by (simp add: multi_remove_def mb'_def)
  ultimately show ?thesis using mins by blast
qed

lemma multi_insert_ok:
  assumes inv: "timeline_inv mb X" and ins: "multi_insert t mb = Inr (t', mb')" and t: "t \<in> X" "\<not> is_ready (mt_timeline_state t)"
  shows "\<exists>n. t' = t\<lparr> mt_timeline_state := Ready n \<rparr>" "timeline_inv mb' (insert t' (X - {t}))"
    "mb_bucket_mins mb' = mb_bucket_mins mb"
proof -
  let ?i = "bucket_of mb t" and ?ti = "mb_timelines mb ! bucket_of mb t"
  let ?n = "tl_timeline_id ?ti"
  have wf: "multi_wf mb" using inv by (simp add: timeline_inv_def)
  note ok = get_timeline_ok [OF wf, of t] multi_wf_nth [OF wf]
  obtain n' where n': "unat n' = unat ?n + 1"
    and mb': "mb' = mb\<lparr> mb_timelines := (mb_timelines mb)[?i :=
        \<lparr> tl_timeline_id = n', tl_timeline = bt_insert ?n (txn_pointer t) (tl_timeline ?ti) \<rparr>] \<rparr>"
    and t': "t' = t\<lparr> mt_timeline_state := Ready ?n \<rparr>"
    using ins ok(1) by (auto simp: multi_insert_def timeline_insert_def result_simps checked_add_Some txn_pointer_def)
  show "\<exists>n. t' = t\<lparr> mt_timeline_state := Ready n \<rparr>" using t' by blast
  show mins: "mb_bucket_mins mb' = mb_bucket_mins mb" by (simp add: mb')
  have lt: "?n < n'" using n' by (simp add: word_less_nat_alt)
  then have "bt_wf (bt_insert ?n (txn_pointer t) (tl_timeline ?ti)) \<and>
      (\<forall>j \<in> bt_keys (bt_insert ?n (txn_pointer t) (tl_timeline ?ti)). j < n')"
    using ok(2,3) ok(4) [of ?i] by (auto intro: bt_wf_insert order.strict_trans)
  then have wf': "multi_wf mb'"
    using wf ok(2) by (auto simp: multi_wf_def mb' dest!: set_update_subset_insert [THEN subsetD])
  have entry: "timeline_entry mb' i m =
      (if i = ?i \<and> m = ?n then Some (txn_pointer t) else timeline_entry mb i m)" for i m
    using ok(2) by (auto simp: timeline_entry_def mb' nth_list_update map_of_bt_insert)
  have fresh: "timeline_entry mb ?i ?n = None"
    using ok(2) ok(4) [of ?i ?n] by (auto simp: timeline_entry_def)
  have all: "timeline_entry mb i n = Some p \<longleftrightarrow>
      (\<exists>t \<in> X. i = bucket_of mb t \<and> mt_timeline_state t = Ready n \<and> p = txn_pointer t)" for i n p
    using inv unfolding timeline_inv_def by blast
  have ready: "mt_timeline_state t' = Ready ?n" by (simp add: t')
  have same: "bucket_of mb' u = bucket_of mb u" "bucket_of mb t' = ?i" "txn_pointer t' = txn_pointer t" for u
    using bucket_of_cong [OF mins] by (simp_all add: t' txn_pointer_def get_sender_def bucket_of_def)
  have "timeline_entry mb' i m = Some p \<longleftrightarrow>
      (\<exists>u \<in> insert t' (X - {t}). i = bucket_of mb' u \<and> mt_timeline_state u = Ready m \<and> p = txn_pointer u)" for i m p
  proof (cases "i = ?i \<and> m = ?n")
    case True
    then have "\<not> (u \<in> X \<and> i = bucket_of mb u \<and> mt_timeline_state u = Ready m)" for u
      using fresh all [of i m "txn_pointer u"] by auto
    with True show ?thesis by (auto simp: entry same ready)
  next
    case False
    have "\<not> (i = ?i \<and> mt_timeline_state t' = Ready m)" using False by (auto simp: ready)
    moreover have "mt_timeline_state t \<noteq> Ready m" using t(2) by auto
    ultimately show ?thesis using False all [of i m p] by (auto simp: entry same)
  qed
  with wf' show "timeline_inv mb' (insert t' (X - {t}))" unfolding timeline_inv_def by blast
qed

lemma timeline_inv_unready:
  assumes "timeline_inv mb (X - {t})" "\<not> is_ready (mt_timeline_state u)"
  shows "timeline_inv mb (insert u (X - {t}))"
  using assms by (auto simp: timeline_inv_def) 

end
