(* ===== verification/Core_Mempool.thy ===== *)
theory Core_Mempool
  imports Mempool_Index
begin

text \<open>
  The mempool (mempool/src/core_mempool/transaction_store.rs and mempool.rs): insertion with replacement, eviction and
  capacity checks, commit, rejection, garbage collection, broadcast and the selection of a batch for consensus.

  \<^item> The hash maps are maps; the transactions of an account are an ordered map by sequence number.
  \<^item> The clock, the random choice of the transaction to evict and the length and the hash of a transaction are
    arguments. A status is its code; its message is left out, as are logging and metrics.
\<close>

section \<open>Transaction store\<close>

type_synonym account_transactions = "(u64, mempool_transaction) btree"

record transaction_store =
  ts_transactions :: "account_address \<Rightarrow> account_transactions option"
  ts_sequence_numbers :: "account_address \<Rightarrow> u64 option"
  ts_priority_index :: priority_index
  ts_expiration_time_index :: ttl_index
  ts_system_ttl_index :: ttl_index
  ts_timeline_index :: multi_bucket_timeline_index
  ts_parking_lot_index :: parking_lot_index
  ts_hash_index :: "hash_value \<Rightarrow> txn_pointer option"
  ts_size_bytes :: nat
  ts_gas_upgraded_index :: "txn_pointer \<Rightarrow> u64 option"
  ts_capacity :: nat
  ts_capacity_bytes :: nat
  ts_capacity_per_user :: nat
  ts_max_batch_bytes :: u64
  ts_eager_expire_threshold :: "duration option"
  ts_eager_expire_time :: duration

record mempool_config =
  mc_capacity :: nat
  mc_capacity_bytes :: nat
  mc_capacity_per_user :: nat
  mc_shared_mempool_max_batch_bytes :: u64
  mc_system_transaction_timeout_secs :: u64
  mc_broadcast_buckets :: "u64 list"
  mc_eager_expire_threshold_ms :: "u64 option"
  mc_eager_expire_time_ms :: u64

definition store_new :: "mempool_config \<Rightarrow> transaction_store anyhow" where
  "store_new config =
     and_then (unwrap (multi_bucket_new (mc_broadcast_buckets config))) (\<lambda>mb.
       Inr \<lparr> ts_transactions = Map.empty, ts_sequence_numbers = Map.empty, ts_priority_index = [],
             ts_expiration_time_index = [], ts_system_ttl_index = [], ts_timeline_index = mb,
             ts_parking_lot_index = parking_new, ts_hash_index = Map.empty, ts_size_bytes = 0,
             ts_gas_upgraded_index = Map.empty,
             ts_capacity = mc_capacity config, ts_capacity_bytes = mc_capacity_bytes config,
             ts_capacity_per_user = mc_capacity_per_user config,
             ts_max_batch_bytes = mc_shared_mempool_max_batch_bytes config,
             ts_eager_expire_threshold = map_option duration_from_millis (mc_eager_expire_threshold_ms config),
             ts_eager_expire_time = duration_from_millis (mc_eager_expire_time_ms config) \<rparr>)"

definition get_mempool_txn :: "transaction_store \<Rightarrow> account_address \<Rightarrow> u64 \<Rightarrow> mempool_transaction option" where
  "get_mempool_txn s a n = (case ts_transactions s a of None \<Rightarrow> None | Some txns \<Rightarrow> map_of txns n)"

definition store_get :: "transaction_store \<Rightarrow> account_address \<Rightarrow> u64 \<Rightarrow> signed_transaction option" where
  "store_get s a n = map_option mt_txn (get_mempool_txn s a n)"

definition get_with_ranking_score :: "transaction_store \<Rightarrow> account_address \<Rightarrow> u64 \<Rightarrow> (signed_transaction \<times> u64) option" where
  "get_with_ranking_score s a n = map_option (\<lambda>t. (mt_txn t, mt_ranking_score t)) (get_mempool_txn s a n)"

definition store_get_by_hash :: "transaction_store \<Rightarrow> hash_value \<Rightarrow> signed_transaction option" where
  "store_get_by_hash s h = (case ts_hash_index s h of Some (a, n) \<Rightarrow> store_get s a n | None \<Rightarrow> None)"

definition get_ranking_score :: "transaction_store \<Rightarrow> account_address \<Rightarrow> u64 \<Rightarrow> u64 option" where
  "get_ranking_score s a n = map_option mt_ranking_score (get_mempool_txn s a n)"

definition get_sequence_number :: "transaction_store \<Rightarrow> account_address \<Rightarrow> u64 option" where
  "get_sequence_number s a = ts_sequence_numbers s a"

text \<open>The account of a sender is dropped with its sequence number once its last transaction is gone.\<close>

definition drop_empty_account :: "account_address \<Rightarrow> transaction_store \<Rightarrow> transaction_store" where
  "drop_empty_account a s =
     (if ts_transactions s a = Some []
      then s\<lparr> ts_transactions := (ts_transactions s)(a := None),
              ts_sequence_numbers := (ts_sequence_numbers s)(a := None) \<rparr>
      else s)"

definition index_remove :: "txn_env \<Rightarrow> mempool_transaction \<Rightarrow> transaction_store \<Rightarrow> transaction_store anyhow" where
  "index_remove E t s =
     and_then (multi_remove t (ts_timeline_index s)) (\<lambda>timelines.
     and_then (parking_remove t (ts_parking_lot_index s)) (\<lambda>parking.
     and_then (nat_sub (ts_size_bytes s) (get_estimated_bytes E t)) (\<lambda>bytes.
       Inr (drop_empty_account (get_sender t)
         (s\<lparr> ts_system_ttl_index := ttl_remove system_expiration t (ts_system_ttl_index s),
             ts_expiration_time_index := ttl_remove client_expiration t (ts_expiration_time_index s),
             ts_priority_index := priority_remove t (ts_priority_index s),
             ts_timeline_index := timelines,
             ts_parking_lot_index := parking,
             ts_hash_index := (ts_hash_index s)(committed_hash E (mt_txn t) := None),
             ts_size_bytes := bytes,
             ts_gas_upgraded_index := (ts_gas_upgraded_index s)(txn_pointer t := None) \<rparr>)))))"

fun index_remove_all :: "txn_env \<Rightarrow> mempool_transaction list \<Rightarrow> transaction_store \<Rightarrow> transaction_store anyhow" where
  "index_remove_all E [] s = Inr s"
| "index_remove_all E (t # ts) s = and_then (index_remove E t s) (index_remove_all E ts)"

text \<open>\<open>txns.remove(&n)\<close> on the transactions of an account.\<close>

definition remove_txn :: "account_address \<Rightarrow> u64 \<Rightarrow> transaction_store \<Rightarrow> transaction_store" where
  "remove_txn a n s =
     (case ts_transactions s a of
        None \<Rightarrow> s
      | Some txns \<Rightarrow> s\<lparr> ts_transactions := (ts_transactions s)(a \<mapsto> bt_remove n txns) \<rparr>)"

definition put_txn :: "mempool_transaction \<Rightarrow> transaction_store \<Rightarrow> transaction_store" where
  "put_txn t s =
     (let a = get_sender t; txns = (case ts_transactions s a of None \<Rightarrow> [] | Some txns \<Rightarrow> txns)
      in s\<lparr> ts_transactions := (ts_transactions s)(a \<mapsto> bt_insert (mt_sequence_number t) t txns) \<rparr>)"

subsection \<open>Readiness\<close>

definition check_txn_ready :: "transaction_store \<Rightarrow> mempool_transaction \<Rightarrow> u64 \<Rightarrow> bool anyhow" where
  "check_txn_ready s t curr_sequence_number =
     (let n = mt_sequence_number t
      in if n = curr_sequence_number then Inr True
         else if n = 0 then Inl Panic
         else Inr (case get_mempool_txn s (get_sender t) (n - 1) of
                     Some prev \<Rightarrow> is_ready (mt_timeline_state prev) | None \<Rightarrow> False))"

definition is_full :: "transaction_store \<Rightarrow> bool" where
  "is_full s \<longleftrightarrow> ts_capacity s \<le> length (ts_system_ttl_index s) \<or> ts_capacity_bytes s \<le> ts_size_bytes s"

definition evict_parked :: "txn_env \<Rightarrow> nat \<Rightarrow> transaction_store \<Rightarrow> transaction_store anyhow" where
  "evict_parked E pick s =
     (case get_poppable pick (ts_parking_lot_index s) of
        None \<Rightarrow> Inr s
      | Some (a, n) \<Rightarrow>
          (case get_mempool_txn s a n of
             None \<Rightarrow> Inr s
           | Some t \<Rightarrow> index_remove E t (remove_txn a n s)))"

definition check_is_full_after_eviction ::
  "txn_env \<Rightarrow> nat \<Rightarrow> mempool_transaction \<Rightarrow> u64 \<Rightarrow> transaction_store \<Rightarrow> (bool \<times> transaction_store) anyhow" where
  "check_is_full_after_eviction E pick t curr_sequence_number s =
     (if is_full s
      then and_then (check_txn_ready s t curr_sequence_number) (\<lambda>ready.
           and_then (if ready then evict_parked E pick s else Inr s) (\<lambda>s'.
             Inr (is_full s', s')))
      else Inr (False, s))"

text \<open>One turn of the loop of \<open>process_ready_transactions\<close>.\<close>

definition make_ready :: "mempool_transaction \<Rightarrow> transaction_store \<Rightarrow> transaction_store anyhow" where
  "make_ready t s =
     and_then (if mt_timeline_state t = NotReady then multi_insert t (ts_timeline_index s)
               else Inr (t, ts_timeline_index s)) (\<lambda>(t', timelines).
     and_then (parking_remove t' (ts_parking_lot_index s)) (\<lambda>parking.
       Inr (put_txn t' (s\<lparr> ts_priority_index := priority_insert t (ts_priority_index s),
                           ts_timeline_index := timelines,
                           ts_parking_lot_index := parking \<rparr>))))"

function ready_loop :: "account_address \<Rightarrow> u64 \<Rightarrow> transaction_store \<Rightarrow> (u64 \<times> transaction_store) anyhow" where
  "ready_loop a min_seq s =
     (case get_mempool_txn s a min_seq of
        None \<Rightarrow> Inr (min_seq, s)
      | Some t \<Rightarrow>
          and_then (make_ready t s) (\<lambda>s'.
          and_then (expect (checked_add min_seq 1)) (\<lambda>min_seq'.
            ready_loop a min_seq' s')))"
  by pat_completeness auto

termination ready_loop
proof (relation "measure (\<lambda>(a, min_seq, s). 2 ^ 64 - unat min_seq)")
  fix a s t s' and min_seq min_seq' :: u64
  assume "expect (checked_add min_seq 1) = Inr min_seq'"
  then have "unat min_seq' = unat min_seq + 1"
    by (simp add: expect_Inr checked_add_Some)
  then show "((a, min_seq', s'), a, min_seq, s) \<in> measure (\<lambda>(a, min_seq, s). 2 ^ 64 - unat min_seq)"
    using unat_bound [of min_seq'] by simp
qed simp

declare ready_loop.simps [simp del]

definition park_txns :: "(u64 \<times> mempool_transaction \<Rightarrow> bool) \<Rightarrow> account_address \<Rightarrow> transaction_store \<Rightarrow> transaction_store" where
  "park_txns P a s =
     (case ts_transactions s a of
        None \<Rightarrow> s
      | Some txns \<Rightarrow>
          s\<lparr> ts_parking_lot_index := fold (\<lambda>(_, t). parking_insert t) (filter P txns) (ts_parking_lot_index s),
             ts_transactions := (ts_transactions s)(a \<mapsto>
               map (\<lambda>(n, t). (n, if P (n, t) then t\<lparr> mt_was_parked := True \<rparr> else t)) txns) \<rparr>)"

definition process_ready_transactions :: "account_address \<Rightarrow> u64 \<Rightarrow> transaction_store \<Rightarrow> transaction_store anyhow" where
  "process_ready_transactions a sequence_num s =
     (if ts_transactions s a = None then Inr s
      else and_then (ready_loop a sequence_num s) (\<lambda>(min_seq, s').
             Inr (park_txns (\<lambda>(n, t). min_seq < n \<and> \<not> is_ready (mt_timeline_state t)) a s')))"

definition clean_committed_transactions :: "txn_env \<Rightarrow> account_address \<Rightarrow> u64 \<Rightarrow> transaction_store \<Rightarrow> transaction_store anyhow" where
  "clean_committed_transactions E a sequence_number s =
     (case ts_transactions s a of
        None \<Rightarrow> Inr s
      | Some txns \<Rightarrow>
          index_remove_all E (map snd (filter (\<lambda>(n, _). n < sequence_number) txns))
            (s\<lparr> ts_transactions := (ts_transactions s)(a \<mapsto> filter (\<lambda>(n, _). sequence_number \<le> n) txns) \<rparr>))"

subsection \<open>Insertion\<close>

datatype mempool_status_code =
    Accepted | InvalidSeqNumber | MempoolIsFull | TooManyTransactions | InvalidUpdate | VmError | UnknownStatus

text \<open>The outcome of comparing a transaction with the one that has its sender and sequence number: refuse, do
  nothing, or replace it by a higher gas price.\<close>

datatype update_check = Refuse | Idempotent | Upgrade

definition check_update :: "mempool_transaction \<Rightarrow> mempool_transaction \<Rightarrow> update_check" where
  "check_update current t =
     (let c = st_raw_txn (mt_txn current); r = st_raw_txn (mt_txn t)
      in if rt_payload c \<noteq> rt_payload r then Refuse
         else if rt_expiration_timestamp_secs c \<noteq> rt_expiration_timestamp_secs r then Refuse
         else if rt_max_gas_amount c \<noteq> rt_max_gas_amount r then Refuse
         else if rt_gas_unit_price c < rt_gas_unit_price r then Upgrade
         else if rt_gas_unit_price r < rt_gas_unit_price c then Refuse
         else Idempotent)"

definition insert_indexes :: "txn_env \<Rightarrow> mempool_transaction \<Rightarrow> bool \<Rightarrow> transaction_store \<Rightarrow> transaction_store" where
  "insert_indexes E t gas_upgraded s =
     put_txn t (s\<lparr> ts_system_ttl_index := ttl_insert system_expiration t (ts_system_ttl_index s),
                   ts_expiration_time_index := ttl_insert client_expiration t (ts_expiration_time_index s),
                   ts_hash_index := (ts_hash_index s)(committed_hash E (mt_txn t) \<mapsto> (get_sender t, mt_sequence_number t)),
                   ts_sequence_numbers := (ts_sequence_numbers s)(get_sender t \<mapsto> account_sequence_number (mt_sequence_info t)),
                   ts_size_bytes := ts_size_bytes s + get_estimated_bytes E t,
                   ts_gas_upgraded_index :=
                     (if gas_upgraded then (ts_gas_upgraded_index s)(txn_pointer t \<mapsto> get_gas_price t)
                      else ts_gas_upgraded_index s) \<rparr>)"

text \<open>\<open>transactions.entry(address).or_insert_with(AccountTransactions::new)\<close>\<close>

definition open_account :: "account_address \<Rightarrow> transaction_store \<Rightarrow> transaction_store" where
  "open_account a s =
     (if ts_transactions s a = None then s\<lparr> ts_transactions := (ts_transactions s)(a \<mapsto> []) \<rparr> else s)"

definition insert_checked ::
  "txn_env \<Rightarrow> nat \<Rightarrow> mempool_transaction \<Rightarrow> bool \<Rightarrow> transaction_store \<Rightarrow> (mempool_status_code \<times> transaction_store) anyhow" where
  "insert_checked E pick t gas_upgraded s =
     (let a = get_sender t; acc_seq_num = account_sequence_number (mt_sequence_info t)
      in and_then (check_is_full_after_eviction E pick t acc_seq_num s) (\<lambda>(full, s1).
           if full then Inr (MempoolIsFull, s1)
           else and_then (clean_committed_transactions E a acc_seq_num s1) (\<lambda>s2.
             let s3 = open_account a s2
             in if ts_capacity_per_user s3 \<le> length (the (ts_transactions s3 a)) then Inr (TooManyTransactions, s3)
                else and_then (process_ready_transactions a acc_seq_num (insert_indexes E t gas_upgraded s3)) (\<lambda>s4.
                  Inr (Accepted, s4)))))"

definition store_insert ::
  "txn_env \<Rightarrow> nat \<Rightarrow> mempool_transaction \<Rightarrow> transaction_store \<Rightarrow> (mempool_status_code \<times> transaction_store) anyhow" where
  "store_insert E pick t s =
     (let a = get_sender t; n = mt_sequence_number t
      in case get_mempool_txn s a n of
           None \<Rightarrow> insert_checked E pick t False s
         | Some current \<Rightarrow>
             (case check_update current t of
                Refuse \<Rightarrow> Inr (InvalidUpdate, s)
              | Idempotent \<Rightarrow> Inr (Accepted, s)
              | Upgrade \<Rightarrow> and_then (index_remove E current (remove_txn a n s)) (insert_checked E pick t True)))"

subsection \<open>Commit, rejection and garbage collection\<close>

definition store_commit_transaction :: "txn_env \<Rightarrow> account_address \<Rightarrow> u64 \<Rightarrow> transaction_store \<Rightarrow> transaction_store anyhow" where
  "store_commit_transaction E a sequence_number s =
     (let current_seq_number = (case get_sequence_number s a of None \<Rightarrow> 0 | Some v \<Rightarrow> v)
      in and_then (expect (checked_add sequence_number 1)) (\<lambda>following.
           let new_seq_number = max current_seq_number following;
               s1 = s\<lparr> ts_sequence_numbers := (ts_sequence_numbers s)(a \<mapsto> new_seq_number) \<rparr>
           in and_then (clean_committed_transactions E a new_seq_number s1)
                (process_ready_transactions a new_seq_number)))"

definition store_reject_transaction ::
  "txn_env \<Rightarrow> account_address \<Rightarrow> u64 \<Rightarrow> hash_value \<Rightarrow> transaction_store \<Rightarrow> transaction_store anyhow" where
  "store_reject_transaction E a sequence_number h s =
     (if ts_hash_index s h = Some (a, sequence_number)
      then (case get_mempool_txn s a sequence_number of
              None \<Rightarrow> Inr s
            | Some t \<Rightarrow> index_remove E t (remove_txn a sequence_number s))
      else Inr s)"

text \<open>Garbage collection parks the transactions that follow an expired one, up to the next expired one of the
  account. \<open>range_mut\<close> panics when its excluded bounds are not in increasing order.\<close>

definition unready :: "mempool_transaction \<Rightarrow> mempool_transaction" where
  "unready t = t\<lparr> mt_was_parked := True,
                  mt_timeline_state := (if is_ready (mt_timeline_state t) then NotReady else mt_timeline_state t) \<rparr>"

definition park_txn :: "mempool_transaction \<Rightarrow> transaction_store \<Rightarrow> transaction_store anyhow" where
  "park_txn t s =
     and_then (multi_remove t (ts_timeline_index s)) (\<lambda>timelines.
       Inr (put_txn (unready t) (s\<lparr> ts_parking_lot_index := parking_insert t (ts_parking_lot_index s),
                                    ts_priority_index := priority_remove t (ts_priority_index s),
                                    ts_timeline_index := timelines \<rparr>)))"

fun park_following :: "mempool_transaction list \<Rightarrow> transaction_store \<Rightarrow> transaction_store anyhow" where
  "park_following [] s = Inr s"
| "park_following (t # ts) s = and_then (park_txn t s) (park_following ts)"

definition park_range :: "ttl_ordering_key \<Rightarrow> ttl_ordering_key list \<Rightarrow> account_transactions \<Rightarrow> mempool_transaction list anyhow" where
  "park_range key rest txns =
     (case rest of
        next_key # _ \<Rightarrow>
          if tk_address next_key = tk_address key
          then (if tk_sequence_number key < tk_sequence_number next_key
                then Inr (map snd (filter (\<lambda>(n, _). tk_sequence_number key < n \<and> n < tk_sequence_number next_key) txns))
                else Inl Panic)
          else Inr (map snd (filter (\<lambda>(n, _). tk_sequence_number key < n) txns))
      | [] \<Rightarrow> Inr (map snd (filter (\<lambda>(n, _). tk_sequence_number key < n) txns)))"

fun gc_loop :: "txn_env \<Rightarrow> ttl_ordering_key list \<Rightarrow> transaction_store \<Rightarrow> transaction_store anyhow" where
  "gc_loop E [] s = Inr s"
| "gc_loop E (key # rest) s =
     (case ts_transactions s (tk_address key) of
        None \<Rightarrow> gc_loop E rest s
      | Some txns \<Rightarrow>
          and_then (park_range key rest txns) (\<lambda>following.
          and_then (park_following following s) (\<lambda>s1.
          and_then (case get_mempool_txn s1 (tk_address key) (tk_sequence_number key) of
                      None \<Rightarrow> Inr s1
                    | Some t \<Rightarrow> index_remove E t (remove_txn (tk_address key) (tk_sequence_number key) s1)) (\<lambda>s2.
            gc_loop E rest s2))))"

definition gc_order :: "ttl_ordering_key list \<Rightarrow> ttl_ordering_key list" where
  "gc_order keys = sort_key (\<lambda>key. (tk_address key, tk_sequence_number key)) keys"

definition store_gc :: "txn_env \<Rightarrow> duration \<Rightarrow> bool \<Rightarrow> transaction_store \<Rightarrow> transaction_store anyhow" where
  "store_gc E now by_system_ttl s =
     (if by_system_ttl
      then let (keys, active) = ttl_gc now (ts_system_ttl_index s)
           in gc_loop E (gc_order keys) (s\<lparr> ts_system_ttl_index := active \<rparr>)
      else let (keys, active) = ttl_gc now (ts_expiration_time_index s)
           in gc_loop E (gc_order keys) (s\<lparr> ts_expiration_time_index := active \<rparr>))"

definition eager_expire_time :: "transaction_store \<Rightarrow> duration \<Rightarrow> duration \<Rightarrow> duration" where
  "eager_expire_time s now gc_time =
     (case ts_eager_expire_threshold s of
        None \<Rightarrow> gc_time
      | Some threshold \<Rightarrow>
          (let found = List.map_filter (\<lambda>(key, _). get_mempool_txn s (tk_address key) (tk_sequence_number key))
                         (take 20 (ts_system_ttl_index s))
           in case find (\<lambda>t. \<not> mt_was_parked t) found of
                None \<Rightarrow> gc_time
              | Some t \<Rightarrow>
                  (let insertion_time = ii_insertion_time (mt_insertion_info t)
                   in if insertion_time \<le> now \<and> threshold < now - insertion_time
                      then duration_saturating_add gc_time (ts_eager_expire_time s) else gc_time)))"

definition gc_by_system_ttl :: "txn_env \<Rightarrow> duration \<Rightarrow> transaction_store \<Rightarrow> transaction_store anyhow" where
  "gc_by_system_ttl E gc_time s = store_gc E gc_time True s"

definition gc_by_expiration_time :: "txn_env \<Rightarrow> duration \<Rightarrow> duration \<Rightarrow> transaction_store \<Rightarrow> transaction_store anyhow" where
  "gc_by_expiration_time E now block_time s = store_gc E (eager_expire_time s now block_time) False s"

subsection \<open>Broadcast\<close>

fun read_bucket :: "txn_env \<Rightarrow> transaction_store \<Rightarrow> nat \<Rightarrow> txn_pointer list \<Rightarrow>
    signed_transaction list \<times> u64 \<times> u64 list \<Rightarrow> signed_transaction list \<times> u64 \<times> u64 list" where
  "read_bucket E s i [] acc = acc"
| "read_bucket E s i ((a, n) # ps) (batch, total_bytes, ids) =
     (case get_mempool_txn s a n of
        None \<Rightarrow> read_bucket E s i ps (batch, total_bytes, ids)
      | Some t \<Rightarrow>
          (let bytes = of_nat (raw_txn_bytes_len E (st_raw_txn (mt_txn t)));
               total' = saturating_add total_bytes bytes
           in if ts_max_batch_bytes s < total' then (batch, total_bytes, ids)
              else read_bucket E s i ps
                (batch @ [mt_txn t], total',
                 case mt_timeline_state t of Ready timeline_id \<Rightarrow> ids[i := timeline_id] | _ \<Rightarrow> ids)))"

definition store_read_timeline :: "txn_env \<Rightarrow> transaction_store \<Rightarrow> u64 list \<Rightarrow> nat \<Rightarrow> (signed_transaction list \<times> u64 list) anyhow" where
  "store_read_timeline E s id_per_bucket max_count =
     and_then (multi_read_timeline (ts_timeline_index s) id_per_bucket max_count) (\<lambda>buckets.
       let (batch, _, ids) =
         fold (\<lambda>(i, ps). read_bucket E s i ps) (rev (List.enumerate 0 buckets)) ([], 0, id_per_bucket)
       in Inr (batch, ids))"

definition store_timeline_range :: "transaction_store \<Rightarrow> (u64 \<times> u64) list \<Rightarrow> signed_transaction list anyhow" where
  "store_timeline_range s start_end_pairs =
     and_then (multi_timeline_range (ts_timeline_index s) start_end_pairs) (\<lambda>ps.
       Inr (List.map_filter (\<lambda>(a, n). store_get s a n) ps))"

section \<open>Mempool\<close>

record mempool =
  mp_transactions :: transaction_store
  mp_system_transaction_timeout :: duration

definition mempool_new :: "mempool_config \<Rightarrow> mempool anyhow" where
  "mempool_new config =
     and_then (store_new config) (\<lambda>s.
       Inr \<lparr> mp_transactions = s,
             mp_system_transaction_timeout = duration_from_secs (mc_system_transaction_timeout_secs config) \<rparr>)"

definition on_store :: "(transaction_store \<Rightarrow> transaction_store anyhow) \<Rightarrow> mempool \<Rightarrow> mempool anyhow" where
  "on_store f m = and_then (f (mp_transactions m)) (\<lambda>s. Inr (m\<lparr> mp_transactions := s \<rparr>))"

definition commit_transaction :: "txn_env \<Rightarrow> account_address \<Rightarrow> u64 \<Rightarrow> mempool \<Rightarrow> mempool anyhow" where
  "commit_transaction E sender sequence_number = on_store (store_commit_transaction E sender sequence_number)"

text \<open>Of the reasons of \<open>DiscardedVMStatus\<close> the mempool tells two apart.\<close>

datatype discarded_vm_status = SEQUENCE_NUMBER_TOO_NEW | SEQUENCE_NUMBER_TOO_OLD | OTHER_STATUS u64

definition reject_transaction ::
  "txn_env \<Rightarrow> account_address \<Rightarrow> u64 \<Rightarrow> hash_value \<Rightarrow> discarded_vm_status \<Rightarrow> mempool \<Rightarrow> mempool anyhow" where
  "reject_transaction E sender sequence_number h reason m =
     (if reason = SEQUENCE_NUMBER_TOO_NEW then Inr m
      else on_store (store_reject_transaction E sender sequence_number h) m)"

definition get_by_hash :: "mempool \<Rightarrow> hash_value \<Rightarrow> signed_transaction option" where
  "get_by_hash m h = store_get_by_hash (mp_transactions m) h"

definition add_txn ::
  "txn_env \<Rightarrow> nat \<Rightarrow> duration \<Rightarrow> signed_transaction \<Rightarrow> u64 \<Rightarrow> u64 \<Rightarrow> timeline_state \<Rightarrow> bool \<Rightarrow>
   mempool \<Rightarrow> (mempool_status_code \<times> mempool) anyhow" where
  "add_txn E pick now txn ranking_score db_sequence_number state client_submitted m =
     (if st_sequence_number txn < db_sequence_number then Inr (InvalidSeqNumber, m)
      else and_then (duration_add now (mp_system_transaction_timeout m)) (\<lambda>expiration.
           and_then (store_insert E pick
                       (mempool_transaction_new txn expiration ranking_score state db_sequence_number now client_submitted)
                       (mp_transactions m)) (\<lambda>(status, s).
             Inr (status, m\<lparr> mp_transactions := s \<rparr>))))"

definition mempool_gc :: "txn_env \<Rightarrow> duration \<Rightarrow> mempool \<Rightarrow> mempool anyhow" where
  "mempool_gc E now = on_store (gc_by_system_ttl E now)"

definition mempool_gc_by_expiration_time :: "txn_env \<Rightarrow> duration \<Rightarrow> duration \<Rightarrow> mempool \<Rightarrow> mempool anyhow" where
  "mempool_gc_by_expiration_time E now block_time = on_store (gc_by_expiration_time E now block_time)"

definition read_timeline :: "txn_env \<Rightarrow> mempool \<Rightarrow> u64 list \<Rightarrow> nat \<Rightarrow> (signed_transaction list \<times> u64 list) anyhow" where
  "read_timeline E m timeline_id max_count = store_read_timeline E (mp_transactions m) timeline_id max_count"

definition mempool_timeline_range :: "mempool \<Rightarrow> (u64 \<times> u64) list \<Rightarrow> signed_transaction list anyhow" where
  "mempool_timeline_range m start_end_pairs = store_timeline_range (mp_transactions m) start_end_pairs"

subsection \<open>Batches\<close>

text \<open>A \<open>TransactionInProgress\<close> is the pointer and the gas price of a transaction. \<open>seen\<close> maps the pointers that are
  not taken again to a gas price; later entries of the excluded transactions overwrite earlier ones.\<close>

type_synonym transaction_in_progress = "txn_pointer \<times> u64"

definition seen_excluded :: "bool \<Rightarrow> transaction_in_progress list \<Rightarrow> txn_pointer \<Rightarrow> u64 option" where
  "seen_excluded include_gas_upgraded excluded =
     map_of (rev (if include_gas_upgraded then sort excluded else excluded))"

definition seen_initially :: "transaction_store \<Rightarrow> bool \<Rightarrow> transaction_in_progress list \<Rightarrow> txn_pointer \<Rightarrow> u64 option" where
  "seen_initially s include_gas_upgraded excluded =
     (let seen = seen_excluded include_gas_upgraded excluded
      in if include_gas_upgraded
         then (\<lambda>p. case (seen p, ts_gas_upgraded_index s p) of
                     (Some gas, Some new_gas) \<Rightarrow> if gas < new_gas then None else Some gas
                   | (g, _) \<Rightarrow> g)
         else seen)"

text \<open>The state of the loop over the priority queue. Skipped pointers are a set, kept as a list.\<close>

record batch_state =
  bs_seen :: "txn_pointer \<Rightarrow> u64 option"
  bs_skipped :: "txn_pointer list"
  bs_result :: "txn_pointer list"

definition take_pointer :: "txn_pointer \<Rightarrow> u64 \<Rightarrow> batch_state \<Rightarrow> batch_state" where
  "take_pointer p score b = b\<lparr> bs_seen := (bs_seen b)(p \<mapsto> score), bs_result := bs_result b @ [p] \<rparr>"

text \<open>\<open>result.len() as u64 == max_txns\<close>\<close>

definition batch_full :: "u64 \<Rightarrow> batch_state \<Rightarrow> bool" where
  "batch_full max_txns b \<longleftrightarrow> of_nat (length (bs_result b)) = max_txns"

text \<open>The inner loop takes the skipped successors; its flag tells that the batch is full.\<close>

function take_skipped :: "u64 \<Rightarrow> account_address \<Rightarrow> u64 \<Rightarrow> u64 \<Rightarrow> batch_state \<Rightarrow> (bool \<times> batch_state) anyhow" where
  "take_skipped max_txns a n score b =
     (if (a, n) \<notin> set (bs_skipped b) then Inr (False, b)
      else let b' = take_pointer (a, n) score b
           in if batch_full max_txns b' then Inr (True, b')
              else and_then (expect (checked_add n 1)) (\<lambda>n'. take_skipped max_txns a n' score b'))"
  by pat_completeness auto

termination take_skipped
proof (relation "measure (\<lambda>(max_txns, a, n, score, b). 2 ^ 64 - unat n)")
  fix max_txns score :: u64 and a :: account_address and b b' and n n' :: u64
  assume "expect (checked_add n 1) = Inr n'"
  then have "unat n' = unat n + 1"
    by (simp add: expect_Inr checked_add_Some)
  then show "((max_txns, a, n', score, b'), max_txns, a, n, score, b) \<in> measure (\<lambda>(max_txns, a, n, score, b). 2 ^ 64 - unat n)"
    using unat_bound [of n'] by simp
qed simp

declare take_skipped.simps [simp del]

definition key_pointer :: "ordered_queue_key \<Rightarrow> txn_pointer" where
  "key_pointer k = (qk_address k, qk_sequence_number k)"

definition seen_previous :: "batch_state \<Rightarrow> txn_pointer \<Rightarrow> bool" where
  "seen_previous b p \<longleftrightarrow> 0 < snd p \<and> bs_seen b (fst p, snd p - 1) \<noteq> None"

fun batch_loop :: "transaction_store \<Rightarrow> u64 \<Rightarrow> ordered_queue_key list \<Rightarrow> batch_state \<Rightarrow> batch_state anyhow" where
  "batch_loop s max_txns [] b = Inr b"
| "batch_loop s max_txns (k # ks) b =
     (let p = key_pointer k
      in if bs_seen b p \<noteq> None then batch_loop s max_txns ks b
         else if seen_previous b p \<or> get_sequence_number s (fst p) = Some (snd p)
         then let b' = take_pointer p (qk_gas_ranking_score k) b
              in if batch_full max_txns b' then Inr b'
                 else and_then (expect (checked_add (snd p) 1)) (\<lambda>n'.
                      and_then (take_skipped max_txns (fst p) n' (qk_gas_ranking_score k) b') (\<lambda>(full, b'').
                        if full then Inr b'' else batch_loop s max_txns ks b''))
         else batch_loop s max_txns ks (b\<lparr> bs_skipped := p # bs_skipped b \<rparr>))"

text \<open>The transactions of the pointers, up to the number of bytes; the flag tells that this bound was hit.\<close>

fun fill_block :: "txn_env \<Rightarrow> transaction_store \<Rightarrow> nat \<Rightarrow> txn_pointer list \<Rightarrow> nat \<Rightarrow> signed_transaction list \<times> bool" where
  "fill_block E s max_bytes [] total_bytes = ([], False)"
| "fill_block E s max_bytes ((a, n) # ps) total_bytes =
     (case get_with_ranking_score s a n of
        None \<Rightarrow> fill_block E s max_bytes ps total_bytes
      | Some (txn, _) \<Rightarrow>
          (let txn_size = raw_txn_bytes_len E (st_raw_txn txn)
           in if max_bytes < total_bytes + txn_size then ([], True)
              else let (block, full_bytes) = fill_block E s max_bytes ps (total_bytes + txn_size)
                   in (txn # block, full_bytes)))"

definition get_batch ::
  "txn_env \<Rightarrow> mempool \<Rightarrow> u64 \<Rightarrow> u64 \<Rightarrow> bool \<Rightarrow> bool \<Rightarrow> transaction_in_progress list \<Rightarrow> signed_transaction list anyhow" where
  "get_batch E m max_txns max_bytes return_non_full include_gas_upgraded excluded =
     (let s = mp_transactions m;
          b = \<lparr> bs_seen = seen_initially s include_gas_upgraded excluded, bs_skipped = [], bs_result = [] \<rparr>
      in and_then (batch_loop s max_txns (priority_iter (ts_priority_index s)) b) (\<lambda>b'.
           let (block, full_bytes) = fill_block E s (unat max_bytes) (bs_result b') 0
           in if \<not> return_non_full \<and> \<not> full_bytes \<and> of_nat (length block) < max_txns then Inr []
              else Inr block))"

end
