(* ===== verification/Mempool_Store.thy ===== *)
theory Mempool_Store
  imports Core_Mempool
begin

text \<open>
  The invariant of the transaction store and that every operation of it keeps it.
\<close>

section \<open>Consistency of the store\<close>

definition held :: "transaction_store \<Rightarrow> mempool_transaction set" where
  "held s = {t. \<exists>a n. get_mempool_txn s a n = Some t}"

definition accounts_ok :: "transaction_store \<Rightarrow> bool" where
  "accounts_ok s \<longleftrightarrow>
     (\<forall>a txns. ts_transactions s a = Some txns \<longrightarrow> bt_wf txns) \<and>
     (\<forall>a n t. get_mempool_txn s a n = Some t \<longrightarrow> txn_pointer t = (a, n) \<and> signed_pointer t = (a, n))"

text \<open>The indexes of \<open>s\<close> are those of the transactions \<open>X\<close>, except that the pointers \<open>Ds\<close> and \<open>Dc\<close> have already been
  taken out of the expiration indexes.\<close>

definition indexed :: "txn_env \<Rightarrow> mempool_transaction set \<Rightarrow> txn_pointer set \<Rightarrow> txn_pointer set \<Rightarrow> transaction_store \<Rightarrow> bool" where
  "indexed E X Ds Dc s \<longleftrightarrow>
     finite X \<and> inj_on txn_pointer X \<and> (\<forall>t \<in> X. signed_pointer t = txn_pointer t) \<and>
     bt_wf (ts_system_ttl_index s) \<and>
     bt_keys (ts_system_ttl_index s) = ttl_key system_expiration ` {t \<in> X. txn_pointer t \<notin> Ds} \<and>
     bt_wf (ts_expiration_time_index s) \<and>
     bt_keys (ts_expiration_time_index s) = ttl_key client_expiration ` {t \<in> X. txn_pointer t \<notin> Dc} \<and>
     bt_wf (ts_priority_index s) \<and> bt_keys (ts_priority_index s) \<subseteq> priority_key ` X \<and>
     parking_wf (ts_parking_lot_index s) \<and> parked (ts_parking_lot_index s) \<subseteq> txn_pointer ` X \<and>
     (\<forall>h p. ts_hash_index s h = Some p \<longrightarrow> (\<exists>t \<in> X. txn_pointer t = p \<and> committed_hash E (mt_txn t) = h)) \<and>
     ts_size_bytes s = (\<Sum>t \<in> X. get_estimated_bytes E t) \<and>
     (\<forall>p g. ts_gas_upgraded_index s p = Some g \<longrightarrow> (\<exists>t \<in> X. txn_pointer t = p \<and> get_gas_price t = g)) \<and>
     timeline_inv (ts_timeline_index s) X"

lemma indexedD:
  assumes "indexed E X Ds Dc s"
  shows "finite X" "inj_on txn_pointer X" "\<And>t. t \<in> X \<Longrightarrow> signed_pointer t = txn_pointer t"
    "bt_wf (ts_system_ttl_index s)" "bt_keys (ts_system_ttl_index s) = ttl_key system_expiration ` {t \<in> X. txn_pointer t \<notin> Ds}"
    "bt_wf (ts_expiration_time_index s)"
    "bt_keys (ts_expiration_time_index s) = ttl_key client_expiration ` {t \<in> X. txn_pointer t \<notin> Dc}"
    "bt_wf (ts_priority_index s)" "bt_keys (ts_priority_index s) \<subseteq> priority_key ` X"
    "parking_wf (ts_parking_lot_index s)" "parked (ts_parking_lot_index s) \<subseteq> txn_pointer ` X"
    "\<And>h p. ts_hash_index s h = Some p \<Longrightarrow> \<exists>t \<in> X. txn_pointer t = p \<and> committed_hash E (mt_txn t) = h"
    "ts_size_bytes s = (\<Sum>t \<in> X. get_estimated_bytes E t)"
    "\<And>p g. ts_gas_upgraded_index s p = Some g \<Longrightarrow> \<exists>t \<in> X. txn_pointer t = p \<and> get_gas_price t = g"
    "timeline_inv (ts_timeline_index s) X"
  using assms unfolding indexed_def by blast+

lemma indexedI:
  assumes "finite X" "inj_on txn_pointer X" "\<And>t. t \<in> X \<Longrightarrow> signed_pointer t = txn_pointer t"
    "bt_wf (ts_system_ttl_index s)" "bt_keys (ts_system_ttl_index s) = ttl_key system_expiration ` {t \<in> X. txn_pointer t \<notin> Ds}"
    "bt_wf (ts_expiration_time_index s)"
    "bt_keys (ts_expiration_time_index s) = ttl_key client_expiration ` {t \<in> X. txn_pointer t \<notin> Dc}"
    "bt_wf (ts_priority_index s)" "bt_keys (ts_priority_index s) \<subseteq> priority_key ` X"
    "parking_wf (ts_parking_lot_index s)" "parked (ts_parking_lot_index s) \<subseteq> txn_pointer ` X"
    "\<And>h p. ts_hash_index s h = Some p \<Longrightarrow> \<exists>t \<in> X. txn_pointer t = p \<and> committed_hash E (mt_txn t) = h"
    "ts_size_bytes s = (\<Sum>t \<in> X. get_estimated_bytes E t)"
    "\<And>p g. ts_gas_upgraded_index s p = Some g \<Longrightarrow> \<exists>t \<in> X. txn_pointer t = p \<and> get_gas_price t = g"
    "timeline_inv (ts_timeline_index s) X"
  shows "indexed E X Ds Dc s"
  using assms unfolding indexed_def by blast

lemma key_pointer_inj:
  "ttl_key f t = ttl_key f u \<Longrightarrow> txn_pointer t = txn_pointer u"
  "priority_key t = priority_key u \<Longrightarrow> txn_pointer t = txn_pointer u"
  by (simp_all add: ttl_key_def priority_key_def txn_pointer_def)

lemma keys_without:
  assumes "inj_on txn_pointer X" "t \<in> X" "\<And>u v. g u = g v \<Longrightarrow> txn_pointer u = txn_pointer v"
  shows "g ` {u \<in> X. P u} - {g t} = g ` {u \<in> X - {t}. P u}"
  using assms by (auto dest: inj_onD)

subsection \<open>Removing a transaction from the indexes\<close>

text \<open>What the removal of transactions leaves of a store: the rest of the transactions, with the sequence numbers of
  their accounts and their keys in the priority index, and the configuration.\<close>

definition store_config :: "transaction_store \<Rightarrow> nat \<times> nat \<times> nat \<times> u64 \<times> duration option \<times> duration" where
  "store_config s = (ts_capacity s, ts_capacity_bytes s, ts_capacity_per_user s, ts_max_batch_bytes s,
     ts_eager_expire_threshold s, ts_eager_expire_time s)"

definition shrinks :: "transaction_store \<Rightarrow> transaction_store \<Rightarrow> bool" where
  "shrinks s s' \<longleftrightarrow>
     (\<forall>a n. get_mempool_txn s' a n = None \<or> get_mempool_txn s' a n = get_mempool_txn s a n) \<and>
     (\<forall>a n t. get_mempool_txn s' a n = Some t \<longrightarrow> ts_sequence_numbers s' a = ts_sequence_numbers s a \<and>
        (priority_key t \<in> bt_keys (ts_priority_index s) \<longrightarrow> priority_key t \<in> bt_keys (ts_priority_index s'))) \<and>
     (\<forall>a. ts_sequence_numbers s' a = None \<or> ts_sequence_numbers s' a = ts_sequence_numbers s a) \<and>
     store_config s' = store_config s"

lemma shrinks_refl [simp]: "shrinks s s"
  by (simp add: shrinks_def)

lemma shrinks_trans:
  assumes 1: "shrinks s s'" and 2: "shrinks s' s''"
  shows "shrinks s s''"
proof -
  have g: "get_mempool_txn s' a n = Some t" "get_mempool_txn s a n = Some t" if "get_mempool_txn s'' a n = Some t" for a n t
    using that 1 2 unfolding shrinks_def by (metis option.distinct(1))+
  show ?thesis
    unfolding shrinks_def
  proof (intro conjI allI impI)
    fix a n
    show "get_mempool_txn s'' a n = None \<or> get_mempool_txn s'' a n = get_mempool_txn s a n"
      using g by (cases "get_mempool_txn s'' a n") auto
  next
    fix a n t assume t: "get_mempool_txn s'' a n = Some t"
    from 1 2 g [OF t] t show "ts_sequence_numbers s'' a = ts_sequence_numbers s a"
      unfolding shrinks_def by metis
    from 1 2 g [OF t] t show "priority_key t \<in> bt_keys (ts_priority_index s'')" if "priority_key t \<in> bt_keys (ts_priority_index s)"
      using that unfolding shrinks_def by metis
  next
    fix a show "ts_sequence_numbers s'' a = None \<or> ts_sequence_numbers s'' a = ts_sequence_numbers s a"
      using 1 2 unfolding shrinks_def by metis
  next
    show "store_config s'' = store_config s" using 1 2 by (simp add: shrinks_def)
  qed
qed

lemma get_drop_empty [simp]: "get_mempool_txn (drop_empty_account a s) b n = get_mempool_txn s b n"
  by (simp add: drop_empty_account_def get_mempool_txn_def)

definition unindexes :: "mempool_transaction set \<Rightarrow> transaction_store \<Rightarrow> transaction_store \<Rightarrow> bool" where
  "unindexes R s s' \<longleftrightarrow>
     get_mempool_txn s' = get_mempool_txn s \<and> (accounts_ok s \<longrightarrow> accounts_ok s') \<and>
     (\<forall>a. ts_sequence_numbers s' a = ts_sequence_numbers s a \<or>
          ts_sequence_numbers s' a = None \<and> ts_transactions s a = Some []) \<and>
     (\<forall>a. ts_transactions s' a = ts_transactions s a \<or> ts_transactions s' a = None) \<and>
     bt_keys (ts_priority_index s') = bt_keys (ts_priority_index s) - priority_key ` R \<and>
     store_config s' = store_config s"

lemma unindexes_refl: "unindexes {} s s"
  by (simp add: unindexes_def)

lemma unindexes_trans:
  assumes 1: "unindexes Q s s'" and 2: "unindexes R s' s''"
  shows "unindexes (Q \<union> R) s s''"
  unfolding unindexes_def
proof (intro conjI allI impI)
  fix a
  show "ts_sequence_numbers s'' a = ts_sequence_numbers s a \<or> ts_sequence_numbers s'' a = None \<and> ts_transactions s a = Some []"
    using 1 2 unfolding unindexes_def by (metis option.distinct(1))
  show "ts_transactions s'' a = ts_transactions s a \<or> ts_transactions s'' a = None"
    using 1 2 unfolding unindexes_def by metis
qed (use 1 2 in \<open>auto simp: unindexes_def\<close>)

lemma index_remove_ok:
  assumes ix: "indexed E X Ds Dc s" and t: "t \<in> X"
  shows "\<exists>s'. index_remove E t s = Inr s' \<and> indexed E (X - {t}) Ds Dc s' \<and> unindexes {t} s s'"
proof -
  note I = indexedD [OF ix]
  from multi_remove_ok [OF I(15) t I(2)] obtain mb where mb: "multi_remove t (ts_timeline_index s) = Inr mb"
    "timeline_inv mb (X - {t})" by blast
  from parking.del_ok [OF I(10), of t] obtain pl where pl: "parking_remove t (ts_parking_lot_index s) = Inr pl" "parking_wf pl"
    "parked pl = parked (ts_parking_lot_index s) - {txn_pointer t}" using I(3) [OF t] by auto
  have sum: "ts_size_bytes s = get_estimated_bytes E t + (\<Sum>u \<in> X - {t}. get_estimated_bytes E u)"
    using I(13) sum.remove [OF I(1) t] by simp
  then have sub: "nat_sub (ts_size_bytes s) (get_estimated_bytes E t) = Inr (\<Sum>u \<in> X - {t}. get_estimated_bytes E u)"
    by (simp add: nat_sub_def)
  define r where "r = s\<lparr> ts_system_ttl_index := ttl_remove system_expiration t (ts_system_ttl_index s),
             ts_expiration_time_index := ttl_remove client_expiration t (ts_expiration_time_index s),
             ts_priority_index := priority_remove t (ts_priority_index s),
             ts_timeline_index := mb,
             ts_parking_lot_index := pl,
             ts_hash_index := (ts_hash_index s)(committed_hash E (mt_txn t) := None),
             ts_size_bytes := (\<Sum>u \<in> X - {t}. get_estimated_bytes E u),
             ts_gas_upgraded_index := (ts_gas_upgraded_index s)(txn_pointer t := None) \<rparr>"
  define s' where "s' = drop_empty_account (get_sender t) r"
  have fields: "ts_system_ttl_index s' = ts_system_ttl_index r" "ts_expiration_time_index s' = ts_expiration_time_index r"
    "ts_priority_index s' = ts_priority_index r" "ts_timeline_index s' = ts_timeline_index r" "ts_parking_lot_index s' = ts_parking_lot_index r"
    "ts_hash_index s' = ts_hash_index r" "ts_size_bytes s' = ts_size_bytes r" "ts_gas_upgraded_index s' = ts_gas_upgraded_index r"
    "store_config s' = store_config s"
    by (simp_all add: s'_def r_def drop_empty_account_def store_config_def)
  show ?thesis
  proof (intro exI [of _ s'] conjI)
    show "index_remove E t s = Inr s'"
      unfolding index_remove_def mb(1) pl(1) sub and_then.simps s'_def r_def ..
    show "indexed E (X - {t}) Ds Dc s'"
    proof (rule indexedI)
      show "bt_keys (ts_system_ttl_index s') = ttl_key system_expiration ` {u \<in> X - {t}. txn_pointer u \<notin> Ds}"
        using keys_without [OF I(2) t key_pointer_inj(1), where P = "\<lambda>u. txn_pointer u \<notin> Ds"]
        by (simp add: fields r_def ttl_remove_def I(5))
      show "bt_keys (ts_expiration_time_index s') = ttl_key client_expiration ` {u \<in> X - {t}. txn_pointer u \<notin> Dc}"
        using keys_without [OF I(2) t key_pointer_inj(1), where P = "\<lambda>u. txn_pointer u \<notin> Dc"]
        by (simp add: fields r_def ttl_remove_def I(7))
      show "bt_keys (ts_priority_index s') \<subseteq> priority_key ` (X - {t})"
        using I(9) by (auto simp: fields r_def priority_remove_def)
      show "parked (ts_parking_lot_index s') \<subseteq> txn_pointer ` (X - {t})"
        using I(11) pl(3) by (auto simp: fields r_def)
      show "\<exists>u \<in> X - {t}. txn_pointer u = p \<and> committed_hash E (mt_txn u) = h" if "ts_hash_index s' h = Some p" for h p
        using that I(12) [of h p] by (auto simp: fields r_def split: if_splits)
      show "\<exists>u \<in> X - {t}. txn_pointer u = p \<and> get_gas_price u = g" if "ts_gas_upgraded_index s' p = Some g" for p g
        using that I(14) [of p g] by (auto simp: fields r_def split: if_splits)
    qed (use I pl(2) mb(2) in \<open>auto simp: fields r_def ttl_remove_def priority_remove_def bt_wf_remove inj_on_diff\<close>)
    have get: "get_mempool_txn s' = get_mempool_txn s"
      by (intro ext) (simp add: s'_def, simp add: r_def get_mempool_txn_def)
    then have "accounts_ok s \<Longrightarrow> accounts_ok s'"
      by (auto simp: accounts_ok_def s'_def r_def drop_empty_account_def split: if_splits)
    moreover have "ts_sequence_numbers s' a = ts_sequence_numbers s a \<or> ts_sequence_numbers s' a = None \<and> ts_transactions s a = Some []"
      "ts_transactions s' a = ts_transactions s a \<or> ts_transactions s' a = None" for a
      by (auto simp: s'_def r_def drop_empty_account_def)
    ultimately show "unindexes {t} s s'"
      unfolding unindexes_def using get by (simp add: fields(3,9)) (simp add: r_def priority_remove_def)
  qed
qed

lemma index_remove_all_ok:
  assumes "indexed E X Ds Dc s" and "set ts \<subseteq> X" and "distinct ts"
  shows "\<exists>s'. index_remove_all E ts s = Inr s' \<and> indexed E (X - set ts) Ds Dc s' \<and> unindexes (set ts) s s'"
  using assms
proof (induction ts arbitrary: s X)
  case (Cons t ts)
  have "t \<in> X" using Cons.prems by simp
  from index_remove_ok [OF Cons.prems(1) this] obtain s1
    where s1: "index_remove E t s = Inr s1" "indexed E (X - {t}) Ds Dc s1" "unindexes {t} s s1" by blast
  have "set ts \<subseteq> X - {t}" "distinct ts" using Cons.prems by auto
  from Cons.IH [OF s1(2) this] obtain s2
    where s2: "index_remove_all E ts s1 = Inr s2" "indexed E (X - {t} - set ts) Ds Dc s2" "unindexes (set ts) s1 s2" by blast
  have "X - {t} - set ts = X - set (t # ts)" by auto
  with s1 s2 unindexes_trans [OF s1(3) s2(3)] show ?case by simp
qed (simp add: unindexes_refl)

definition consistent :: "txn_env \<Rightarrow> txn_pointer set \<Rightarrow> txn_pointer set \<Rightarrow> transaction_store \<Rightarrow> bool" where
  "consistent E Ds Dc s \<longleftrightarrow> accounts_ok s \<and> indexed E (held s) Ds Dc s"

lemma indexed_main [simp]:
  "indexed E X Ds Dc (s\<lparr> ts_transactions := T \<rparr>) = indexed E X Ds Dc s"
  "indexed E X Ds Dc (s\<lparr> ts_sequence_numbers := q \<rparr>) = indexed E X Ds Dc s"
  by (simp_all add: indexed_def)

lemma heldI: "get_mempool_txn s a n = Some t \<Longrightarrow> t \<in> held s"
  by (auto simp: held_def)

lemma consistent_pointer:
  assumes "consistent E Ds Dc s" "get_mempool_txn s a n = Some t"
  shows "txn_pointer t = (a, n)" "get_sender t = a" "mt_sequence_number t = n" "signed_pointer t = (a, n)"
  using assms by (auto simp: consistent_def accounts_ok_def txn_pointer_def)

lemma held_get: "consistent E Ds Dc s \<Longrightarrow> t \<in> held s \<Longrightarrow> get_mempool_txn s (get_sender t) (mt_sequence_number t) = Some t"
  by (auto simp: held_def consistent_pointer)

lemma get_remove_txn: "get_mempool_txn (remove_txn a n s) b m = (if (b, m) = (a, n) then None else get_mempool_txn s b m)"
  by (auto simp: get_mempool_txn_def remove_txn_def map_of_bt_remove split: option.splits)

lemma get_put_txn:
  "get_mempool_txn (put_txn t s) b m = (if (b, m) = txn_pointer t then Some t else get_mempool_txn s b m)"
  by (auto simp: get_mempool_txn_def put_txn_def map_of_bt_insert txn_pointer_def Let_def split: option.splits)

lemma remove_txn_fields [simp]: "ts_sequence_numbers (remove_txn a n s) = ts_sequence_numbers s"
  "ts_priority_index (remove_txn a n s) = ts_priority_index s" "store_config (remove_txn a n s) = store_config s"
  "indexed E X Ds Dc (remove_txn a n s) = indexed E X Ds Dc s"
  by (auto simp: remove_txn_def store_config_def split: option.splits)

lemma unindexes_shrinks:
  assumes un: "unindexes R r s'"
    and get: "\<And>b m. get_mempool_txn r b m = None \<or> get_mempool_txn r b m = get_mempool_txn s b m"
    and r: "ts_sequence_numbers r = ts_sequence_numbers s" "ts_priority_index r = ts_priority_index s" "store_config r = store_config s"
    and R: "\<And>b m u. get_mempool_txn r b m = Some u \<Longrightarrow> priority_key u \<notin> priority_key ` R"
  shows "shrinks s s'"
  unfolding shrinks_def
proof (intro conjI allI impI)
  have g: "get_mempool_txn s' = get_mempool_txn r" using un by (simp add: unindexes_def)
  show "get_mempool_txn s' b m = None \<or> get_mempool_txn s' b m = get_mempool_txn s b m" for b m
    unfolding g by (rule get)
  fix b m u assume u: "get_mempool_txn s' b m = Some u"
  then have "ts_transactions r b \<noteq> Some []" unfolding g by (auto simp: get_mempool_txn_def)
  then show "ts_sequence_numbers s' b = ts_sequence_numbers s b" using un r(1) unfolding unindexes_def by metis
  show "priority_key u \<in> bt_keys (ts_priority_index s')" if "priority_key u \<in> bt_keys (ts_priority_index s)"
    using un that R [of b m u] u r(2) unfolding g unindexes_def by auto
qed (use un r in \<open>auto simp: unindexes_def\<close>)

lemma discard_ok:
  assumes con: "consistent E Ds Dc s" and t: "get_mempool_txn s a n = Some t"
  shows "\<exists>s'. index_remove E t (remove_txn a n s) = Inr s' \<and> consistent E Ds Dc s' \<and> shrinks s s' \<and>
    (\<forall>b m. get_mempool_txn s' b m = (if (b, m) = (a, n) then None else get_mempool_txn s b m))"
proof -
  let ?r = "remove_txn a n s"
  have acc: "accounts_ok ?r"
    unfolding accounts_ok_def
  proof (intro conjI allI impI)
    fix b txns assume "ts_transactions ?r b = Some txns"
    moreover have "bt_wf txns" if "ts_transactions s b = Some txns" for b txns
      using con that by (simp add: consistent_def accounts_ok_def)
    ultimately show "bt_wf txns"
      by (auto simp: remove_txn_def bt_wf_remove split: option.splits if_splits)
  next
    fix b m u assume "get_mempool_txn ?r b m = Some u"
    then show "txn_pointer u = (b, m)" "signed_pointer u = (b, m)"
      using consistent_pointer [OF con] by (auto simp: get_remove_txn split: if_splits)
  qed
  have held: "held ?r = held s - {t}"
  proof (intro set_eqI iffI)
    fix u assume "u \<in> held ?r"
    then obtain b m where u: "get_mempool_txn s b m = Some u" "(b, m) \<noteq> (a, n)"
      by (auto simp: held_def get_remove_txn split: if_splits)
    then have "txn_pointer u \<noteq> txn_pointer t" using consistent_pointer(1) [OF con] t by metis
    then show "u \<in> held s - {t}" using heldI [OF u(1)] by blast
  next
    fix u assume u: "u \<in> held s - {t}"
    then have "get_mempool_txn s (get_sender u) (mt_sequence_number u) = Some u" using held_get [OF con] by blast
    moreover from this have "(get_sender u, mt_sequence_number u) \<noteq> (a, n)" using u t by auto
    ultimately have "get_mempool_txn ?r (get_sender u) (mt_sequence_number u) = Some u" by (simp add: get_remove_txn)
    then show "u \<in> held ?r" by (rule heldI)
  qed
  have "indexed E (held s) Ds Dc ?r" using con by (simp add: consistent_def)
  from index_remove_ok [OF this heldI [OF t]] obtain s'
    where s': "index_remove E t ?r = Inr s'" "indexed E (held s - {t}) Ds Dc s'" "unindexes {t} ?r s'" by blast
  have get: "get_mempool_txn s' = get_mempool_txn ?r" using s'(3) by (simp add: unindexes_def)
  then have "held s' = held s - {t}" using held by (simp add: held_def)
  moreover have "accounts_ok s'" using s'(3) acc by (simp add: unindexes_def)
  ultimately have "consistent E Ds Dc s'" using s'(2) by (simp add: consistent_def)
  moreover have "shrinks s s'"
  proof (rule unindexes_shrinks [OF s'(3)])
    show "priority_key u \<notin> priority_key ` {t}" if "get_mempool_txn ?r b m = Some u" for b m u
      using that key_pointer_inj(2) [of u t] consistent_pointer(1) [OF con] t by (auto simp: get_remove_txn split: if_splits)
  qed (auto simp: get_remove_txn)
  ultimately show ?thesis using s'(1) get by (auto simp: get_remove_txn)
qed

lemma clean_committed_ok:
  assumes con: "consistent E Ds Dc s"
  shows "\<exists>s'. clean_committed_transactions E a q s = Inr s' \<and> consistent E Ds Dc s' \<and> shrinks s s' \<and>
    (\<forall>b m. get_mempool_txn s' b m = (if b = a \<and> m < q then None else get_mempool_txn s b m))"
proof (cases "ts_transactions s a")
  case None
  then show ?thesis using con by (auto simp: clean_committed_transactions_def get_mempool_txn_def)
next
  case (Some txns)
  have wf: "bt_wf txns" using con Some by (simp add: consistent_def accounts_ok_def)
  have txn: "(n, t) \<in> set txns \<longleftrightarrow> get_mempool_txn s a n = Some t" for n t
    using Some map_of_eq_Some_iff [OF bt_wf_distinct [OF wf]] by (simp add: get_mempool_txn_def)
  let ?ts = "map snd (filter (\<lambda>(n, _). n < q) txns)"
  let ?r = "s\<lparr> ts_transactions := (ts_transactions s)(a \<mapsto> filter (\<lambda>(n, _). q \<le> n) txns) \<rparr>"
  have wf': "bt_wf (filter P txns)" for P
    using wf sorted_wrt_filter [of "\<lambda>x y. fst x < fst y" txns P] by (simp add: bt_wf_def sorted_wrt_map)
  have mapof: "map_of (filter (\<lambda>(n, _). q \<le> n) txns) m = (if q \<le> m then map_of txns m else None)" for m
    by (induction txns) auto
  have get: "get_mempool_txn ?r b m = (if b = a \<and> m < q then None else get_mempool_txn s b m)" for b m
    using Some by (auto simp: get_mempool_txn_def mapof)
  have pt: "txn_pointer t = (a, n)" if "(n, t) \<in> set txns" for n t
    using that txn consistent_pointer(1) [OF con] by blast
  have "inj_on snd (set txns)" by (rule inj_onI) (metis pt prod.collapse Pair_inject)
  then have "inj_on snd (set (filter (\<lambda>(n, _). n < q) txns))" by (rule inj_on_subset) auto
  moreover have "distinct (filter (\<lambda>(n, _). n < q) txns)" using bt_wf_distinct [OF wf] by (simp add: distinct_map)
  ultimately have dist: "distinct ?ts" by (simp add: distinct_map)
  have tset: "t \<in> set ?ts \<longleftrightarrow> (\<exists>n < q. get_mempool_txn s a n = Some t)" for t
    using txn by (force simp: image_iff)
  then have "set ?ts \<subseteq> held s" using heldI by blast
  moreover have "indexed E (held s) Ds Dc ?r" using con by (simp add: consistent_def)
  ultimately obtain s' where s': "index_remove_all E ?ts ?r = Inr s'" "indexed E (held s - set ?ts) Ds Dc s'"
    "unindexes (set ?ts) ?r s'"
    using index_remove_all_ok dist by blast
  have get': "get_mempool_txn s' = get_mempool_txn ?r" using s'(3) by (simp add: unindexes_def)
  have "held s' = held s - set ?ts"
  proof (intro set_eqI iffI)
    fix u assume "u \<in> held s'"
    then obtain b m where u: "get_mempool_txn s b m = Some u" "\<not> (b = a \<and> m < q)"
      unfolding held_def get' get by (auto split: if_splits)
    have "u \<notin> set ?ts"
    proof
      assume "u \<in> set ?ts"
      then obtain n where "n < q" "get_mempool_txn s a n = Some u" unfolding tset by blast
      then show False using u consistent_pointer(1) [OF con, of a n u] consistent_pointer(1) [OF con u(1)] by simp
    qed
    then show "u \<in> held s - set ?ts" using heldI [OF u(1)] by blast
  next
    fix u assume u: "u \<in> held s - set ?ts"
    then have g: "get_mempool_txn s (get_sender u) (mt_sequence_number u) = Some u" using held_get [OF con] by blast
    then have "\<not> (get_sender u = a \<and> mt_sequence_number u < q)" using u tset by blast
    then show "u \<in> held s'" using g unfolding held_def get' get by auto
  qed
  moreover have "accounts_ok ?r"
    using con get wf' by (auto simp: consistent_def accounts_ok_def split: if_splits)
  ultimately have "consistent E Ds Dc s'" using s' by (simp add: consistent_def unindexes_def)
  moreover have "shrinks s s'"
  proof (rule unindexes_shrinks [OF s'(3)])
    show "priority_key u \<notin> priority_key ` set ?ts" if u: "get_mempool_txn ?r b m = Some u" for b m u
    proof
      assume "priority_key u \<in> priority_key ` set ?ts"
      then obtain v where v: "v \<in> set ?ts" "txn_pointer u = txn_pointer v" using key_pointer_inj(2) by blast
      then obtain n where "n < q" "txn_pointer v = (a, n)" using tset consistent_pointer(1) [OF con] by blast
      moreover have "txn_pointer u = (b, m)" "\<not> (b = a \<and> m < q)"
        using u consistent_pointer(1) [OF con] by (auto simp: get split: if_splits)
      ultimately show False using v(2) by simp
    qed
  qed (auto simp: get store_config_def)
  ultimately show ?thesis using s'(1) Some get' get by (auto simp: clean_committed_transactions_def)
qed

subsection \<open>Changing the state of a transaction\<close>

definition same_core :: "mempool_transaction \<Rightarrow> mempool_transaction \<Rightarrow> bool" where
  "same_core t t' \<longleftrightarrow> t' = t\<lparr> mt_timeline_state := mt_timeline_state t', mt_was_parked := mt_was_parked t' \<rparr>"

lemma same_core_simps:
  assumes "same_core t t'"
  shows "txn_pointer t' = txn_pointer t" "signed_pointer t' = signed_pointer t" "ttl_key system_expiration t' = ttl_key system_expiration t"
    "ttl_key client_expiration t' = ttl_key client_expiration t" "priority_key t' = priority_key t"
    "get_estimated_bytes E t' = get_estimated_bytes E t" "get_gas_price t' = get_gas_price t" "mt_txn t' = mt_txn t"
    "mt_ranking_score t' = mt_ranking_score t" "mt_insertion_info t' = mt_insertion_info t" "mt_sequence_info t' = mt_sequence_info t"
  by (subst assms [unfolded same_core_def], simp add: txn_pointer_def signed_pointer_def ttl_key_def system_expiration_def
      client_expiration_def priority_key_def get_estimated_bytes_def get_gas_price_def get_sender_def)+

lemma same_core_refl [simp]: "same_core t t"
  by (simp add: same_core_def)

lemma same_core_upd [simp]: "same_core t (t\<lparr> mt_timeline_state := x \<rparr>)" "same_core t (t\<lparr> mt_was_parked := b \<rparr>)"
  "same_core t (unready t)"
  by (simp_all add: same_core_def unready_def)

lemma same_core_trans: "same_core t u \<Longrightarrow> same_core u v \<Longrightarrow> same_core t v"
  by (auto simp: same_core_def) (metis mempool_transaction.surjective mempool_transaction.update_convs(4,7))

lemma indexed_map:
  assumes ix: "indexed E X Ds Dc s" and f: "\<And>t. t \<in> X \<Longrightarrow> same_core t (f t)"
    and mb: "timeline_inv (ts_timeline_index s') (f ` X)"
    and pr: "bt_wf (ts_priority_index s')" "bt_keys (ts_priority_index s') \<subseteq> priority_key ` X"
    and pl: "parking_wf (ts_parking_lot_index s')" "parked (ts_parking_lot_index s') \<subseteq> txn_pointer ` X"
    and rest: "ts_system_ttl_index s' = ts_system_ttl_index s" "ts_expiration_time_index s' = ts_expiration_time_index s"
      "ts_hash_index s' = ts_hash_index s" "ts_size_bytes s' = ts_size_bytes s" "ts_gas_upgraded_index s' = ts_gas_upgraded_index s"
  shows "indexed E (f ` X) Ds Dc s'"
proof (rule indexedI)
  note I = indexedD [OF ix] and F = same_core_simps [OF f]
  have inj: "inj_on f X" by (rule inj_onI) (metis F(1) I(2) inj_onD)
  show "inj_on txn_pointer (f ` X)" by (rule inj_onI) (use F(1) I(2) in \<open>auto dest: inj_onD\<close>)
  have keys: "g ` {t \<in> f ` X. txn_pointer t \<notin> D} = g ` {t \<in> X. txn_pointer t \<notin> D}"
    if "\<And>t. t \<in> X \<Longrightarrow> g (f t) = g t" for D and g :: "mempool_transaction \<Rightarrow> ttl_ordering_key"
  proof -
    have "{t \<in> f ` X. txn_pointer t \<notin> D} = f ` {t \<in> X. txn_pointer t \<notin> D}" using F(1) by auto
    then show ?thesis using that by (simp add: image_image cong: image_cong_simp)
  qed
  show "bt_keys (ts_system_ttl_index s') = ttl_key system_expiration ` {t \<in> f ` X. txn_pointer t \<notin> Ds}"
    using I(5) keys [of "ttl_key system_expiration"] F(3) by (simp add: rest)
  show "bt_keys (ts_expiration_time_index s') = ttl_key client_expiration ` {t \<in> f ` X. txn_pointer t \<notin> Dc}"
    using I(7) keys [of "ttl_key client_expiration"] F(4) by (simp add: rest)
  show "bt_keys (ts_priority_index s') \<subseteq> priority_key ` (f ` X)" using pr(2) F(5) by (auto simp: image_image)
  show "parked (ts_parking_lot_index s') \<subseteq> txn_pointer ` (f ` X)" using pl(2) F(1) by (auto simp: image_image)
  show "\<exists>t \<in> f ` X. txn_pointer t = p \<and> committed_hash E (mt_txn t) = h" if "ts_hash_index s' h = Some p" for h p
    using I(12) [of h p] that F(1,8) by (auto simp: rest)
  show "\<exists>t \<in> f ` X. txn_pointer t = p \<and> get_gas_price t = g" if "ts_gas_upgraded_index s' p = Some g" for p g
    using I(14) [of p g] that F(1,7) by (auto simp: rest)
  show "ts_size_bytes s' = (\<Sum>t \<in> f ` X. get_estimated_bytes E t)"
    using I(13) F(6) by (simp add: rest sum.reindex [OF inj])
qed (use indexedD [OF ix] same_core_simps(1,2) [OF f] rest pr(1) pl(1) mb in auto)

text \<open>What a change of the states of transactions keeps of a store.\<close>

definition touches :: "transaction_store \<Rightarrow> transaction_store \<Rightarrow> bool" where
  "touches s s' \<longleftrightarrow>
     (\<forall>a n. rel_option same_core (get_mempool_txn s a n) (get_mempool_txn s' a n)) \<and>
     ts_sequence_numbers s' = ts_sequence_numbers s \<and> store_config s' = store_config s \<and>
     ts_system_ttl_index s' = ts_system_ttl_index s"

lemma touches_refl [simp]: "touches s s"
  by (simp add: touches_def option.rel_refl)

lemma touches_trans:
  assumes 1: "touches s s'" and 2: "touches s' s''"
  shows "touches s s''"
proof -
  have "rel_option same_core (get_mempool_txn s a n) (get_mempool_txn s'' a n)" for a n
  proof -
    have "rel_option same_core (get_mempool_txn s a n) (get_mempool_txn s' a n)"
      "rel_option same_core (get_mempool_txn s' a n) (get_mempool_txn s'' a n)" using 1 2 by (simp_all add: touches_def)
    then show ?thesis
      by (cases "get_mempool_txn s a n"; cases "get_mempool_txn s' a n"; cases "get_mempool_txn s'' a n")
         (auto intro: same_core_trans)
  qed
  with 1 2 show ?thesis by (simp add: touches_def)
qed

lemma touches_get:
  assumes "touches s s'"
  shows "get_mempool_txn s' a n = None \<longleftrightarrow> get_mempool_txn s a n = None"
    and "get_mempool_txn s' a n = Some t' \<Longrightarrow> \<exists>t. get_mempool_txn s a n = Some t \<and> same_core t t'"
proof -
  have "rel_option same_core (get_mempool_txn s a n) (get_mempool_txn s' a n)" using assms by (simp add: touches_def)
  then show "get_mempool_txn s' a n = None \<longleftrightarrow> get_mempool_txn s a n = None"
    and "get_mempool_txn s' a n = Some t' \<Longrightarrow> \<exists>t. get_mempool_txn s a n = Some t \<and> same_core t t'"
    by (auto simp: option_rel_Some2 elim: option.rel_cases)
qed

lemma put_txn_fields [simp]:
  "ts_sequence_numbers (put_txn t s) = ts_sequence_numbers s" "ts_priority_index (put_txn t s) = ts_priority_index s"
  "store_config (put_txn t s) = store_config s" "ts_timeline_index (put_txn t s) = ts_timeline_index s"
  "ts_parking_lot_index (put_txn t s) = ts_parking_lot_index s" "ts_system_ttl_index (put_txn t s) = ts_system_ttl_index s"
  "ts_expiration_time_index (put_txn t s) = ts_expiration_time_index s" "ts_hash_index (put_txn t s) = ts_hash_index s"
  "ts_size_bytes (put_txn t s) = ts_size_bytes s" "ts_gas_upgraded_index (put_txn t s) = ts_gas_upgraded_index s"
  by (simp_all add: put_txn_def store_config_def Let_def)

lemma accounts_ok_put:
  assumes acc: "accounts_ok s" and t: "signed_pointer t = txn_pointer t"
  shows "accounts_ok (put_txn t s)"
  unfolding accounts_ok_def
proof (intro conjI allI impI)
  fix b txns assume "ts_transactions (put_txn t s) b = Some txns"
  moreover have "bt_wf txns" if "ts_transactions s b = Some txns" for b txns using acc that by (simp add: accounts_ok_def)
  moreover have "bt_wf [(n, u)]" for n :: u64 and u :: mempool_transaction by (simp add: bt_wf_def)
  ultimately show "bt_wf txns"
    by (auto simp: put_txn_def Let_def bt_wf_insert split: option.splits if_splits)
next
  fix b m u assume "get_mempool_txn (put_txn t s) b m = Some u"
  then show "txn_pointer u = (b, m)" "signed_pointer u = (b, m)"
    using acc t by (auto simp: get_put_txn accounts_ok_def split: if_splits)
qed

lemma held_put:
  assumes con: "consistent E Ds Dc s" and t: "get_mempool_txn s a n = Some t" and c: "same_core t t'"
    and r: "get_mempool_txn r = get_mempool_txn s"
  shows "held (put_txn t' r) = insert t' (held s - {t})"
proof (intro set_eqI iffI)
  have p: "txn_pointer t' = (a, n)" using same_core_simps(1) [OF c] consistent_pointer(1) [OF con t] by simp
  fix u
  show "u \<in> insert t' (held s - {t})" if "u \<in> held (put_txn t' r)"
  proof -
    from that obtain b m where "get_mempool_txn (put_txn t' r) b m = Some u" by (auto simp: held_def)
    then consider "u = t'" | "(b, m) \<noteq> (a, n)" "get_mempool_txn s b m = Some u"
      by (auto simp: get_put_txn p r split: if_splits)
    then show ?thesis
    proof cases
      case 2
      then have "txn_pointer u \<noteq> txn_pointer t" using consistent_pointer(1) [OF con] t by metis
      then show ?thesis using heldI [OF 2(2)] by blast
    qed simp
  qed
  show "u \<in> held (put_txn t' r)" if u: "u \<in> insert t' (held s - {t})"
  proof (cases "u = t'")
    case True
    then have "get_mempool_txn (put_txn t' r) a n = Some u" by (simp add: get_put_txn p)
    then show ?thesis by (rule heldI)
  next
    case False
    then have g: "get_mempool_txn s (get_sender u) (mt_sequence_number u) = Some u" using u held_get [OF con] by blast
    then have "(get_sender u, mt_sequence_number u) \<noteq> (a, n)" using u t False by auto
    with g have "get_mempool_txn (put_txn t' r) (get_sender u) (mt_sequence_number u) = Some u" by (auto simp: get_put_txn p r)
    then show ?thesis by (rule heldI)
  qed
qed

lemma replace_ok:
  assumes con: "consistent E Ds Dc s" and t: "get_mempool_txn s a n = Some t" and c: "same_core t t'"
    and mb: "timeline_inv mb (insert t' (held s - {t}))"
    and pr: "bt_wf pr" "bt_keys pr \<subseteq> priority_key ` held s"
    and pl: "parking_wf pl" "parked pl \<subseteq> txn_pointer ` held s"
  defines "s' \<equiv> put_txn t' (s\<lparr> ts_priority_index := pr, ts_timeline_index := mb, ts_parking_lot_index := pl \<rparr>)"
  shows "consistent E Ds Dc s'" "touches s s'"
    "get_mempool_txn s' b m = (if (b, m) = (a, n) then Some t' else get_mempool_txn s b m)"
proof -
  let ?r = "s\<lparr> ts_priority_index := pr, ts_timeline_index := mb, ts_parking_lot_index := pl \<rparr>"
  have get: "get_mempool_txn ?r = get_mempool_txn s" by (simp add: get_mempool_txn_def fun_eq_iff)
  have p: "txn_pointer t' = (a, n)" using same_core_simps(1) [OF c] consistent_pointer(1) [OF con t] by simp
  have sp: "signed_pointer t' = txn_pointer t'"
    using same_core_simps(1,2) [OF c] consistent_pointer(1,4) [OF con t] by simp
  show g: "get_mempool_txn s' b m = (if (b, m) = (a, n) then Some t' else get_mempool_txn s b m)" for b m
    unfolding s'_def get_put_txn p get ..
  let ?f = "\<lambda>u. if u = t then t' else u"
  have im: "?f ` held s = insert t' (held s - {t})" using heldI [OF t] by (auto simp: image_iff)
  have held: "held s' = ?f ` held s" unfolding s'_def held_put [OF con t c get] im ..
  have "accounts_ok ?r" using con get by (simp add: consistent_def accounts_ok_def)
  then have "accounts_ok s'" unfolding s'_def using sp by (rule accounts_ok_put)
  moreover have "indexed E (?f ` held s) Ds Dc s'"
    by (rule indexed_map [where s = s]) (use con c mb pr pl im in \<open>auto simp: consistent_def s'_def\<close>)
  ultimately show "consistent E Ds Dc s'" by (simp add: consistent_def held)
  show "touches s s'" unfolding touches_def
  proof (intro conjI allI)
    show "rel_option same_core (get_mempool_txn s b m) (get_mempool_txn s' b m)" for b m
      using t c by (cases "get_mempool_txn s b m") (auto simp: g)
  qed (simp_all add: s'_def, simp add: store_config_def)
qed

lemma make_ready_ok:
  assumes con: "consistent E Ds Dc s" and t: "get_mempool_txn s a n = Some t" and mr: "make_ready t s = Inr s'"
  shows "consistent E Ds Dc s'" "touches s s'"
    "bt_keys (ts_priority_index s') = insert (priority_key t) (bt_keys (ts_priority_index s))"
proof -
  have ix: "indexed E (held s) Ds Dc s" using con by (simp add: consistent_def)
  note I = indexedD [OF ix]
  obtain t' mb pl where step: "(if mt_timeline_state t = NotReady then multi_insert t (ts_timeline_index s)
        else Inr (t, ts_timeline_index s)) = Inr (t', mb)"
    and pl: "parking_remove t' (ts_parking_lot_index s) = Inr pl"
    and s': "s' = put_txn t' (s\<lparr> ts_priority_index := priority_insert t (ts_priority_index s), ts_timeline_index := mb,
                                 ts_parking_lot_index := pl \<rparr>)"
    using mr by (auto simp: make_ready_def result_simps split: prod.splits)
  have tm: "same_core t t' \<and> timeline_inv mb (insert t' (held s - {t}))"
  proof (cases "mt_timeline_state t = NotReady")
    case True
    with step multi_insert_ok [OF I(15) _ heldI [OF t], of t' mb] show ?thesis by auto
  next
    case False
    with step I(15) heldI [OF t] show ?thesis by (simp add: insert_absorb)
  qed
  from parking.del_Inr [OF I(10) pl] I(11) have "parking_wf pl" "parked pl \<subseteq> txn_pointer ` held s" by auto
  moreover have "bt_wf (priority_insert t (ts_priority_index s))" by (rule priority.inv_ins [OF I(8)])
  moreover have k: "bt_keys (priority_insert t (ts_priority_index s)) = insert (priority_key t) (bt_keys (ts_priority_index s))"
    by (rule priority.keys_ins [OF I(8)])
  moreover from this have "bt_keys (priority_insert t (ts_priority_index s)) \<subseteq> priority_key ` held s"
    using I(9) heldI [OF t] by auto
  ultimately show "consistent E Ds Dc s'" "touches s s'"
    unfolding s' using replace_ok [OF con t] tm by blast+
  show "bt_keys (ts_priority_index s') = insert (priority_key t) (bt_keys (ts_priority_index s))" using k by (simp add: s')
qed

lemma touches_Some:
  assumes "touches s s'" "get_mempool_txn s a n = Some t"
  shows "\<exists>t'. get_mempool_txn s' a n = Some t' \<and> same_core t t' \<and> priority_key t' = priority_key t"
proof -
  obtain t' where t': "get_mempool_txn s' a n = Some t'" using touches_get(1) [OF assms(1), of a n] assms(2) by auto
  with touches_get(2) [OF assms(1) this] assms(2) have "same_core t t'" by simp
  with t' same_core_simps(5) show ?thesis by blast
qed

lemma ready_loop_ok:
  assumes "ready_loop a q s = Inr (m, s')" and "consistent E Ds Dc s"
  shows "consistent E Ds Dc s' \<and> touches s s' \<and> bt_keys (ts_priority_index s) \<subseteq> bt_keys (ts_priority_index s') \<and>
    q \<le> m \<and> get_mempool_txn s' a m = None \<and>
    (\<forall>n. q \<le> n \<longrightarrow> n < m \<longrightarrow> (\<exists>t. get_mempool_txn s' a n = Some t \<and> priority_key t \<in> bt_keys (ts_priority_index s')))"
  using assms
proof (induction a q s rule: ready_loop.induct)
  case (1 a q s)
  show ?case
  proof (cases "get_mempool_txn s a q")
    case None
    then have "s' = s" "m = q" using "1.prems"(1) by (simp_all add: ready_loop.simps [of a q s])
    with None "1.prems"(2) show ?thesis by (auto simp: not_le [symmetric])
  next
    case (Some t)
    then obtain s1 q' where s1: "make_ready t s = Inr s1" and q': "expect (checked_add q 1) = (Inr q' :: u64 anyhow)"
      and rec: "ready_loop a q' s1 = Inr (m, s')"
      using "1.prems"(1) by (subst (asm) ready_loop.simps) (auto simp: and_then_Inr)
    have un: "unat q' = unat q + 1" using q' by (simp add: expect_Inr checked_add_Some)
    note mr = make_ready_ok [OF "1.prems"(2) Some s1]
    note IH = "1.IH" [OF Some s1 q' rec mr(1)]
    have touch: "touches s s'" using touches_trans mr(2) IH by blast
    have "\<exists>t. get_mempool_txn s' a n = Some t \<and> priority_key t \<in> bt_keys (ts_priority_index s')" if n: "q \<le> n" "n < m" for n
    proof (cases "n = q")
      case True
      from touches_Some [OF touch Some] obtain t' where "get_mempool_txn s' a q = Some t'" "priority_key t' = priority_key t" by blast
      moreover have "priority_key t \<in> bt_keys (ts_priority_index s')" using mr(3) IH by blast
      ultimately show ?thesis using True by simp
    next
      case False
      then have "q' \<le> n" using n un by (simp add: word_le_nat_alt word_unat_eq_iff)
      then show ?thesis using n IH by blast
    qed
    moreover have "q \<le> m" using IH un by (auto simp: word_le_nat_alt)
    ultimately show ?thesis using touch IH mr(3) by blast
  qed
qed

subsection \<open>Parking\<close>

lemma fold_parking: "fold (\<lambda>(_, t). parking_insert t) txns pl = fold parking_insert (map snd txns) pl"
  by (induction txns arbitrary: pl) auto

lemma park_txns_ok:
  assumes con: "consistent E Ds Dc s" and s'_def: "s' = park_txns P a s"
  shows "consistent E Ds Dc s'" "touches s s'" "ts_priority_index s' = ts_priority_index s"
proof -
  have "consistent E Ds Dc s' \<and> touches s s' \<and> ts_priority_index s' = ts_priority_index s"
  proof (cases "ts_transactions s a")
    case None
    then show ?thesis using con by (simp add: s'_def park_txns_def)
  next
    case (Some txns)
    let ?g = "\<lambda>(n, t). (n, if P (n, t) then t\<lparr> mt_was_parked := True \<rparr> else t)"
    define f where "f t = (if txn_pointer t = (a, mt_sequence_number t) \<and> P (mt_sequence_number t, t) then t\<lparr> mt_was_parked := True \<rparr> else t)" for t
    have core: "same_core t (f t)" for t by (simp add: f_def)
    have s': "s' = s\<lparr> ts_parking_lot_index := fold parking_insert (map snd (filter P txns)) (ts_parking_lot_index s),
        ts_transactions := (ts_transactions s)(a \<mapsto> map ?g txns) \<rparr>"
      using Some by (simp add: s'_def park_txns_def fold_parking)
    have mapof: "map_of (map ?g txns) n = map_option (\<lambda>t. if P (n, t) then t\<lparr> mt_was_parked := True \<rparr> else t) (map_of txns n)" for n
      by (induction txns) auto
    have get: "get_mempool_txn s' b m = map_option f (get_mempool_txn s b m)" for b m
    proof (cases "get_mempool_txn s b m")
      case (Some t)
      then have "txn_pointer t = (b, m)" "mt_sequence_number t = m" using consistent_pointer [OF con] by auto
      with Some \<open>ts_transactions s a = Some txns\<close> show ?thesis
        by (auto simp: get_mempool_txn_def s' mapof f_def)
    qed (use Some in \<open>auto simp: get_mempool_txn_def s' mapof\<close>)
    have held: "held s' = f ` held s" unfolding held_def get by (auto simp: image_iff)
    have ix: "indexed E (held s) Ds Dc s" using con by (simp add: consistent_def)
    note I = indexedD [OF ix]
    have wf: "bt_wf txns" using con Some by (simp add: consistent_def accounts_ok_def)
    have "map fst (map ?g txns) = map fst txns" by (induction txns) auto
    then have "bt_wf (map ?g txns)" using wf unfolding bt_wf_def by (simp only:)
    then have acc: "accounts_ok s'"
      using con same_core_simps(1,2) [OF core] unfolding accounts_ok_def consistent_def get by (auto simp: s' split: if_splits)
    have "t \<in> held s" if "(n, t) \<in> set txns" for n t
      using heldI [of s a n t] that Some map_of_eq_Some_iff [OF bt_wf_distinct [OF wf]] by (simp add: get_mempool_txn_def)
    then have "set (map snd (filter P txns)) \<subseteq> held s" by auto
    moreover have "signed_pointer ` held s = txn_pointer ` held s" using I(3) by (rule image_cong [OF refl])
    ultimately have "signed_pointer ` set (map snd (filter P txns)) \<subseteq> txn_pointer ` held s" by (metis image_mono)
    with parking.fold_ins [OF I(10), of "map snd (filter P txns)"] I(11)
    have pl: "parking_wf (ts_parking_lot_index s')" "parked (ts_parking_lot_index s') \<subseteq> txn_pointer ` held s"
      by (auto simp: s')
    have "mt_timeline_state (f t) = mt_timeline_state t" for t by (simp add: f_def)
    then have mb: "timeline_inv (ts_timeline_index s') (f ` held s)"
      using I(15) same_core_simps(1,9) [OF core] unfolding timeline_inv_def s' bucket_of_def by simp
    have "indexed E (f ` held s) Ds Dc s'"
      by (rule indexed_map [OF ix core mb _ _ pl]) (use I in \<open>simp_all add: s'\<close>)
    moreover have "touches s s'"
      unfolding touches_def get using core by (auto simp: s' store_config_def option.rel_map intro: option.rel_refl)
    moreover have "ts_priority_index s' = ts_priority_index s" by (simp add: s')
    ultimately show ?thesis using acc by (simp add: consistent_def held)
  qed
  then show "consistent E Ds Dc s'" "touches s s'" "ts_priority_index s' = ts_priority_index s" by blast+
qed

section \<open>The invariant of the store\<close>

definition occupied :: "transaction_store \<Rightarrow> txn_pointer set" where
  "occupied s = {(a, n). get_mempool_txn s a n \<noteq> None}"

text \<open>A transaction is sequential when it and all transactions from the sequence number of its account up to it are
  in the store.\<close>

definition sequential :: "transaction_store \<Rightarrow> account_address \<Rightarrow> u64 \<Rightarrow> bool" where
  "sequential s a n \<longleftrightarrow>
     (\<exists>q. ts_sequence_numbers s a = Some q \<and> q \<le> n \<and> (\<forall>m. q \<le> m \<longrightarrow> m \<le> n \<longrightarrow> get_mempool_txn s a m \<noteq> None))"

definition ready_at :: "transaction_store \<Rightarrow> account_address \<Rightarrow> bool" where
  "ready_at s a \<longleftrightarrow>
     (\<forall>n t. sequential s a n \<longrightarrow> get_mempool_txn s a n = Some t \<longrightarrow> priority_key t \<in> bt_keys (ts_priority_index s))"

definition sequence_numbers_ok :: "transaction_store \<Rightarrow> bool" where
  "sequence_numbers_ok s \<longleftrightarrow>
     (\<forall>a n t. get_mempool_txn s a n = Some t \<longrightarrow> (\<exists>q. ts_sequence_numbers s a = Some q \<and> q \<le> n))"

definition within_capacity :: "transaction_store \<Rightarrow> bool" where
  "within_capacity s \<longleftrightarrow>
     card (occupied s) \<le> ts_capacity s \<and> (\<forall>a. card {n. (a, n) \<in> occupied s} \<le> ts_capacity_per_user s)"

definition store_inv :: "txn_env \<Rightarrow> transaction_store \<Rightarrow> bool" where
  "store_inv E s \<longleftrightarrow> consistent E {} {} s \<and> sequence_numbers_ok s \<and> (\<forall>a. ready_at s a) \<and> within_capacity s"

lemma occupied_held:
  assumes "consistent E Ds Dc s"
  shows "occupied s = txn_pointer ` held s" "finite (occupied s)" "card (held s) = card (occupied s)"
proof -
  show o: "occupied s = txn_pointer ` held s"
  proof (intro set_eqI iffI)
    fix p assume "p \<in> occupied s"
    then obtain t where "get_mempool_txn s (fst p) (snd p) = Some t" by (auto simp: occupied_def)
    with consistent_pointer(1) [OF assms this] heldI show "p \<in> txn_pointer ` held s" by force
  next
    fix p assume "p \<in> txn_pointer ` held s"
    then show "p \<in> occupied s" using held_get [OF assms] by (auto simp: occupied_def txn_pointer_def)
  qed
  have ix: "indexed E (held s) Ds Dc s" using assms by (simp add: consistent_def)
  show "finite (occupied s)" "card (held s) = card (occupied s)"
    using indexedD(1,2) [OF ix] by (simp_all add: o card_image)
qed

lemma ttl_length:
  assumes "consistent E {} Dc s"
  shows "length (ts_system_ttl_index s) = card (occupied s)"
proof -
  have ix: "indexed E (held s) {} Dc s" using assms by (simp add: consistent_def)
  note I = indexedD [OF ix]
  have "inj_on (ttl_key system_expiration) (held s)"
    by (rule inj_onI) (use key_pointer_inj(1) I(2) in \<open>blast dest: inj_onD\<close>)
  then show ?thesis using length_bt [OF I(4)] I(5) occupied_held(3) [OF assms] by (simp add: card_image)
qed

lemma finite_account: "finite (occupied s) \<Longrightarrow> finite {n. (a, n) \<in> occupied s}"
  using finite_vimageI [of "occupied s" "Pair a"] by (simp add: inj_on_def vimage_def)

lemma shrinks_get: "shrinks s s' \<Longrightarrow> get_mempool_txn s' a n = Some t \<Longrightarrow>
    get_mempool_txn s a n = Some t \<and> ts_sequence_numbers s' a = ts_sequence_numbers s a"
  unfolding shrinks_def by (metis option.distinct(1))

lemma shrinks_ready:
  assumes sh: "shrinks s s'" and r: "ready_at s a"
  shows "ready_at s' a"
  unfolding ready_at_def
proof (intro allI impI)
  fix n t assume n: "sequential s' a n" and t: "get_mempool_txn s' a n = Some t"
  note g = shrinks_get [OF sh]
  have "get_mempool_txn s a m \<noteq> None" if "get_mempool_txn s' a m \<noteq> None" for m
    using g [of a m] that by auto
  then have "sequential s a n" using n g [OF t] by (auto simp: sequential_def)
  then have "priority_key t \<in> bt_keys (ts_priority_index s)" using r g [OF t] by (simp add: ready_at_def)
  then show "priority_key t \<in> bt_keys (ts_priority_index s')" using sh t unfolding shrinks_def by blast
qed

lemma shrinks_sequence_numbers: "shrinks s s' \<Longrightarrow> sequence_numbers_ok s \<Longrightarrow> sequence_numbers_ok s'"
  unfolding sequence_numbers_ok_def using shrinks_get by metis

lemma shrinks_occupied: "shrinks s s' \<Longrightarrow> occupied s' \<subseteq> occupied s"
  unfolding occupied_def using shrinks_get by fastforce

lemma store_config_fields:
  assumes "store_config s' = store_config s"
  shows "ts_capacity s' = ts_capacity s" "ts_capacity_per_user s' = ts_capacity_per_user s"
    "ts_capacity_bytes s' = ts_capacity_bytes s"
  using assms by (simp_all add: store_config_def)

lemma within_capacity_mono:
  assumes w: "within_capacity s" and f: "finite (occupied s)" and o: "occupied s' \<subseteq> occupied s"
    and c: "store_config s' = store_config s"
  shows "within_capacity s'"
  unfolding within_capacity_def store_config_fields [OF c]
proof (intro conjI allI)
  show "card (occupied s') \<le> ts_capacity s" using w card_mono [OF f o] by (simp add: within_capacity_def)
  fix a
  have "card {n. (a, n) \<in> occupied s'} \<le> card {n. (a, n) \<in> occupied s}"
    by (rule card_mono [OF finite_account [OF f]]) (use o in blast)
  then show "card {n. (a, n) \<in> occupied s'} \<le> ts_capacity_per_user s" using w unfolding within_capacity_def by (meson le_trans)
qed

lemma store_inv_shrinks:
  assumes inv: "store_inv E s" and con: "consistent E {} {} s'" and sh: "shrinks s s'"
  shows "store_inv E s'"
  unfolding store_inv_def
proof (intro conjI allI)
  show "within_capacity s'"
  proof (rule within_capacity_mono [of s])
    show "finite (occupied s)" using inv occupied_held(2) by (auto simp: store_inv_def)
    show "store_config s' = store_config s" using sh by (simp add: shrinks_def)
  qed (use inv shrinks_occupied [OF sh] in \<open>auto simp: store_inv_def\<close>)
qed (use inv con sh in \<open>auto simp: store_inv_def intro: shrinks_ready shrinks_sequence_numbers\<close>)

subsection \<open>Readiness\<close>

lemma touches_occupied: "touches s s' \<Longrightarrow> occupied s' = occupied s"
  by (simp add: occupied_def touches_get(1))

lemma touches_sequential: "touches s s' \<Longrightarrow> sequential s' a n = sequential s a n"
  by (simp add: sequential_def touches_get(1)) (simp add: touches_def)

lemma touches_ready:
  assumes "touches s s'" "ready_at s a" "bt_keys (ts_priority_index s) \<subseteq> bt_keys (ts_priority_index s')"
  shows "ready_at s' a"
  unfolding ready_at_def
proof (intro allI impI)
  fix n t' assume "sequential s' a n" "get_mempool_txn s' a n = Some t'"
  moreover from touches_get(2) [OF assms(1) this(2)] obtain t where "get_mempool_txn s a n = Some t" "same_core t t'" by blast
  ultimately show "priority_key t' \<in> bt_keys (ts_priority_index s')"
    using assms same_core_simps(5) [of t t'] by (auto simp: ready_at_def touches_sequential)
qed

lemma touches_sequence_numbers:
  assumes "touches s s'" "sequence_numbers_ok s"
  shows "sequence_numbers_ok s'"
  using assms touches_get(2) [OF assms(1)] unfolding sequence_numbers_ok_def by (fastforce simp: touches_def)

lemma process_ready_ok:
  assumes con: "consistent E Ds Dc s" and pr: "process_ready_transactions a q s = Inr s'"
  shows "consistent E Ds Dc s'" "touches s s'" "bt_keys (ts_priority_index s) \<subseteq> bt_keys (ts_priority_index s')"
    "ts_sequence_numbers s a = Some q \<Longrightarrow> ready_at s' a"
proof -
  have "consistent E Ds Dc s' \<and> touches s s' \<and> bt_keys (ts_priority_index s) \<subseteq> bt_keys (ts_priority_index s') \<and>
    (ts_sequence_numbers s a = Some q \<longrightarrow> ready_at s' a)"
  proof (cases "ts_transactions s a = None")
    case True
    then have "s' = s" using pr by (simp add: process_ready_transactions_def)
    with True con show ?thesis by (auto simp: ready_at_def get_mempool_txn_def)
  next
    case False
    then obtain m s1 where loop: "ready_loop a q s = Inr (m, s1)"
      and s': "s' = park_txns (\<lambda>(n, t). m < n \<and> \<not> is_ready (mt_timeline_state t)) a s1"
      using pr by (auto simp: process_ready_transactions_def result_simps)
    note l = ready_loop_ok [OF loop con]
    then have c1: "consistent E Ds Dc s1" by blast
    note p = park_txns_ok [OF c1 s']
    have touch: "touches s s'" using l p(2) touches_trans by blast
    have "ready_at s' a" if q: "ts_sequence_numbers s a = Some q"
      unfolding ready_at_def
    proof (intro allI impI)
      fix n t assume n: "sequential s' a n" and t: "get_mempool_txn s' a n = Some t"
      have n1: "sequential s1 a n" using n touches_sequential [OF p(2)] by simp
      have q1: "ts_sequence_numbers s1 a = Some q" using l q by (simp add: touches_def)
      have "n < m"
      proof (rule ccontr)
        assume "\<not> n < m"
        then have "get_mempool_txn s1 a m \<noteq> None" using n1 q1 l by (auto simp: sequential_def)
        then show False using l by simp
      qed
      moreover have "q \<le> n" using n1 q1 by (auto simp: sequential_def)
      ultimately obtain u where u: "get_mempool_txn s1 a n = Some u" "priority_key u \<in> bt_keys (ts_priority_index s1)"
        using l by blast
      from touches_get(2) [OF p(2) t] u(1) have "same_core u t" by auto
      then show "priority_key t \<in> bt_keys (ts_priority_index s')" using u(2) p(3) same_core_simps(5) by simp
    qed
    with p l touch show ?thesis by auto
  qed
  then show "consistent E Ds Dc s'" "touches s s'" "bt_keys (ts_priority_index s) \<subseteq> bt_keys (ts_priority_index s')"
    "ts_sequence_numbers s a = Some q \<Longrightarrow> ready_at s' a" by blast+
qed

lemma store_inv_process:
  assumes con: "consistent E {} {} s" and pr: "process_ready_transactions a q s = Inr s'"
    and seqs: "sequence_numbers_ok s" "ts_sequence_numbers s a = Some q"
    and others: "\<And>b. b \<noteq> a \<Longrightarrow> ready_at s b" and cap: "within_capacity s"
  shows "store_inv E s'"
  unfolding store_inv_def
proof (intro conjI allI)
  note p = process_ready_ok [OF con pr]
  show "consistent E {} {} s'" by (rule p(1))
  show "sequence_numbers_ok s'" by (rule touches_sequence_numbers [OF p(2) seqs(1)])
  show "ready_at s' b" for b
    using p(4) seqs(2) others [of b] touches_ready [OF p(2) _ p(3)] by (cases "b = a") auto
  show "within_capacity s'"
  proof (rule within_capacity_mono [OF cap occupied_held(2) [OF con]])
    show "occupied s' \<subseteq> occupied s" using touches_occupied [OF p(2)] by simp
    show "store_config s' = store_config s" using p(2) by (simp add: touches_def)
  qed
qed

subsection \<open>Insertion, commit and rejection\<close>

lemma evict_parked_ok:
  assumes inv: "store_inv E s"
  shows "\<exists>s'. evict_parked E pick s = Inr s' \<and> store_inv E s' \<and> shrinks s s'"
proof -
  have con: "consistent E {} {} s" using inv by (simp add: store_inv_def)
  show ?thesis
  proof (cases "get_poppable pick (ts_parking_lot_index s)")
    case (Some p)
    obtain a n where p: "p = (a, n)" by fastforce
    show ?thesis
    proof (cases "get_mempool_txn s a n")
      case (Some t)
      from discard_ok [OF con this] obtain s' where "index_remove E t (remove_txn a n s) = Inr s'" "consistent E {} {} s'" "shrinks s s'"
        by blast
      with store_inv_shrinks [OF inv] Some \<open>get_poppable pick (ts_parking_lot_index s) = Some p\<close> p show ?thesis
        by (auto simp: evict_parked_def)
    qed (use inv Some p in \<open>auto simp: evict_parked_def\<close>)
  qed (use inv in \<open>auto simp: evict_parked_def\<close>)
qed

lemma check_is_full_ok:
  assumes inv: "store_inv E s" and chk: "check_is_full_after_eviction E pick t q s = Inr (full, s')"
  shows "store_inv E s'" "shrinks s s'" "\<not> full \<Longrightarrow> \<not> is_full s'"
  using inv chk evict_parked_ok [OF inv, of pick]
  by (auto simp: check_is_full_after_eviction_def result_simps split: if_splits)

lemma indexed_insert:
  assumes ix: "indexed E X {} {} s" and new: "txn_pointer t \<notin> txn_pointer ` X"
    and t: "signed_pointer t = txn_pointer t" "\<not> is_ready (mt_timeline_state t)"
  shows "indexed E (insert t X) {} {} (insert_indexes E t g s)"
proof (rule indexedI)
  note I = indexedD [OF ix]
  have tX: "t \<notin> X" using new by blast
  show "inj_on txn_pointer (insert t X)" using I(2) new tX by (simp add: inj_on_insert)
  have k: "ttl_key f ` {u \<in> insert t X. txn_pointer u \<notin> {}} = insert (ttl_key f t) (ttl_key f ` {u \<in> X. txn_pointer u \<notin> {}})" for f
    by auto
  show "bt_keys (ts_system_ttl_index (insert_indexes E t g s)) = ttl_key system_expiration ` {u \<in> insert t X. txn_pointer u \<notin> {}}"
    unfolding k I(5) [symmetric] by (simp add: insert_indexes_def ttl_insert_def)
  show "bt_keys (ts_expiration_time_index (insert_indexes E t g s)) = ttl_key client_expiration ` {u \<in> insert t X. txn_pointer u \<notin> {}}"
    unfolding k I(7) [symmetric] by (simp add: insert_indexes_def ttl_insert_def)
  show "\<exists>u \<in> insert t X. txn_pointer u = p \<and> committed_hash E (mt_txn u) = h" if "ts_hash_index (insert_indexes E t g s) h = Some p" for h p
    using that I(12) [of h p] by (auto simp: insert_indexes_def txn_pointer_def split: if_splits)
  show "\<exists>u \<in> insert t X. txn_pointer u = p \<and> get_gas_price u = g'" if "ts_gas_upgraded_index (insert_indexes E t g s) p = Some g'" for p g'
    using that I(14) [of p g'] by (auto simp: insert_indexes_def split: if_splits)
  show "ts_size_bytes (insert_indexes E t g s) = (\<Sum>u \<in> insert t X. get_estimated_bytes E u)"
    using I(1,13) tX by (simp add: insert_indexes_def)
  show "timeline_inv (ts_timeline_index (insert_indexes E t g s)) (insert t X)"
    using timeline_inv_unready [of "ts_timeline_index s" X t t] I(15) t(2) tX by (simp add: insert_indexes_def)
qed (use indexedD [OF ix] t in \<open>auto simp: insert_indexes_def ttl_insert_def bt_wf_insert\<close>)

lemma get_insert_indexes:
  "get_mempool_txn (insert_indexes E t g s) b m = (if (b, m) = txn_pointer t then Some t else get_mempool_txn s b m)"
  unfolding insert_indexes_def get_put_txn by (simp add: get_mempool_txn_def)

lemma insert_indexes_ok:
  assumes con: "consistent E {} {} s" and new: "get_mempool_txn s (get_sender t) (mt_sequence_number t) = None"
    and t: "signed_pointer t = txn_pointer t" "\<not> is_ready (mt_timeline_state t)"
  shows "consistent E {} {} (insert_indexes E t g s)" "occupied (insert_indexes E t g s) = insert (txn_pointer t) (occupied s)"
proof -
  show "occupied (insert_indexes E t g s) = insert (txn_pointer t) (occupied s)"
    by (auto simp: occupied_def get_insert_indexes txn_pointer_def)
  have held: "held (insert_indexes E t g s) = insert t (held s)"
  proof (intro set_eqI iffI)
    fix u assume "u \<in> held (insert_indexes E t g s)"
    then show "u \<in> insert t (held s)" by (auto simp: held_def get_insert_indexes split: if_splits)
  next
    fix u assume "u \<in> insert t (held s)"
    moreover have "t \<in> held (insert_indexes E t g s)"
      by (rule heldI [of _ "get_sender t" "mt_sequence_number t"]) (simp add: get_insert_indexes txn_pointer_def)
    moreover have "u \<in> held (insert_indexes E t g s)" if u: "u \<in> held s"
    proof -
      from held_get [OF con u] new have "(get_sender u, mt_sequence_number u) \<noteq> txn_pointer t" by (auto simp: txn_pointer_def)
      with held_get [OF con u] show ?thesis
        by (intro heldI [of _ "get_sender u" "mt_sequence_number u"]) (simp add: get_insert_indexes)
    qed
    ultimately show "u \<in> held (insert_indexes E t g s)" by blast
  qed
  have "txn_pointer t \<notin> occupied s" using new by (simp add: occupied_def txn_pointer_def)
  then have "txn_pointer t \<notin> txn_pointer ` held s" by (simp add: occupied_held(1) [OF con])
  then have "indexed E (insert t (held s)) {} {} (insert_indexes E t g s)"
    using con t by (intro indexed_insert) (simp_all add: consistent_def)
  moreover have "accounts_ok (insert_indexes E t g s)"
    unfolding insert_indexes_def using con t
    by (intro accounts_ok_put) (simp_all add: consistent_def accounts_ok_def get_mempool_txn_def)
  ultimately show "consistent E {} {} (insert_indexes E t g s)" by (simp add: consistent_def held)
qed

text \<open>What the mempool requires of a transaction that it inserts.\<close>

definition insertable :: "mempool_transaction \<Rightarrow> bool" where
  "insertable t \<longleftrightarrow> signed_pointer t = txn_pointer t \<and> \<not> is_ready (mt_timeline_state t) \<and>
     account_sequence_number (mt_sequence_info t) \<le> mt_sequence_number t"

text \<open>The account of the sender before the insertion: without committed transactions, and present.\<close>

lemma open_account_ok:
  assumes con: "consistent E Ds Dc s"
  shows "consistent E Ds Dc (open_account a s)" "shrinks s (open_account a s)"
    "get_mempool_txn (open_account a s) = get_mempool_txn s"
    "\<exists>txns. ts_transactions (open_account a s) a = Some txns \<and> bt_wf txns \<and>
       length txns = card {n. (a, n) \<in> occupied (open_account a s)}"
proof -
  let ?s = "open_account a s"
  show get: "get_mempool_txn ?s = get_mempool_txn s"
    by (intro ext) (auto simp: get_mempool_txn_def open_account_def split: option.splits)
  have wf: "bt_wf txns" if "ts_transactions ?s b = Some txns" for b txns
    using con that by (auto simp: open_account_def consistent_def accounts_ok_def bt_wf_def split: if_splits)
  have "accounts_ok ?s" using con wf unfolding consistent_def accounts_ok_def get by blast
  moreover have "indexed E (held s) Ds Dc ?s" using con by (simp add: consistent_def open_account_def)
  moreover have "held ?s = held s" by (simp add: held_def get)
  ultimately show "consistent E Ds Dc ?s" by (simp add: consistent_def)
  show "shrinks s ?s" by (simp add: shrinks_def get) (simp add: open_account_def store_config_def)
  obtain txns where txns: "ts_transactions ?s a = Some txns"
    by (cases "ts_transactions s a") (auto simp: open_account_def)
  have "(\<exists>t. map_of txns n = Some t) \<longleftrightarrow> n \<in> bt_keys txns" for n
    using bt_keys_None [of txns n] by (auto simp del: bt_keys_None)
  with txns have "{n. (a, n) \<in> occupied ?s} = bt_keys txns" by (simp add: occupied_def get_mempool_txn_def)
  with txns wf [OF txns] length_bt
  show "\<exists>txns. ts_transactions ?s a = Some txns \<and> bt_wf txns \<and> length txns = card {n. (a, n) \<in> occupied ?s}" by auto
qed

lemma within_capacity_insert:
  assumes w: "within_capacity s" and f: "finite (occupied s)" and o: "occupied s' = insert (a, n) (occupied s)"
    and c: "store_config s' = store_config s" and room: "card (occupied s) < ts_capacity s" "card {m. (a, m) \<in> occupied s} < ts_capacity_per_user s"
  shows "within_capacity s'"
  unfolding within_capacity_def store_config_fields [OF c]
proof (intro conjI allI)
  show "card (occupied s') \<le> ts_capacity s" using card_insert_le_m1 [of "ts_capacity s" "occupied s" "(a, n)"] room(1) by (simp add: o)
  fix b
  show "card {m. (b, m) \<in> occupied s'} \<le> ts_capacity_per_user s"
  proof (cases "b = a")
    case True
    then have "{m. (b, m) \<in> occupied s'} = insert n {m. (a, m) \<in> occupied s}" by (auto simp: o)
    then show ?thesis using room(2) card_insert_le_m1 [of "ts_capacity_per_user s" "{m. (a, m) \<in> occupied s}" n] by simp
  next
    case False
    then have "{m. (b, m) \<in> occupied s'} = {m. (b, m) \<in> occupied s}" by (auto simp: o)
    then show ?thesis using w by (simp add: within_capacity_def)
  qed
qed

lemma insert_room_ok:
  assumes inv: "store_inv E s" and t: "insertable t"
    and new: "get_mempool_txn s (get_sender t) (mt_sequence_number t) = None"
    and clean: "\<And>m. m < account_sequence_number (mt_sequence_info t) \<Longrightarrow> get_mempool_txn s (get_sender t) m = None"
    and room: "card (occupied s) < ts_capacity s" "card {m. (get_sender t, m) \<in> occupied s} < ts_capacity_per_user s"
    and pr: "process_ready_transactions (get_sender t) (account_sequence_number (mt_sequence_info t)) (insert_indexes E t g s) = Inr s'"
  shows "store_inv E s' \<and> (\<exists>t'. get_mempool_txn s' (get_sender t) (mt_sequence_number t) = Some t' \<and> same_core t t')"
proof -
  let ?a = "get_sender t" and ?n = "mt_sequence_number t" and ?q = "account_sequence_number (mt_sequence_info t)"
  let ?s1 = "insert_indexes E t g s"
  have con: "consistent E {} {} s" using inv by (simp add: store_inv_def)
  have tt: "signed_pointer t = txn_pointer t" "\<not> is_ready (mt_timeline_state t)" "?q \<le> ?n"
    using t by (auto simp: insertable_def)
  note ok = insert_indexes_ok [OF con new tt(1,2), of g]
  have seqs: "ts_sequence_numbers ?s1 = (ts_sequence_numbers s)(?a \<mapsto> ?q)" and prio: "ts_priority_index ?s1 = ts_priority_index s"
    by (simp_all add: insert_indexes_def)
  have conf: "store_config ?s1 = store_config s"
    unfolding insert_indexes_def put_txn_fields by (simp add: store_config_def)
  have get: "get_mempool_txn ?s1 b m = (if (b, m) = (?a, ?n) then Some t else get_mempool_txn s b m)" for b m
    unfolding get_insert_indexes by (simp add: txn_pointer_def)
  have "\<exists>q. ts_sequence_numbers ?s1 b = Some q \<and> q \<le> m" if u: "get_mempool_txn ?s1 b m = Some u" for b m u
  proof (cases "b = ?a")
    case True
    then show ?thesis using u tt(3) clean [of m] by (cases "m < ?q") (auto simp: get seqs split: if_splits)
  next
    case False
    then have "get_mempool_txn s b m = Some u" using u by (simp add: get)
    then show ?thesis using False inv unfolding seqs store_inv_def sequence_numbers_ok_def by auto
  qed
  then have "sequence_numbers_ok ?s1" unfolding sequence_numbers_ok_def by blast
  moreover have "ready_at ?s1 b" if "b \<noteq> ?a" for b
    using inv that by (auto simp: store_inv_def ready_at_def sequential_def get seqs prio)
  moreover have "within_capacity ?s1"
  proof (rule within_capacity_insert [OF _ occupied_held(2) [OF con] _ conf room])
    show "within_capacity s" using inv by (simp add: store_inv_def)
    show "occupied ?s1 = insert (?a, ?n) (occupied s)" using ok(2) by (simp add: txn_pointer_def)
  qed
  ultimately have "store_inv E s'"
    by (intro store_inv_process [OF ok(1) pr]) (simp_all add: seqs)
  moreover from touches_Some [OF process_ready_ok(2) [OF ok(1) pr], of ?a ?n t]
  have "\<exists>t'. get_mempool_txn s' ?a ?n = Some t' \<and> same_core t t'" by (auto simp: get)
  ultimately show ?thesis by blast
qed

lemma insert_checked_ok:
  assumes inv: "store_inv E s" and ins: "insert_checked E pick t g s = Inr (status, s')" and t: "insertable t"
    and new: "get_mempool_txn s (get_sender t) (mt_sequence_number t) = None"
  shows "store_inv E s' \<and>
    (status = Accepted \<longrightarrow> (\<exists>t'. get_mempool_txn s' (get_sender t) (mt_sequence_number t) = Some t' \<and> same_core t t'))"
proof -
  let ?a = "get_sender t" and ?n = "mt_sequence_number t" and ?q = "account_sequence_number (mt_sequence_info t)"
  obtain full s1 where chk: "check_is_full_after_eviction E pick t ?q s = Inr (full, s1)"
    using ins by (auto simp: insert_checked_def Let_def and_then_Inr)
  note c = check_is_full_ok [OF inv chk]
  have con1: "consistent E {} {} s1" using c(1) by (simp add: store_inv_def)
  from clean_committed_ok [OF this, of ?a ?q] obtain s2 where s2: "clean_committed_transactions E ?a ?q s1 = Inr s2"
    "consistent E {} {} s2" "shrinks s1 s2"
    "\<forall>b m. get_mempool_txn s2 b m = (if b = ?a \<and> m < ?q then None else get_mempool_txn s1 b m)" by blast
  define s3 where "s3 = open_account ?a s2"
  note o = open_account_ok [OF s2(2), of ?a, folded s3_def]
  have sh: "shrinks s1 s3" using s2(3) o(2) shrinks_trans by blast
  have inv3: "store_inv E s3" by (rule store_inv_shrinks [OF c(1) o(1) sh])
  from o(4) obtain txns where txns: "ts_transactions s3 ?a = Some txns" "length txns = card {n. (?a, n) \<in> occupied s3}" by blast
  have unf: "insert_checked E pick t g s =
      (if full then Inr (MempoolIsFull, s1)
       else if ts_capacity_per_user s3 \<le> length txns then Inr (TooManyTransactions, s3)
       else and_then (process_ready_transactions ?a ?q (insert_indexes E t g s3)) (\<lambda>s4. Inr (Accepted, s4)))"
    using chk s2(1) txns(1) by (simp add: insert_checked_def Let_def s3_def)
  consider "full" | "\<not> full" "ts_capacity_per_user s3 \<le> length txns" | "\<not> full" "\<not> ts_capacity_per_user s3 \<le> length txns" by blast
  then show ?thesis
  proof cases
    case 3
    then have pr: "process_ready_transactions ?a ?q (insert_indexes E t g s3) = Inr s'"
      using ins unfolding unf by (simp add: and_then_Inr)
    have "get_mempool_txn s3 ?a ?n = None"
      using shrinks_get [OF c(2), of ?a ?n] shrinks_get [OF sh, of ?a ?n] new by (cases "get_mempool_txn s3 ?a ?n") auto
    moreover have "get_mempool_txn s3 ?a m = None" if "m < ?q" for m using that s2(4) o(3) by simp
    moreover have "card (occupied s3) < ts_capacity s3"
      using card_mono [OF occupied_held(2) [OF con1] shrinks_occupied [OF sh]] c(3) 3(1) ttl_length [OF con1] sh
      by (auto simp: is_full_def shrinks_def store_config_def)
    ultimately show ?thesis using insert_room_ok [OF inv3 t _ _ _ _ pr] 3(2) txns(2) by simp
  qed (use ins [unfolded unf] c(1) inv3 in auto)
qed

lemma store_insert_ok:
  assumes inv: "store_inv E s" and ins: "store_insert E pick t s = Inr (status, s')" and t: "insertable t"
  shows "store_inv E s'"
proof (cases "get_mempool_txn s (get_sender t) (mt_sequence_number t)")
  case None
  then show ?thesis using ins insert_checked_ok [OF inv _ t] by (simp add: store_insert_def Let_def)
next
  case (Some u)
  have con: "consistent E {} {} s" using inv by (simp add: store_inv_def)
  from discard_ok [OF con Some] obtain s1 where s1:
    "index_remove E u (remove_txn (get_sender t) (mt_sequence_number t) s) = Inr s1" "consistent E {} {} s1" "shrinks s s1"
    "get_mempool_txn s1 (get_sender t) (mt_sequence_number t) = None" by auto
  have inv1: "store_inv E s1" by (rule store_inv_shrinks [OF inv s1(2,3)])
  show ?thesis
    using ins Some s1(1) inv insert_checked_ok [OF inv1 _ t s1(4)]
    by (auto simp: store_insert_def Let_def split: update_check.splits)
qed

text \<open>The steps of a commit: the sequence number \<open>q\<close> the account gets, and the store \<open>s2\<close> without the committed
  transactions.\<close>

lemma store_commit_steps:
  assumes inv: "store_inv E s" and cm: "store_commit_transaction E a n s = Inr s'"
  obtains q s2 where "consistent E {} {} s2" "shrinks (s\<lparr> ts_sequence_numbers := (ts_sequence_numbers s)(a \<mapsto> q) \<rparr>) s2"
    "\<forall>b m. get_mempool_txn s2 b m = (if b = a \<and> m < q then None else get_mempool_txn s b m)"
    "process_ready_transactions a q s2 = Inr s'"
    "\<forall>m. (m \<le> n \<longrightarrow> m < q) \<and> (n < m \<longrightarrow> m < q \<longrightarrow> get_mempool_txn s a m = None)"
proof -
  define v where "v = (case ts_sequence_numbers s a of None \<Rightarrow> 0 | Some v \<Rightarrow> v)"
  obtain f where f: "unat f = unat n + 1"
    and st: "and_then (clean_committed_transactions E a (max v f) (s\<lparr> ts_sequence_numbers := (ts_sequence_numbers s)(a \<mapsto> max v f) \<rparr>))
        (process_ready_transactions a (max v f)) = Inr s'"
    using cm by (auto simp: store_commit_transaction_def get_sequence_number_def v_def and_then_Inr expect_Inr checked_add_Some Let_def)
  let ?s1 = "s\<lparr> ts_sequence_numbers := (ts_sequence_numbers s)(a \<mapsto> max v f) \<rparr>"
  have get1: "get_mempool_txn ?s1 = get_mempool_txn s" by (intro ext) (simp add: get_mempool_txn_def)
  have con: "consistent E {} {} ?s1"
    using inv by (simp add: store_inv_def consistent_def accounts_ok_def get1 held_def)
  from clean_committed_ok [OF con, of a "max v f"] obtain s2 where s2: "clean_committed_transactions E a (max v f) ?s1 = Inr s2"
    "consistent E {} {} s2" "shrinks ?s1 s2"
    "\<forall>b m. get_mempool_txn s2 b m = (if b = a \<and> m < max v f then None else get_mempool_txn s b m)"
    unfolding get1 by blast
  have lt: "m < f \<longleftrightarrow> m \<le> n" for m using f by (auto simp: word_le_nat_alt word_less_nat_alt)
  have "get_mempool_txn s a m = None" if "n < m" "m < max v f" for m
  proof (rule ccontr)
    assume "get_mempool_txn s a m \<noteq> None"
    then obtain w where "ts_sequence_numbers s a = Some w" "w \<le> m"
      using inv unfolding store_inv_def sequence_numbers_ok_def by blast
    then show False using that lt [of m] by (auto simp: v_def less_max_iff_disj)
  qed
  then show thesis using that [OF s2(2,3,4)] st s2(1) lt by (simp add: less_max_iff_disj)
qed

lemma store_commit_get:
  assumes inv: "store_inv E s" and cm: "store_commit_transaction E a n s = Inr s'"
  shows "rel_option same_core (if b = a \<and> m \<le> n then None else get_mempool_txn s b m) (get_mempool_txn s' b m)"
proof -
  obtain q s2 where s2: "consistent E {} {} s2" "shrinks (s\<lparr> ts_sequence_numbers := (ts_sequence_numbers s)(a \<mapsto> q) \<rparr>) s2"
    "\<forall>b m. get_mempool_txn s2 b m = (if b = a \<and> m < q then None else get_mempool_txn s b m)"
    and pr: "process_ready_transactions a q s2 = Inr s'"
    and q: "\<forall>m. (m \<le> n \<longrightarrow> m < q) \<and> (n < m \<longrightarrow> m < q \<longrightarrow> get_mempool_txn s a m = None)"
    by (rule store_commit_steps [OF inv cm])
  have get: "get_mempool_txn s2 b m = (if b = a \<and> m \<le> n then None else get_mempool_txn s b m)"
    using s2(3) q by (auto simp: not_le)
  have "rel_option same_core (get_mempool_txn s2 b m) (get_mempool_txn s' b m)"
    using process_ready_ok(2) [OF s2(1) pr] unfolding touches_def by blast
  then show ?thesis unfolding get .
qed

lemma store_commit_ok:
  assumes inv: "store_inv E s" and cm: "store_commit_transaction E a n s = Inr s'"
  shows "store_inv E s'"
proof -
  obtain q s2 where s2: "consistent E {} {} s2" "shrinks (s\<lparr> ts_sequence_numbers := (ts_sequence_numbers s)(a \<mapsto> q) \<rparr>) s2"
    "\<forall>b m. get_mempool_txn s2 b m = (if b = a \<and> m < q then None else get_mempool_txn s b m)"
    and pr: "process_ready_transactions a q s2 = Inr s'"
    and q: "\<forall>m. (m \<le> n \<longrightarrow> m < q) \<and> (n < m \<longrightarrow> m < q \<longrightarrow> get_mempool_txn s a m = None)"
    by (rule store_commit_steps [OF inv cm])
  let ?s1 = "s\<lparr> ts_sequence_numbers := (ts_sequence_numbers s)(a \<mapsto> q) \<rparr>"
  have get1: "get_mempool_txn ?s1 = get_mempool_txn s" by (intro ext) (simp add: get_mempool_txn_def)
  have con: "consistent E {} {} s" using inv by (simp add: store_inv_def)
  have seqs: "ts_sequence_numbers s2 b = ts_sequence_numbers ?s1 b" if "get_mempool_txn s2 b m \<noteq> None" for b m
    using that shrinks_get [OF s2(2), of b m] by auto
  have "sequence_numbers_ok s2"
    unfolding sequence_numbers_ok_def
  proof (intro allI impI)
    fix b m u assume u: "get_mempool_txn s2 b m = Some u"
    have "get_mempool_txn s b m = Some u" using u s2(3) by (auto split: if_splits)
    then obtain v where v: "ts_sequence_numbers s b = Some v" "v \<le> m"
      using inv unfolding store_inv_def sequence_numbers_ok_def by blast
    show "\<exists>v. ts_sequence_numbers s2 b = Some v \<and> v \<le> m"
      using seqs [of b m] u v s2(3) by (cases "b = a") (auto simp: not_less split: if_splits)
  qed
  moreover have ready: "ready_at s2 b" if "b \<noteq> a" for b
  proof -
    have "ready_at ?s1 b" using inv that by (auto simp: store_inv_def ready_at_def sequential_def get1)
    then show ?thesis using shrinks_ready [OF s2(2)] by blast
  qed
  moreover have "within_capacity s2"
  proof (rule within_capacity_mono [of s])
    show "within_capacity s" using inv by (simp add: store_inv_def)
    show "finite (occupied s)" by (rule occupied_held(2) [OF con])
    show "occupied s2 \<subseteq> occupied s" using shrinks_occupied [OF s2(2)] by (simp add: occupied_def get1)
    show "store_config s2 = store_config s" using s2(2) by (simp add: shrinks_def store_config_def)
  qed
  ultimately show "store_inv E s'"
  proof (cases "ts_sequence_numbers s2 a = Some q")
    case True
    show ?thesis
      by (rule store_inv_process [OF s2(1) pr \<open>sequence_numbers_ok s2\<close> True ready \<open>within_capacity s2\<close>])
  next
    case False
    have none: "get_mempool_txn s2 a m = None" for m by (rule ccontr) (use seqs [of a m] False in auto)
    then have "ready_at s2 a" by (simp add: ready_at_def)
    then have all: "ready_at s2 b" for b using ready by (cases "b = a") auto
    note p = process_ready_ok [OF s2(1) pr]
    show ?thesis unfolding store_inv_def
    proof (intro conjI allI)
      show "within_capacity s'"
        by (rule within_capacity_mono [OF \<open>within_capacity s2\<close> occupied_held(2) [OF s2(1)]])
           (use p(2) touches_occupied in \<open>auto simp: touches_def\<close>)
    qed (use p touches_sequence_numbers [OF p(2) \<open>sequence_numbers_ok s2\<close>] touches_ready [OF p(2) all p(3)] in auto)
  qed
qed

lemma store_reject_ok:
  assumes inv: "store_inv E s"
  shows "\<exists>s'. store_reject_transaction E a n h s = Inr s' \<and> store_inv E s' \<and> shrinks s s'"
proof -
  have con: "consistent E {} {} s" using inv by (simp add: store_inv_def)
  show ?thesis
  proof (cases "get_mempool_txn s a n")
    case (Some t)
    from discard_ok [OF con this] obtain s' where "index_remove E t (remove_txn a n s) = Inr s'" "consistent E {} {} s'" "shrinks s s'"
      by blast
    with store_inv_shrinks [OF inv] Some inv show ?thesis by (auto simp: store_reject_transaction_def)
  qed (use inv in \<open>auto simp: store_reject_transaction_def\<close>)
qed

subsection \<open>Garbage collection\<close>

lemma park_txn_ok:
  assumes con: "consistent E Ds Dc s" and t: "get_mempool_txn s a n = Some t"
  shows "\<exists>s'. park_txn t s = Inr s' \<and> consistent E Ds Dc s' \<and> touches s s' \<and>
    bt_keys (ts_priority_index s') = bt_keys (ts_priority_index s) - {priority_key t} \<and>
    (\<forall>b m. (b, m) \<noteq> (a, n) \<longrightarrow> get_mempool_txn s' b m = get_mempool_txn s b m)"
proof -
  have ix: "indexed E (held s) Ds Dc s" using con by (simp add: consistent_def)
  note I = indexedD [OF ix]
  from multi_remove_ok [OF I(15) heldI [OF t] I(2)] obtain mb where mb: "multi_remove t (ts_timeline_index s) = Inr mb"
    "timeline_inv mb (held s - {t})" by blast
  have "\<not> is_ready (mt_timeline_state (unready t))" by (cases "mt_timeline_state t") (simp_all add: unready_def)
  then have mb': "timeline_inv mb (insert (unready t) (held s - {t}))" using mb(2) by (rule timeline_inv_unready [rotated])
  let ?pr = "priority_remove t (ts_priority_index s)" and ?pl = "parking_insert t (ts_parking_lot_index s)"
  have pr: "bt_wf ?pr" "bt_keys ?pr \<subseteq> priority_key ` held s" "bt_keys ?pr = bt_keys (ts_priority_index s) - {priority_key t}"
    using I(8,9) by (auto simp: priority_remove_def bt_wf_remove)
  have pl: "parking_wf ?pl" "parked ?pl \<subseteq> txn_pointer ` held s"
    using parking.inv_ins [OF I(10)] parking.keys_ins [OF I(10), of t] I(3) [OF heldI [OF t]] I(11) heldI [OF t] by auto
  note r = replace_ok [OF con t same_core_upd(3) mb' pr(1,2) pl]
  have "park_txn t s = Inr (put_txn (unready t) (s\<lparr> ts_priority_index := ?pr, ts_timeline_index := mb, ts_parking_lot_index := ?pl \<rparr>))"
    unfolding park_txn_def mb(1) and_then.simps by (cases s) simp
  with r pr(3) show ?thesis by auto
qed

lemma park_following_ok:
  assumes "consistent E Ds Dc s" and "\<And>t. t \<in> set ts \<Longrightarrow> get_mempool_txn s (get_sender t) (mt_sequence_number t) = Some t"
    and "distinct ts"
  shows "\<exists>s'. park_following ts s = Inr s' \<and> consistent E Ds Dc s' \<and> touches s s' \<and>
    bt_keys (ts_priority_index s') = bt_keys (ts_priority_index s) - priority_key ` set ts"
  using assms
proof (induction ts arbitrary: s)
  case (Cons t ts)
  from park_txn_ok [OF Cons.prems(1) Cons.prems(2) [of t]] obtain s1 where s1: "park_txn t s = Inr s1" "consistent E Ds Dc s1"
    "touches s s1" "bt_keys (ts_priority_index s1) = bt_keys (ts_priority_index s) - {priority_key t}"
    "\<forall>b m. (b, m) \<noteq> (get_sender t, mt_sequence_number t) \<longrightarrow> get_mempool_txn s1 b m = get_mempool_txn s b m" by auto
  have "get_mempool_txn s1 (get_sender u) (mt_sequence_number u) = Some u" if u: "u \<in> set ts" for u
  proof -
    have "get_mempool_txn s (get_sender u) (mt_sequence_number u) = Some u" "get_mempool_txn s (get_sender t) (mt_sequence_number t) = Some t"
      "u \<noteq> t" using Cons.prems(2,3) u by auto
    then have "(get_sender u, mt_sequence_number u) \<noteq> (get_sender t, mt_sequence_number t)" by auto
    then show ?thesis using s1(5) \<open>get_mempool_txn s (get_sender u) (mt_sequence_number u) = Some u\<close> by auto
  qed
  from Cons.IH [OF s1(2) this] Cons.prems(3) obtain s2 where s2: "park_following ts s1 = Inr s2" "consistent E Ds Dc s2"
    "touches s1 s2" "bt_keys (ts_priority_index s2) = bt_keys (ts_priority_index s1) - priority_key ` set ts" by auto
  then show ?case using s1 touches_trans by auto
qed simp

lemma indexed_forget:
  assumes "p \<notin> txn_pointer ` X"
  shows "indexed E X (insert p Ds) Dc s = indexed E X Ds Dc s" "indexed E X Ds (insert p Dc) s = indexed E X Ds Dc s"
proof -
  have "{t \<in> X. txn_pointer t \<notin> insert p D} = {t \<in> X. txn_pointer t \<notin> D}" for D using assms by auto
  then show "indexed E X (insert p Ds) Dc s = indexed E X Ds Dc s" "indexed E X Ds (insert p Dc) s = indexed E X Ds Dc s"
    by (simp_all add: indexed_def)
qed

text \<open>The parts of the invariant that hold while expired transactions are removed.\<close>

definition gc_inv :: "txn_env \<Rightarrow> bool \<Rightarrow> txn_pointer set \<Rightarrow> transaction_store \<Rightarrow> bool" where
  "gc_inv E by_system D s \<longleftrightarrow>
     consistent E (if by_system then D else {}) (if by_system then {} else D) s \<and>
     sequence_numbers_ok s \<and> (\<forall>a. ready_at s a) \<and> within_capacity s"

lemma gc_inv_store: "gc_inv E b {} s = store_inv E s"
  by (simp add: gc_inv_def store_inv_def)

definition ttl_pointer :: "ttl_ordering_key \<Rightarrow> txn_pointer" where
  "ttl_pointer k = (tk_address k, tk_sequence_number k)"

lemma ready_at_gc:
  assumes seqs: "sequence_numbers_ok s" and r: "ready_at s b" and k: "get_mempool_txn s a k \<noteq> None"
    and touch: "touches s s1" and sh: "shrinks s1 s2" and gone: "get_mempool_txn s2 a k = None"
    and prio: "bt_keys (ts_priority_index s1) = bt_keys (ts_priority_index s) - priority_key ` F"
    and F: "\<And>t. t \<in> F \<Longrightarrow> get_sender t = a \<and> k < mt_sequence_number t"
    and con: "consistent E Ds Dc s"
  shows "ready_at s2 b"
  unfolding ready_at_def
proof (intro allI impI)
  fix n t assume n: "sequential s2 b n" and t: "get_mempool_txn s2 b n = Some t"
  have t1: "get_mempool_txn s1 b n = Some t" and q2: "ts_sequence_numbers s2 b = ts_sequence_numbers s1 b"
    using shrinks_get [OF sh t] by auto
  from touches_get(2) [OF touch t1] obtain u where u: "get_mempool_txn s b n = Some u" "same_core u t" by blast
  have q1: "ts_sequence_numbers s1 b = ts_sequence_numbers s b" using touch by (simp add: touches_def)
  have sub: "get_mempool_txn s b m \<noteq> None" if "get_mempool_txn s2 b m \<noteq> None" for m
    using that shrinks_get [OF sh, of b m] touches_get(1) [OF touch, of b m] by auto
  from n obtain q where q: "ts_sequence_numbers s2 b = Some q" "q \<le> n" "\<forall>m. q \<le> m \<longrightarrow> m \<le> n \<longrightarrow> get_mempool_txn s2 b m \<noteq> None"
    unfolding sequential_def by blast
  then have "sequential s b n" unfolding sequential_def using sub q1 q2 by metis
  then have key: "priority_key u \<in> bt_keys (ts_priority_index s)" using r u(1) by (simp add: ready_at_def)
  have "priority_key u \<notin> priority_key ` F"
  proof
    assume "priority_key u \<in> priority_key ` F"
    then obtain v where v: "v \<in> F" "txn_pointer u = txn_pointer v" using key_pointer_inj(2) by blast
    then have ba: "b = a" "k < n" using F [OF v(1)] consistent_pointer(1) [OF con u(1)] by (auto simp: txn_pointer_def)
    obtain q' where "ts_sequence_numbers s a = Some q'" "q' \<le> k"
      using seqs k unfolding sequence_numbers_ok_def by blast
    then show False using q q1 q2 ba gone by auto
  qed
  then have "priority_key t \<in> bt_keys (ts_priority_index s1)" using key prio same_core_simps(5) [OF u(2)] by simp
  then show "priority_key t \<in> bt_keys (ts_priority_index s2)" using sh t unfolding shrinks_def by blast
qed

text \<open>One turn of the loop.\<close>

lemma gc_step_ok:
  assumes inv: "gc_inv E sys (insert (a, k) D) s" and t: "get_mempool_txn s a k = Some t"
    and F: "\<And>u. u \<in> set F \<Longrightarrow> get_mempool_txn s a (mt_sequence_number u) = Some u \<and> k < mt_sequence_number u" "distinct F"
  shows "\<exists>s1 s2. park_following F s = Inr s1 \<and>
    (case get_mempool_txn s1 a k of None \<Rightarrow> Inr s1 | Some t \<Rightarrow> index_remove E t (remove_txn a k s1)) = Inr s2 \<and>
    gc_inv E sys D s2 \<and> occupied s2 = occupied s - {(a, k)}"
proof -
  let ?Ds = "if sys then insert (a, k) D else {}" and ?Dc = "if sys then {} else insert (a, k) D"
  have con: "consistent E ?Ds ?Dc s" using inv by (simp add: gc_inv_def)
  have Fa: "get_sender u = a" if "u \<in> set F" for u using consistent_pointer(2) [OF con] F(1) [OF that] by blast
  have "\<And>u. u \<in> set F \<Longrightarrow> get_mempool_txn s (get_sender u) (mt_sequence_number u) = Some u" using F(1) Fa by simp
  from park_following_ok [OF con this F(2)] obtain s1 where s1: "park_following F s = Inr s1" "consistent E ?Ds ?Dc s1" "touches s s1"
    "bt_keys (ts_priority_index s1) = bt_keys (ts_priority_index s) - priority_key ` set F" by blast
  from touches_Some [OF s1(3) t] obtain t' where t': "get_mempool_txn s1 a k = Some t'" by blast
  from discard_ok [OF s1(2) t'] obtain s2 where s2: "index_remove E t' (remove_txn a k s1) = Inr s2" "consistent E ?Ds ?Dc s2" "shrinks s1 s2"
    "\<forall>b m. get_mempool_txn s2 b m = (if (b, m) = (a, k) then None else get_mempool_txn s1 b m)" by blast
  have occ: "occupied s2 = occupied s - {(a, k)}"
  proof -
    have "occupied s2 = occupied s1 - {(a, k)}" unfolding occupied_def using s2(4) by auto
    then show ?thesis using touches_occupied [OF s1(3)] by simp
  qed
  then have "(a, k) \<notin> txn_pointer ` held s2" using occupied_held(1) [OF s2(2)] by auto
  then have con2: "consistent E (if sys then D else {}) (if sys then {} else D) s2"
    using s2(2) indexed_forget [of "(a, k)" "held s2"] by (cases sys) (simp_all add: consistent_def)
  have "ready_at s2 b" for b
    by (rule ready_at_gc [OF _ _ _ s1(3) s2(3) _ s1(4) _ con]) (use inv t s2(4) F(1) Fa in \<open>auto simp: gc_inv_def\<close>)
  moreover have "sequence_numbers_ok s2"
    using inv touches_sequence_numbers [OF s1(3)] shrinks_sequence_numbers [OF s2(3)] by (simp add: gc_inv_def)
  moreover have "within_capacity s2"
  proof (rule within_capacity_mono [OF _ occupied_held(2) [OF con]])
    show "store_config s2 = store_config s" using s1(3) s2(3) by (simp add: touches_def shrinks_def)
  qed (use inv occ in \<open>auto simp: gc_inv_def\<close>)
  ultimately have "gc_inv E sys D s2" using con2 by (simp add: gc_inv_def)
  with s1(1) s2(1) t' occ show ?thesis by auto
qed

lemma gc_loop_ok:
  assumes "gc_inv E sys (ttl_pointer ` set ks) s" and "ttl_pointer ` set ks \<subseteq> occupied s"
    and "sorted_wrt (<) (map ttl_pointer ks)"
  shows "\<exists>s'. gc_loop E ks s = Inr s' \<and> store_inv E s' \<and> occupied s' = occupied s - ttl_pointer ` set ks"
  using assms
proof (induction ks arbitrary: s)
  case (Cons key rest)
  let ?a = "tk_address key" and ?k = "tk_sequence_number key"
  have p: "ttl_pointer key = (?a, ?k)" by (simp add: ttl_pointer_def)
  obtain t where t: "get_mempool_txn s ?a ?k = Some t" using Cons.prems(2) by (auto simp: occupied_def p)
  obtain txns where txns: "ts_transactions s ?a = Some txns" using t by (auto simp: get_mempool_txn_def split: option.splits)
  have con: "consistent E (if sys then ttl_pointer ` set (key # rest) else {}) (if sys then {} else ttl_pointer ` set (key # rest)) s"
    using Cons.prems(1) unfolding gc_inv_def by blast
  have wf: "bt_wf txns" using con txns by (simp add: consistent_def accounts_ok_def)
  have "\<exists>P. park_range key rest txns = Inr (map snd (filter P txns)) \<and> (\<forall>n u. P (n, u) \<longrightarrow> ?k < n)"
  proof (cases rest)
    case (Cons next_key rest')
    then have "(?a, ?k) < ttl_pointer next_key" using Cons.prems(3) p by simp
    then have lt: "?k < tk_sequence_number next_key" if "tk_address next_key = ?a" using that by (simp add: ttl_pointer_def)
    show ?thesis
    proof (cases "tk_address next_key = ?a")
      case True
      then show ?thesis using lt Cons
        by (intro exI [of _ "\<lambda>(n, _). ?k < n \<and> n < tk_sequence_number next_key"]) (simp add: park_range_def)
    next
      case False
      then show ?thesis using Cons by (intro exI [of _ "\<lambda>(n, _). ?k < n"]) (simp add: park_range_def)
    qed
  next
    case Nil
    then show ?thesis by (intro exI [of _ "\<lambda>(n, _). ?k < n"]) (simp add: park_range_def)
  qed
  then obtain P where P: "park_range key rest txns = Inr (map snd (filter P txns))" "\<And>n u. P (n, u) \<Longrightarrow> ?k < n" by blast
  let ?F = "map snd (filter P txns)"
  have txn: "get_mempool_txn s ?a n = Some u" if "(n, u) \<in> set txns" for n u
    using that txns map_of_eq_Some_iff [OF bt_wf_distinct [OF wf]] by (simp add: get_mempool_txn_def)
  have F: "get_mempool_txn s ?a (mt_sequence_number u) = Some u \<and> ?k < mt_sequence_number u" if u: "u \<in> set ?F" for u
  proof -
    from u obtain n where n: "(n, u) \<in> set txns" "P (n, u)" by auto
    with consistent_pointer(3) [OF con txn [OF n(1)]] txn [OF n(1)] P(2) [OF n(2)] show ?thesis by simp
  qed
  have "inj_on snd (set txns)"
    by (rule inj_onI) (metis consistent_pointer(3) [OF con] txn prod.collapse)
  then have dist: "distinct ?F"
    using bt_wf_distinct [OF wf] by (auto simp: distinct_map intro: inj_on_subset)
  have inv: "gc_inv E sys (insert (?a, ?k) (ttl_pointer ` set rest)) s" using Cons.prems(1) by (simp add: p)
  from gc_step_ok [OF inv t F dist] obtain s1 s2 where s: "park_following ?F s = Inr s1"
    "(case get_mempool_txn s1 ?a ?k of None \<Rightarrow> Inr s1 | Some t \<Rightarrow> index_remove E t (remove_txn ?a ?k s1)) = Inr s2"
    "gc_inv E sys (ttl_pointer ` set rest) s2" "occupied s2 = occupied s - {(?a, ?k)}" by blast
  have "ttl_pointer ` set rest \<subseteq> occupied s2" using Cons.prems(2,3) s(4) p by auto
  with Cons.IH [OF s(3)] Cons.prems(3) obtain s' where s': "gc_loop E rest s2 = Inr s'" "store_inv E s'"
    "occupied s' = occupied s2 - ttl_pointer ` set rest" by auto
  have "gc_loop E (key # rest) s = Inr s'" using txns P(1) s(1,2) s'(1) by simp
  then show ?case using s' s(4) p by auto
qed (simp add: gc_inv_store)

definition expiration_of :: "bool \<Rightarrow> mempool_transaction \<Rightarrow> duration" where
  "expiration_of by_system_ttl = (if by_system_ttl then system_expiration else client_expiration)"

lemma ttl_gc_keys:
  "fst (ttl_gc now ix) = map fst (filter (\<lambda>e. tk_expiration_time (fst e) < now) ix)"
  "snd (ttl_gc now ix) = filter (\<lambda>e. \<not> tk_expiration_time (fst e) < now) ix"
proof -
  have "\<not> (a, n) < (0 :: account_address, 0 :: u64)" for a n by (auto simp: less_prod_def)
  then have "k < TTLOrderingKey now 0 0 \<longleftrightarrow> tk_expiration_time k < now" for k
    by (cases k) simp
  then show "fst (ttl_gc now ix) = map fst (filter (\<lambda>e. tk_expiration_time (fst e) < now) ix)"
    "snd (ttl_gc now ix) = filter (\<lambda>e. \<not> tk_expiration_time (fst e) < now) ix"
    by (simp_all add: ttl_gc_def Let_def case_prod_unfold)
qed

lemma bt_wf_filter: "bt_wf m \<Longrightarrow> bt_wf (filter P m)"
  using sorted_wrt_filter [of "\<lambda>x y. fst x < fst y" m P] by (simp add: bt_wf_def sorted_wrt_map)

lemma gc_order_sorted:
  assumes "inj_on ttl_pointer (set ks)" "distinct ks"
  shows "sorted_wrt (<) (map ttl_pointer (gc_order ks))" "set (gc_order ks) = set ks"
proof -
  show "set (gc_order ks) = set ks" by (simp add: gc_order_def)
  have "sorted (map ttl_pointer (gc_order ks))"
    by (simp add: gc_order_def ttl_pointer_def [abs_def])
  moreover have "distinct (map ttl_pointer (gc_order ks))"
    using assms by (simp add: distinct_map gc_order_def)
  ultimately show "sorted_wrt (<) (map ttl_pointer (gc_order ks))" by (simp add: strict_sorted_iff)
qed

text \<open>Once the expired keys are split off an expiration index, the store is consistent except for them.\<close>

lemma gc_start:
  assumes inv: "store_inv E s" and f: "f = expiration_of sys"
    and ix: "ix = (if sys then ts_system_ttl_index s else ts_expiration_time_index s)"
    and s1: "s1 = (if sys then s\<lparr> ts_system_ttl_index := snd (ttl_gc now ix) \<rparr> else s\<lparr> ts_expiration_time_index := snd (ttl_gc now ix) \<rparr>)"
  shows "gc_inv E sys (ttl_pointer ` set (fst (ttl_gc now ix))) s1" "occupied s1 = occupied s"
    "ttl_pointer ` set (fst (ttl_gc now ix)) = {txn_pointer t |t. t \<in> held s \<and> f t < now}"
    "inj_on ttl_pointer (set (fst (ttl_gc now ix)))" "distinct (fst (ttl_gc now ix))"
proof -
  have con: "consistent E {} {} s" and I0: "indexed E (held s) {} {} s" using inv by (simp_all add: store_inv_def consistent_def)
  note I = indexedD [OF I0]
  have wf: "bt_wf ix" and keys: "bt_keys ix = ttl_key f ` held s"
    using I(4-7) by (simp_all add: ix f expiration_of_def)
  have tk: "tk_expiration_time (ttl_key f t) = f t" "ttl_pointer (ttl_key f t) = txn_pointer t" for t
    by (simp_all add: ttl_key_def ttl_pointer_def txn_pointer_def)
  have exp: "set (fst (ttl_gc now ix)) = ttl_key f ` {t \<in> held s. f t < now}"
  proof -
    have "set (fst (ttl_gc now ix)) = {k \<in> bt_keys ix. tk_expiration_time k < now}"
      by (auto simp: ttl_gc_keys bt_keys_def)
    then show ?thesis using tk(1) by (auto simp: keys)
  qed
  have rest: "bt_keys (snd (ttl_gc now ix)) = ttl_key f ` {t \<in> held s. \<not> f t < now}"
  proof -
    have "bt_keys (snd (ttl_gc now ix)) = {k \<in> bt_keys ix. \<not> tk_expiration_time k < now}"
      by (auto simp: ttl_gc_keys bt_keys_def)
    then show ?thesis using tk(1) by (auto simp: keys)
  qed
  show D: "ttl_pointer ` set (fst (ttl_gc now ix)) = {txn_pointer t |t. t \<in> held s \<and> f t < now}"
    unfolding exp by (auto simp: tk(2) image_image)
  show "inj_on ttl_pointer (set (fst (ttl_gc now ix)))"
    unfolding exp by (rule inj_onI) (use tk(2) I(2) in \<open>auto dest: inj_onD\<close>)
  show "distinct (fst (ttl_gc now ix))"
    using bt_wf_distinct [OF bt_wf_filter [OF wf]] by (simp add: ttl_gc_keys)
  have get: "get_mempool_txn s1 = get_mempool_txn s" by (simp add: s1 get_mempool_txn_def fun_eq_iff)
  then show "occupied s1 = occupied s" by (simp add: occupied_def)
  have "{t \<in> held s. txn_pointer t \<notin> ttl_pointer ` set (fst (ttl_gc now ix))} = {t \<in> held s. \<not> f t < now}"
    unfolding D using I(2) by (auto dest: inj_onD)
  then have "indexed E (held s) (if sys then ttl_pointer ` set (fst (ttl_gc now ix)) else {})
      (if sys then {} else ttl_pointer ` set (fst (ttl_gc now ix))) s1"
    using I0 rest bt_wf_filter [OF wf] unfolding indexed_def s1 f expiration_of_def ttl_gc_keys(2) by (cases sys) simp_all
  moreover have "held s1 = held s" by (simp add: held_def get)
  moreover have "accounts_ok s1" using con unfolding consistent_def accounts_ok_def get by (simp add: s1)
  ultimately have "consistent E (if sys then ttl_pointer ` set (fst (ttl_gc now ix)) else {})
      (if sys then {} else ttl_pointer ` set (fst (ttl_gc now ix))) s1" by (simp add: consistent_def)
  moreover have "sequence_numbers_ok s1" "\<And>a. ready_at s1 a" "within_capacity s1"
    using inv by (simp_all add: store_inv_def sequence_numbers_ok_def ready_at_def sequential_def within_capacity_def occupied_def get)
      (simp_all add: s1)
  ultimately show "gc_inv E sys (ttl_pointer ` set (fst (ttl_gc now ix))) s1" unfolding gc_inv_def by blast
qed

lemma store_gc_ok:
  assumes inv: "store_inv E s"
  shows "\<exists>s'. store_gc E now sys s = Inr s' \<and> store_inv E s' \<and>
    occupied s' = occupied s - {txn_pointer t |t. t \<in> held s \<and> expiration_of sys t < now}"
proof -
  define ix where "ix = (if sys then ts_system_ttl_index s else ts_expiration_time_index s)"
  define s1 where "s1 = (if sys then s\<lparr> ts_system_ttl_index := snd (ttl_gc now ix) \<rparr>
    else s\<lparr> ts_expiration_time_index := snd (ttl_gc now ix) \<rparr>)"
  note g = gc_start [OF inv refl ix_def s1_def] and o = gc_order_sorted [OF gc_start(4,5) [OF inv refl ix_def s1_def]]
  have con: "consistent E {} {} s" using inv by (simp add: store_inv_def)
  have "{txn_pointer t |t. t \<in> held s \<and> expiration_of sys t < now} \<subseteq> occupied s"
    using occupied_held(1) [OF con] by auto
  then obtain s' where "gc_loop E (gc_order (fst (ttl_gc now ix))) s1 = Inr s'" "store_inv E s'"
    "occupied s' = occupied s1 - ttl_pointer ` set (gc_order (fst (ttl_gc now ix)))"
    using gc_loop_ok [of E sys "gc_order (fst (ttl_gc now ix))" s1] g(1-3) o by auto
  moreover have "store_gc E now sys s = gc_loop E (gc_order (fst (ttl_gc now ix))) s1"
    by (simp add: store_gc_def ix_def s1_def case_prod_unfold Let_def)
  ultimately show ?thesis using g(2,3) o(2) by auto
qed

end
