(* ===== verification/Mempool_Batch.thy ===== *)
theory Mempool_Batch
  imports Mempool_Store
begin

text \<open>
  The selection of a batch for consensus and the properties of the mempools that can be reached from a new one.

  \<^item> \<open>batch_inv\<close> is the invariant of the loop over the priority queue, with the pointers that were seen before it, those
    that have been visited and those that have to be looked at again.
  \<^item> \<open>mempool_reach\<close> are the mempools that the operations reach; the store invariant holds in each of them.
\<close>

section \<open>Batches\<close>

definition before_pointer :: "txn_pointer \<Rightarrow> txn_pointer" where
  "before_pointer p = (fst p, snd p - 1)"

text \<open>A transaction may follow the pointers \<open>Q\<close>: it is the next one of its account, or its predecessor is in \<open>Q\<close>.\<close>

definition may_follow :: "transaction_store \<Rightarrow> txn_pointer set \<Rightarrow> txn_pointer \<Rightarrow> bool" where
  "may_follow s Q p \<longleftrightarrow> get_sequence_number s (fst p) = Some (snd p) \<or> 0 < snd p \<and> before_pointer p \<in> Q"

text \<open>The loop over the queue after the pointers \<open>K\<close>; the pointers \<open>Z\<close> were not seen before it, and the pointers of
  \<open>W\<close> still have to be looked at again.\<close>

definition batch_inv :: "transaction_store \<Rightarrow> txn_pointer set \<Rightarrow> txn_pointer set \<Rightarrow> txn_pointer set \<Rightarrow> batch_state \<Rightarrow> bool" where
  "batch_inv s Z K W b \<longleftrightarrow>
     dom (bs_seen b) = Z \<union> set (bs_result b) \<and> distinct (bs_result b) \<and> set (bs_result b) \<inter> Z = {} \<and>
     set (bs_result b) \<union> set (bs_skipped b) \<subseteq> K \<and>
     (\<forall>i < length (bs_result b). may_follow s (Z \<union> set (take i (bs_result b))) (bs_result b ! i)) \<and>
     (\<forall>p \<in> set (bs_skipped b). p \<in> dom (bs_seen b) \<longrightarrow> 0 < snd p \<and> before_pointer p \<in> set (bs_result b)) \<and>
     (\<forall>p \<in> set (bs_skipped b) - W. p \<notin> dom (bs_seen b) \<longrightarrow> \<not> may_follow s (dom (bs_seen b)) p) \<and>
     K \<subseteq> dom (bs_seen b) \<union> set (bs_skipped b)"

lemma batch_invD:
  assumes "batch_inv s Z K W b"
  shows "dom (bs_seen b) = Z \<union> set (bs_result b)" "distinct (bs_result b)" "set (bs_result b) \<inter> Z = {}"
    "set (bs_result b) \<union> set (bs_skipped b) \<subseteq> K"
    "\<And>i. i < length (bs_result b) \<Longrightarrow> may_follow s (Z \<union> set (take i (bs_result b))) (bs_result b ! i)"
    "\<And>p. p \<in> set (bs_skipped b) \<Longrightarrow> p \<in> dom (bs_seen b) \<Longrightarrow> 0 < snd p \<and> before_pointer p \<in> set (bs_result b)"
    "\<And>p. p \<in> set (bs_skipped b) \<Longrightarrow> p \<notin> W \<Longrightarrow> p \<notin> dom (bs_seen b) \<Longrightarrow> \<not> may_follow s (dom (bs_seen b)) p"
    "K \<subseteq> dom (bs_seen b) \<union> set (bs_skipped b)"
  using assms unfolding batch_inv_def by blast+

lemma take_pointer_simps [simp]:
  "bs_seen (take_pointer p score b) = (bs_seen b)(p \<mapsto> score)" "bs_result (take_pointer p score b) = bs_result b @ [p]"
  "bs_skipped (take_pointer p score b) = bs_skipped b"
  by (simp_all add: take_pointer_def)

lemma batch_inv_take:
  assumes inv: "batch_inv s Z K W b" and p: "p \<notin> dom (bs_seen b)" and follow: "may_follow s (dom (bs_seen b)) p"
    and skipped: "p \<in> set (bs_skipped b) \<longrightarrow> 0 < snd p \<and> before_pointer p \<in> set (bs_result b)" and W: "W \<subseteq> {p}"
  shows "batch_inv s Z (insert p K) {q. 0 < snd q \<and> before_pointer q = p} (take_pointer p score b)"
  unfolding batch_inv_def
proof (intro conjI ballI allI impI)
  note I = batch_invD [OF inv]
  let ?b = "take_pointer p score b"
  have dom: "dom (bs_seen ?b) = insert p (dom (bs_seen b))" by simp
  show "dom (bs_seen ?b) = Z \<union> set (bs_result ?b)" using I(1) by auto
  show "distinct (bs_result ?b)" using I(1,2) p by auto
  show "set (bs_result ?b) \<inter> Z = {}" using I(1,3) p by auto
  show "set (bs_result ?b) \<union> set (bs_skipped ?b) \<subseteq> insert p K" using I(4) by auto
  show "may_follow s (Z \<union> set (take i (bs_result ?b))) (bs_result ?b ! i)" if i: "i < length (bs_result ?b)" for i
  proof (cases "i < length (bs_result b)")
    case True
    then show ?thesis using I(5) by (simp add: nth_append)
  next
    case False
    then have "i = length (bs_result b)" using i by simp
    then show ?thesis using follow I(1) by simp
  qed
  fix q assume q: "q \<in> set (bs_skipped ?b)"
  show "0 < snd q" if "q \<in> dom (bs_seen ?b)" using that q I(6) [of q] skipped by auto
  show "before_pointer q \<in> set (bs_result ?b)" if "q \<in> dom (bs_seen ?b)" using that q I(6) [of q] skipped by auto
next
  note I = batch_invD [OF inv]
  let ?b = "take_pointer p score b"
  fix q assume q: "q \<in> set (bs_skipped ?b) - {q. 0 < snd q \<and> before_pointer q = p}" "q \<notin> dom (bs_seen ?b)"
  then have "\<not> may_follow s (dom (bs_seen b)) q" using I(7) [of q] W by auto
  then show "\<not> may_follow s (dom (bs_seen ?b)) q" using q by (auto simp: may_follow_def)
next
  show "insert p K \<subseteq> dom (bs_seen (take_pointer p score b)) \<union> set (bs_skipped (take_pointer p score b))"
    using batch_invD(8) [OF inv] by auto
qed

lemma successor_pointer:
  assumes "unat n' = unat n + 1"
  shows "{q. 0 < snd q \<and> before_pointer q = (a, n)} = {(a, n' :: u64)}"
proof -
  have "0 < m \<and> m - 1 = n \<longleftrightarrow> m = n'" for m
  proof
    assume m: "0 < m \<and> m - 1 = n"
    then have "unat m \<noteq> 0" "unat n = unat m - 1" by (auto simp: unat_minus_one word_neq_0_conv unat_eq_zero)
    then have "unat m = unat n + 1" by simp
    then show "m = n'" using assms by (simp add: word_unat_eq_iff)
  next
    assume "m = n'"
    then have "unat m = unat n + 1" using assms by simp
    moreover from this have "m \<noteq> 0" by auto
    ultimately show "0 < m \<and> m - 1 = n"
      by (simp add: word_unat_eq_iff unat_minus_one word_gt_0)
  qed
  then have "0 < snd q \<and> before_pointer q = (a, n) \<longleftrightarrow> q = (a, n')" for q
    by (cases q) (simp add: before_pointer_def, blast)
  then show ?thesis by blast
qed

lemma batch_full_iff:
  assumes "length (bs_result b) \<le> unat max_txns"
  shows "batch_full max_txns b \<longleftrightarrow> length (bs_result b) = unat max_txns"
proof -
  have "length (bs_result b) < 2 ^ 64" using assms unat_bound [of max_txns] by simp
  then have "unat (of_nat (length (bs_result b)) :: u64) = length (bs_result b)"
    by (simp add: unsigned_of_nat take_bit_nat_eq_self)
  then show ?thesis by (auto simp: batch_full_def word_unat_eq_iff)
qed

lemma take_skipped_ok:
  assumes "take_skipped max_txns a n score b = Inr (full, b')"
    and "batch_inv s Z K {(a, n)} b" and "0 < n" and "before_pointer (a, n) \<in> set (bs_result b)"
    and "(a, n) \<in> set (bs_skipped b) \<Longrightarrow> (a, n) \<notin> dom (bs_seen b)"
    and "length (bs_result b) < unat max_txns"
  shows "if full then length (bs_result b') = unat max_txns \<and> (\<exists>W. batch_inv s Z K W b')
    else length (bs_result b') < unat max_txns \<and> batch_inv s Z K {} b'"
  using assms
proof (induction max_txns a n score b rule: take_skipped.induct)
  case (1 max_txns a n score b)
  note inv = "1.prems"(2) and I = batch_invD [OF "1.prems"(2)]
  show ?case
  proof (cases "(a, n) \<in> set (bs_skipped b)")
    case False
    then have "full = False" "b' = b" using "1.prems"(1) by (simp_all add: take_skipped.simps [of max_txns a n score b])
    moreover have "batch_inv s Z K {} b" using inv False unfolding batch_inv_def by blast
    ultimately show ?thesis using "1.prems"(6) by simp
  next
    case True
    let ?b = "take_pointer (a, n) score b"
    have len: "length (bs_result ?b) \<le> unat max_txns" using "1.prems"(6) by simp
    have notin: "(a, n) \<notin> dom (bs_seen b)" using "1.prems"(5) True by blast
    have "before_pointer (a, n) \<in> dom (bs_seen b)" using "1.prems"(4) I(1) by blast
    then have "may_follow s (dom (bs_seen b)) (a, n)" using "1.prems"(3) by (simp add: may_follow_def)
    from batch_inv_take [OF inv notin this] "1.prems"(3,4)
    have inv1: "batch_inv s Z (insert (a, n) K) {q. 0 < snd q \<and> before_pointer q = (a, n)} ?b" by simp
    have K: "insert (a, n) K = K" using I(4) True by blast
    show ?thesis
    proof (cases "batch_full max_txns ?b")
      case full: True
      then have "full = True" "b' = ?b" using "1.prems"(1) True by (simp_all add: take_skipped.simps [of max_txns a n score b])
      then show ?thesis using batch_full_iff [OF len] full inv1 K by auto
    next
      case nfull: False
      then obtain n' where n': "expect (checked_add n 1) = (Inr n' :: u64 anyhow)" and rec: "take_skipped max_txns a n' score ?b = Inr (full, b')"
        using "1.prems"(1) True by (subst (asm) take_skipped.simps) (auto simp: and_then_Inr Let_def)
      have un: "unat n' = unat n + 1" using n' by (simp add: expect_Inr checked_add_Some)
      note succ = successor_pointer [OF un, of a]
      have inv': "batch_inv s Z K {(a, n')} ?b" using inv1 K by (simp add: succ)
      have pos: "0 < n' \<and> before_pointer (a, n') = (a, n)"
        using succ [THEN equalityD2] by auto
      have fresh: "(a, n') \<notin> dom (bs_seen ?b)" if "(a, n') \<in> set (bs_skipped ?b)"
      proof
        assume "(a, n') \<in> dom (bs_seen ?b)"
        moreover have "n' \<noteq> n" using un by auto
        ultimately have "(a, n) \<in> set (bs_result b)" using I(6) [of "(a, n')"] that pos by auto
        then show False using notin I(1) by blast
      qed
      have lt: "length (bs_result ?b) < unat max_txns" using nfull batch_full_iff [OF len] len by linarith
      show ?thesis
        by (rule "1.IH" [OF _ refl nfull n' rec inv' _ _ fresh lt]) (use True pos in simp_all)
    qed
  qed
qed

definition batch_done :: "transaction_store \<Rightarrow> txn_pointer set \<Rightarrow> txn_pointer set \<Rightarrow> txn_pointer set \<Rightarrow> u64 \<Rightarrow> batch_state \<Rightarrow> bool" where
  "batch_done s Z R U max_txns b \<longleftrightarrow>
     length (bs_result b) \<le> unat max_txns \<and>
     (\<exists>L W. batch_inv s Z L W b \<and> L \<subseteq> U \<and> (length (bs_result b) < unat max_txns \<longrightarrow> W = {} \<and> R \<subseteq> L))"

lemma batch_done_mono: "batch_done s Z R U max_txns b \<Longrightarrow> R' \<subseteq> R \<Longrightarrow> U \<subseteq> U' \<Longrightarrow> batch_done s Z R' U' max_txns b"
  unfolding batch_done_def by blast

lemma batch_loop_ok:
  assumes "batch_loop s max_txns ks b = Inr b'" and "batch_inv s Z K {} b"
    and "distinct (map key_pointer ks)" and "K \<inter> key_pointer ` set ks = {}" and "length (bs_result b) < unat max_txns"
  shows "batch_done s Z (K \<union> (key_pointer ` set ks - Z)) (K \<union> key_pointer ` set ks) max_txns b'"
  using assms
proof (induction ks arbitrary: b K)
  case Nil
  then show ?case by (auto simp: batch_done_def)
next
  case (Cons k ks)
  let ?p = "key_pointer k"
  note inv = Cons.prems(2) and I = batch_invD [OF Cons.prems(2)]
  have pK: "?p \<notin> K" using Cons.prems(4) by auto
  have dist: "distinct (map key_pointer ks)" "?p \<notin> key_pointer ` set ks" using Cons.prems(3) by auto
  show ?case
  proof (cases "bs_seen b ?p \<noteq> None")
    case True
    then have "?p \<in> Z" using I(1,4) pK by blast
    moreover have "batch_loop s max_txns ks b = Inr b'" using Cons.prems(1) True by (simp add: Let_def)
    moreover have "K \<inter> key_pointer ` set ks = {}" using Cons.prems(4) by auto
    ultimately have "batch_done s Z (K \<union> (key_pointer ` set ks - Z)) (K \<union> key_pointer ` set ks) max_txns b'"
      using Cons.IH inv dist(1) Cons.prems(5) by blast
    then show ?thesis by (rule batch_done_mono) (use \<open>?p \<in> Z\<close> in auto)
  next
    case new: False
    then have notin: "?p \<notin> dom (bs_seen b)" by (simp add: domIff)
    have mf: "seen_previous b ?p \<or> get_sequence_number s (fst ?p) = Some (snd ?p) \<longleftrightarrow> may_follow s (dom (bs_seen b)) ?p"
      by (auto simp: seen_previous_def may_follow_def before_pointer_def)
    have sub: "insert ?p K \<inter> key_pointer ` set ks = {}" using Cons.prems(4) dist by auto
    show ?thesis
    proof (cases "may_follow s (dom (bs_seen b)) ?p")
      case skip: False
      let ?b = "b\<lparr> bs_skipped := ?p # bs_skipped b \<rparr>"
      have "batch_loop s max_txns ks ?b = Inr b'" using Cons.prems(1) new skip mf by (simp add: Let_def)
      moreover have "batch_inv s Z (insert ?p K) {} ?b"
        unfolding batch_inv_def using I skip notin by simp blast
      ultimately have "batch_done s Z (insert ?p K \<union> (key_pointer ` set ks - Z)) (insert ?p K \<union> key_pointer ` set ks) max_txns b'"
        by (rule Cons.IH) (use dist sub Cons.prems(5) in simp_all)
      then show ?thesis by (rule batch_done_mono) auto
    next
      case follow: True
      let ?b = "take_pointer ?p (qk_gas_ranking_score k) b"
      have nskip: "?p \<notin> set (bs_skipped b)" using I(4) pK by blast
      have inv1: "batch_inv s Z (insert ?p K) {q. 0 < snd q \<and> before_pointer q = ?p} ?b"
        using batch_inv_take [OF inv notin follow] nskip by simp
      have len: "length (bs_result ?b) \<le> unat max_txns" using Cons.prems(5) by simp
      show ?thesis
      proof (cases "batch_full max_txns ?b")
        case full: True
        then have "b' = ?b" using Cons.prems(1) new follow mf by (simp add: Let_def)
        moreover have "length (bs_result ?b) = unat max_txns" using full batch_full_iff [OF len] by simp
        ultimately show ?thesis using inv1 unfolding batch_done_def by auto
      next
        case nfull: False
        then obtain n' full b1 where n': "expect (checked_add (snd ?p) 1) = (Inr n' :: u64 anyhow)"
          and ts: "take_skipped max_txns (fst ?p) n' (qk_gas_ranking_score k) ?b = Inr (full, b1)"
          and rest: "(if full then Inr b1 else batch_loop s max_txns ks b1) = Inr b'"
          using Cons.prems(1) new follow mf by (auto simp: Let_def and_then_Inr)
        have un: "unat n' = unat (snd ?p) + 1" using n' by (simp add: expect_Inr checked_add_Some)
        have succ: "{q. 0 < snd q \<and> before_pointer q = ?p} = {(fst ?p, n')}" using successor_pointer [OF un, of "fst ?p"] by simp
        have pos: "0 < n'" "before_pointer (fst ?p, n') = ?p" using succ [THEN equalityD2] by auto
        have fresh: "(fst ?p, n') \<notin> dom (bs_seen ?b)" if "(fst ?p, n') \<in> set (bs_skipped ?b)"
        proof
          assume "(fst ?p, n') \<in> dom (bs_seen ?b)"
          moreover have "(fst ?p, n') \<noteq> ?p" using un by (cases ?p) auto
          ultimately have "?p \<in> set (bs_result b)" using I(6) [of "(fst ?p, n')"] that pos by auto
          then show False using notin I(1) by blast
        qed
        have lt: "length (bs_result ?b) < unat max_txns" using nfull batch_full_iff [OF len] len by linarith
        have ok: "if full then length (bs_result b1) = unat max_txns \<and> (\<exists>W. batch_inv s Z (insert ?p K) W b1)
            else length (bs_result b1) < unat max_txns \<and> batch_inv s Z (insert ?p K) {} b1"
          by (rule take_skipped_ok [OF ts]) (use inv1 succ pos fresh lt in auto)
        show ?thesis
        proof (cases full)
          case True
          then obtain W where "batch_inv s Z (insert ?p K) W b'" "length (bs_result b') = unat max_txns" using ok rest by auto
          then show ?thesis by (auto simp: batch_done_def)
        next
          case False
          have "batch_done s Z (insert ?p K \<union> (key_pointer ` set ks - Z)) (insert ?p K \<union> key_pointer ` set ks) max_txns b'"
            by (rule Cons.IH [of b1]) (use False ok rest dist sub in simp_all)
          then show ?thesis by (rule batch_done_mono) auto
        qed
      qed
    qed
  qed
qed

subsection \<open>The block\<close>

definition pointer_txn :: "transaction_store \<Rightarrow> txn_pointer \<Rightarrow> signed_transaction" where
  "pointer_txn s p = mt_txn (the (get_mempool_txn s (fst p) (snd p)))"

definition block_pointers :: "signed_transaction list \<Rightarrow> txn_pointer list" where
  "block_pointers = map (\<lambda>t. (st_sender t, st_sequence_number t))"

definition block_bytes :: "txn_env \<Rightarrow> signed_transaction list \<Rightarrow> nat" where
  "block_bytes E block = (\<Sum>t\<leftarrow>block. raw_txn_bytes_len E (st_raw_txn t))"

lemma block_pointers_simps [simp]:
  "block_pointers [] = []" "block_pointers (t # ts) = (st_sender t, st_sequence_number t) # block_pointers ts"
  "length (block_pointers ts) = length ts"
  by (simp_all add: block_pointers_def)

lemma block_bytes_simps [simp]:
  "block_bytes E [] = 0" "block_bytes E (t # ts) = raw_txn_bytes_len E (st_raw_txn t) + block_bytes E ts"
  by (simp_all add: block_bytes_def)

lemma pointer_txn_pointer:
  assumes "consistent E Ds Dc s" "p \<in> occupied s"
  shows "(st_sender (pointer_txn s p), st_sequence_number (pointer_txn s p)) = p"
proof -
  obtain t where "get_mempool_txn s (fst p) (snd p) = Some t" using assms(2) by (auto simp: occupied_def)
  moreover from this have "signed_pointer t = p" using assms(1) by (auto simp: consistent_def accounts_ok_def)
  ultimately show ?thesis by (simp add: pointer_txn_def signed_pointer_def st_sender_def)
qed

lemma fill_block_prefix:
  assumes con: "consistent E Ds Dc s" and "set ps \<subseteq> occupied s" "used \<le> max_bytes"
    and "fill_block E s max_bytes ps used = (block, full)"
  shows "\<exists>k. block_pointers block = take k ps \<and> (\<not> full \<longrightarrow> k = length ps) \<and>
    (full \<longrightarrow> max_bytes < used + block_bytes E (map (pointer_txn s) ps)) \<and>
    block = map (pointer_txn s) (block_pointers block) \<and> used + block_bytes E block \<le> max_bytes"
  using assms(2-)
proof (induction ps arbitrary: used block)
  case (Cons p ps)
  obtain a n where p: "p = (a, n)" by (cases p)
  have occ: "(a, n) \<in> occupied s" using Cons.prems(1) p by simp
  then obtain t where t: "get_mempool_txn s a n = Some t" by (auto simp: occupied_def)
  let ?t = "pointer_txn s (a, n)" and ?l = "raw_txn_bytes_len E (st_raw_txn (pointer_txn s (a, n)))"
  have "get_with_ranking_score s a n = Some (?t, mt_ranking_score t)" using t by (simp add: get_with_ranking_score_def pointer_txn_def)
  note unf = this p
  show ?case
  proof (cases "max_bytes < used + ?l")
    case True
    then show ?thesis using Cons.prems(2,3) by (auto simp: unf intro: exI [of _ 0])
  next
    case False
    obtain block' where b: "fill_block E s max_bytes ps (used + ?l) = (block', full)" "block = ?t # block'"
      using Cons.prems(3) False by (auto simp: unf Let_def split: prod.splits)
    have "set ps \<subseteq> occupied s" "used + ?l \<le> max_bytes" using Cons.prems(1) False by auto
    from Cons.IH [OF this b(1)] obtain k where
      "block_pointers block' = take k ps" "\<not> full \<longrightarrow> k = length ps"
      "full \<longrightarrow> max_bytes < used + ?l + block_bytes E (map (pointer_txn s) ps)"
      "block' = map (pointer_txn s) (block_pointers block')" "used + ?l + block_bytes E block' \<le> max_bytes" by blast
    then show ?thesis using b(2) pointer_txn_pointer [OF con occ] p
      by (intro exI [of _ "Suc k"]) (simp add: add.assoc)
  qed
qed auto

lemma queue_pointers:
  assumes inv: "store_inv E s"
  shows "distinct (map key_pointer (priority_iter (ts_priority_index s)))"
    "key_pointer ` set (priority_iter (ts_priority_index s)) \<subseteq> occupied s"
    "sequential s a n \<Longrightarrow> (a, n) \<in> key_pointer ` set (priority_iter (ts_priority_index s))"
proof -
  have con: "consistent E {} {} s" using inv by (simp add: store_inv_def)
  then have I: "indexed E (held s) {} {} s" by (simp add: consistent_def)
  note D = indexedD [OF I]
  have sp: "set (priority_iter (ts_priority_index s)) = bt_keys (ts_priority_index s)"
    by (simp add: priority_iter_def bt_keys_def)
  have kp: "key_pointer (priority_key t) = txn_pointer t" for t
    by (simp add: key_pointer_def priority_key_def txn_pointer_def)
  have sub: "bt_keys (ts_priority_index s) \<subseteq> priority_key ` held s" and inj: "inj_on txn_pointer (held s)"
    using I by (simp_all add: indexed_def)
  have "inj_on key_pointer (priority_key ` held s)" using inj by (auto simp: inj_on_def kp)
  moreover have "distinct (priority_iter (ts_priority_index s))"
    using I by (simp add: priority_iter_def indexed_def bt_wf_def strict_sorted_iff)
  ultimately show "distinct (map key_pointer (priority_iter (ts_priority_index s)))"
    using sub by (simp add: distinct_map sp) (blast intro: inj_on_subset)
  show "key_pointer ` set (priority_iter (ts_priority_index s)) \<subseteq> occupied s"
    using sub occupied_held(1) [OF con] by (auto simp: sp kp)
  show "(a, n) \<in> key_pointer ` set (priority_iter (ts_priority_index s))" if seq: "sequential s a n"
  proof -
    obtain t where t: "get_mempool_txn s a n = Some t" using seq by (fastforce simp: sequential_def)
    then have "priority_key t \<in> bt_keys (ts_priority_index s)" using inv seq by (auto simp: store_inv_def ready_at_def)
    moreover have "txn_pointer t = (a, n)" using con t by (auto simp: consistent_def accounts_ok_def)
    ultimately show ?thesis using sp kp [of t] by (metis imageI)
  qed
qed


lemma batch_done_result: "batch_done s Z R U max_txns b \<Longrightarrow> set (bs_result b) \<subseteq> U"
  using batch_invD(4) unfolding batch_done_def by blast

text \<open>What a call of \<open>get_batch\<close> does, by way of the loops.\<close>

lemma get_batch_Inr:
  assumes inv: "store_inv E (mp_transactions m)" and pos: "0 < max_txns"
    and gb: "get_batch E m max_txns max_bytes return_non_full up excluded = Inr block"
  defines "s \<equiv> mp_transactions m"
  obtains b k where "batch_done s (dom (seen_initially s up excluded))
      (key_pointer ` set (priority_iter (ts_priority_index s)) - dom (seen_initially s up excluded))
      (key_pointer ` set (priority_iter (ts_priority_index s))) max_txns b"
    "block_pointers block = take k (bs_result b)" "block = map (pointer_txn s) (block_pointers block)"
    "block_bytes E block \<le> unat max_bytes" "set (bs_result b) \<subseteq> occupied s"
    "return_non_full \<Longrightarrow> block_bytes E (map (pointer_txn s) (bs_result b)) \<le> unat max_bytes \<Longrightarrow> k = length (bs_result b)"
proof -
  let ?Z = "dom (seen_initially s up excluded)" and ?ks = "priority_iter (ts_priority_index s)"
  let ?b = "\<lparr> bs_seen = seen_initially s up excluded, bs_skipped = [], bs_result = [] \<rparr>"
  have inv': "store_inv E s" and con: "consistent E {} {} s" using inv by (simp_all add: s_def store_inv_def)
  from gb obtain b where loop: "batch_loop s max_txns ?ks ?b = Inr b"
    and blk: "(let (block, full_bytes) = fill_block E s (unat max_bytes) (bs_result b) 0
           in if \<not> return_non_full \<and> \<not> full_bytes \<and> of_nat (length block) < max_txns then Inr []
              else Inr block) = (Inr block :: signed_transaction list anyhow)"
    by (auto simp: get_batch_def s_def [symmetric] Let_def and_then_Inr simp del: batch_loop.simps)
  have "unat max_txns > 0" using pos by (simp add: word_less_nat_alt)
  then have fin: "batch_done s ?Z (key_pointer ` set ?ks - ?Z) (key_pointer ` set ?ks) max_txns b"
    using batch_loop_ok [OF loop, of ?Z "{}"] queue_pointers(1) [OF inv'] by (simp add: batch_inv_def)
  have occ: "set (bs_result b) \<subseteq> occupied s"
    using batch_done_result [OF fin] queue_pointers(2) [OF inv'] by blast
  obtain block' full where fb: "fill_block E s (unat max_bytes) (bs_result b) 0 = (block', full)" by fastforce
  from fill_block_prefix [OF con occ le0 fb, unfolded add_0] obtain k where k: "block_pointers block' = take k (bs_result b)"
    "\<not> full \<longrightarrow> k = length (bs_result b)" "full \<longrightarrow> unat max_bytes < block_bytes E (map (pointer_txn s) (bs_result b))"
    "block' = map (pointer_txn s) (block_pointers block')" "block_bytes E block' \<le> unat max_bytes" by blast
  have "block = block' \<or> \<not> return_non_full \<and> block = []" using blk fb by (auto split: if_splits)
  then show thesis
  proof
    assume "block = block'"
    then show thesis using that [OF fin, of k] k occ by auto
  next
    assume "\<not> return_non_full \<and> block = []"
    then show thesis using that [OF fin, of 0] occ by simp
  qed
qed

lemma checked_succ: "n \<noteq> -1 \<Longrightarrow> \<exists>n'. expect (checked_add n (1 :: u64)) = (Inr n' :: u64 anyhow)"
proof -
  assume "n \<noteq> -1"
  then have "unat n \<noteq> 2 ^ 64 - 1" by (simp add: word_unat_eq_iff unsigned_minus_1_eq_mask mask_eq_exp_minus_1)
  then have "unat n + 1 < 2 ^ 64" using unat_bound [of n] by simp
  then show ?thesis by (simp add: checked_add_def expect_def)
qed

lemma take_skipped_total:
  assumes "\<forall>p \<in> set (bs_skipped b). snd p \<noteq> -1"
  shows "\<exists>full b'. take_skipped max_txns a n score b = Inr (full, b') \<and> bs_skipped b' = bs_skipped b"
  using assms
proof (induction max_txns a n score b rule: take_skipped.induct)
  case (1 max_txns a n score b)
  show ?case
  proof (cases "(a, n) \<in> set (bs_skipped b) \<and> \<not> batch_full max_txns (take_pointer (a, n) score b)")
    case True
    then have "n \<noteq> -1" using "1.prems" by auto
    then obtain n' where n': "expect (checked_add n 1) = (Inr n' :: u64 anyhow)" using checked_succ by blast
    have "\<exists>full b'. take_skipped max_txns a n' score (take_pointer (a, n) score b) = Inr (full, b') \<and>
        bs_skipped b' = bs_skipped (take_pointer (a, n) score b)"
      by (rule "1.IH" [OF _ refl _ n']) (use True "1.prems" in auto)
    then show ?thesis using True n' by (subst take_skipped.simps) (auto simp: Let_def)
  next
    case False
    then show ?thesis by (subst take_skipped.simps) (auto simp: Let_def)
  qed
qed

lemma batch_loop_total:
  assumes "\<forall>k \<in> set ks. snd (key_pointer k) \<noteq> -1" "\<forall>p \<in> set (bs_skipped b). snd p \<noteq> -1"
  shows "\<exists>b'. batch_loop s max_txns ks b = Inr b'"
  using assms
proof (induction ks arbitrary: b)
  case (Cons k ks)
  obtain n' where n': "expect (checked_add (snd (key_pointer k)) 1) = (Inr n' :: u64 anyhow)" using Cons.prems(1) checked_succ by auto
  let ?b = "take_pointer (key_pointer k) (qk_gas_ranking_score k) b"
  obtain full b1 where b1: "take_skipped max_txns (fst (key_pointer k)) n' (qk_gas_ranking_score k) ?b = Inr (full, b1)"
    "bs_skipped b1 = bs_skipped b"
    using take_skipped_total [of ?b max_txns] Cons.prems(2) by fastforce
  show ?case using Cons.IH [of b] Cons.IH [of b1] Cons.IH [of "b\<lparr> bs_skipped := key_pointer k # bs_skipped b \<rparr>"] Cons.prems n' b1
    by (auto simp: Let_def)
qed simp

text \<open>A pointer that follows the pointers before it is sequential when nothing was seen beforehand.\<close>

lemma sequential_first:
  assumes "get_sequence_number s (fst p) = Some (snd p)" "p \<in> occupied s"
  shows "sequential s (fst p) (snd p)"
  using assms by (auto simp: sequential_def occupied_def get_sequence_number_def)

lemma before_unat: "0 < snd p \<Longrightarrow> unat (snd p) = Suc (unat (snd (before_pointer p)))"
  by (simp add: before_pointer_def unat_minus_one word_gt_0 unat_gt_0)

lemma fst_before [simp]: "fst (before_pointer p) = fst p"
  by (simp add: before_pointer_def)

lemma sequential_after:
  assumes "0 < snd p" "sequential s (fst p) (snd (before_pointer p))" "p \<in> occupied s"
  shows "sequential s (fst p) (snd p)"
proof -
  obtain q where q: "ts_sequence_numbers s (fst p) = Some q" "q \<le> snd (before_pointer p)"
    "\<And>m. q \<le> m \<Longrightarrow> m \<le> snd (before_pointer p) \<Longrightarrow> get_mempool_txn s (fst p) m \<noteq> None"
    using assms(2) unfolding sequential_def by blast
  have le: "m \<le> snd p \<longleftrightarrow> m \<le> snd (before_pointer p) \<or> m = snd p" for m
    using before_unat [OF assms(1)] by (auto simp: word_le_nat_alt word_unat_eq_iff)
  have "get_mempool_txn s (fst p) (snd p) \<noteq> None" using assms(3) by (auto simp: occupied_def)
  then show ?thesis unfolding sequential_def using q le by (intro exI [of _ q]) (auto dest: q(3))
qed

lemma sequential_before:
  assumes "sequential s (fst p) (snd p)" "get_sequence_number s (fst p) \<noteq> Some (snd p)"
  shows "0 < snd p \<and> sequential s (fst p) (snd (before_pointer p))"
proof -
  obtain q where q: "ts_sequence_numbers s (fst p) = Some q" "q \<le> snd p"
    "\<And>m. q \<le> m \<Longrightarrow> m \<le> snd p \<Longrightarrow> get_mempool_txn s (fst p) m \<noteq> None"
    using assms(1) unfolding sequential_def by blast
  then have lt: "q < snd p" using assms(2) by (simp add: get_sequence_number_def)
  then have pos: "0 < snd p" using word_gt_0 by fastforce
  have "m \<le> snd (before_pointer p) \<longleftrightarrow> m < snd p" for m
    using before_unat [OF pos] by (auto simp: word_le_nat_alt word_less_nat_alt)
  then show ?thesis using pos lt q unfolding sequential_def by (auto simp: less_imp_le intro!: exI [of _ q])
qed

lemma followers_sequential:
  assumes "\<forall>i < length ps. may_follow s (set (take i ps)) (ps ! i)" "set ps \<subseteq> occupied s" "i < length ps"
  shows "sequential s (fst (ps ! i)) (snd (ps ! i))"
  using assms(3)
proof (induction i rule: less_induct)
  case (less i)
  have occ: "ps ! i \<in> occupied s" using less.prems assms(2) by auto
  show ?case
  proof (cases "get_sequence_number s (fst (ps ! i)) = Some (snd (ps ! i))")
    case True
    then show ?thesis using occ by (rule sequential_first)
  next
    case False
    then have pos: "0 < snd (ps ! i)" and "before_pointer (ps ! i) \<in> set (take i ps)"
      using assms(1) less.prems by (auto simp: may_follow_def)
    then obtain j where j: "j < i" "ps ! j = before_pointer (ps ! i)" by (auto simp: in_set_conv_nth)
    then have "sequential s (fst (ps ! i)) (snd (before_pointer (ps ! i)))"
      using less.IH [OF j(1)] less.prems by simp
    then show ?thesis using pos occ sequential_after by blast
  qed
qed

text \<open>A loop that ends before the batch is full has taken every sequential transaction.\<close>

lemma batch_done_sequential:
  assumes bd: "batch_done s {} K K max_txns b" and lt: "length (bs_result b) < unat max_txns"
    and all: "\<And>a n. sequential s a n \<Longrightarrow> (a, n) \<in> K" and K: "K \<subseteq> occupied s"
  shows "set (bs_result b) = {(a, n). sequential s a n}"
proof -
  obtain L where inv: "batch_inv s {} L {} b" and L: "K \<subseteq> L" "L \<subseteq> K" using bd lt unfolding batch_done_def by blast
  note I = batch_invD [OF inv]
  have sub: "set (bs_result b) \<subseteq> occupied s" using I(4) L(2) K by blast
  have taken: "p \<in> set (bs_result b)" if "sequential s (fst p) (snd p)" for p
    using that
  proof (induction "unat (snd p)" arbitrary: p rule: less_induct)
    case less
    have "p \<in> L" using all [OF less.prems] L by auto
    moreover have "may_follow s (dom (bs_seen b)) p"
    proof (cases "get_sequence_number s (fst p) = Some (snd p)")
      case False
      note bf = sequential_before [OF less.prems False]
      have "before_pointer p \<in> set (bs_result b)"
        using less.hyps [of "before_pointer p"] bf before_unat [of p] by simp
      then show ?thesis using bf I(1) by (simp add: may_follow_def)
    qed (simp add: may_follow_def)
    ultimately show ?case using I(1,8) I(7) [of p] by blast
  qed
  have "sequential s (fst p) (snd p)" if "p \<in> set (bs_result b)" for p
    using followers_sequential [OF _ sub] I(5) that by (auto simp: in_set_conv_nth)
  then show ?thesis using taken [of "(_, _)"] by auto
qed

section \<open>Properties of the mempool\<close>

text \<open>The mempools that can be reached from a new one. Transactions enter with a state other than \<open>Ready\<close>, as all
  callers of \<open>add_txn\<close> have it.\<close>

inductive mempool_reach :: "txn_env \<Rightarrow> mempool_config \<Rightarrow> mempool \<Rightarrow> bool" for E config where
  reach_new: "mempool_new config = Inr m \<Longrightarrow> mempool_reach E config m"
| reach_add: "mempool_reach E config m \<Longrightarrow> \<not> is_ready state \<Longrightarrow>
    add_txn E pick now txn ranking_score db_sequence_number state client_submitted m = Inr (status, m') \<Longrightarrow> mempool_reach E config m'"
| reach_commit: "mempool_reach E config m \<Longrightarrow> commit_transaction E sender n m = Inr m' \<Longrightarrow> mempool_reach E config m'"
| reach_reject: "mempool_reach E config m \<Longrightarrow> reject_transaction E sender n h reason m = Inr m' \<Longrightarrow> mempool_reach E config m'"
| reach_gc: "mempool_reach E config m \<Longrightarrow> mempool_gc E now m = Inr m' \<Longrightarrow> mempool_reach E config m'"
| reach_gc_time: "mempool_reach E config m \<Longrightarrow> mempool_gc_by_expiration_time E now block_time m = Inr m' \<Longrightarrow> mempool_reach E config m'"

lemma on_store_Inr: "on_store f m = Inr m' \<longleftrightarrow> (\<exists>s. f (mp_transactions m) = Inr s \<and> m' = m\<lparr> mp_transactions := s \<rparr>)"
  by (auto simp: on_store_def and_then_Inr)

lemma multi_bucket_new_inv:
  assumes "unwrap (multi_bucket_new mins) = (Inr mb :: multi_bucket_timeline_index anyhow)"
  shows "timeline_inv mb {}"
  using assms by (auto simp: unwrap_def multi_bucket_new_def timeline_inv_def multi_wf_def timeline_entry_def timeline_new_def
      bt_wf_def result_simps split: sum.splits)

lemma store_new_inv: 
  assumes "store_new config = Inr s"
  shows "store_inv E s"
proof -
  obtain mb where mb: "unwrap (multi_bucket_new (mc_broadcast_buckets config)) = (Inr mb :: multi_bucket_timeline_index anyhow)"
    using assms by (auto simp: store_new_def and_then_Inr)
  have get: "get_mempool_txn s a n = None" for a n using assms mb by (auto simp: store_new_def get_mempool_txn_def)
  have held: "held s = {}" and occ: "occupied s = {}" by (simp_all add: held_def occupied_def get)
  have "parking_wf parking_new" "parked parking_new = {}" by (simp_all add: parking_wf_def parking_new_def parked_def parking_contains_def)
  then have "indexed E {} {} {} s"
    using assms mb multi_bucket_new_inv [OF mb] by (auto simp: store_new_def indexed_def bt_wf_def)
  moreover have "accounts_ok s" using assms mb by (auto simp: accounts_ok_def get store_new_def)
  ultimately show ?thesis
    by (simp add: store_inv_def consistent_def held sequence_numbers_ok_def ready_at_def get within_capacity_def occ)
qed

lemma insertable_new:
  assumes "db \<le> st_sequence_number txn" "\<not> is_ready state"
  shows "insertable (mempool_transaction_new txn expiration score state db now client)"
  using assms by (simp add: insertable_def mempool_transaction_new_def signed_pointer_def txn_pointer_def get_sender_def)

lemma add_txn_inv:
  assumes inv: "store_inv E (mp_transactions m)" and st: "\<not> is_ready state"
    and add: "add_txn E pick now txn score db state client m = Inr (status, m')"
  shows "store_inv E (mp_transactions m')"
proof (cases "st_sequence_number txn < db")
  case True
  then show ?thesis using inv add by (simp add: add_txn_def)
next
  case False
  then obtain expiration s where "store_insert E pick (mempool_transaction_new txn expiration score state db now client)
      (mp_transactions m) = Inr (status, s)" "mp_transactions m' = s"
    using add by (auto simp: add_txn_def and_then_Inr)
  with store_insert_ok [OF inv this(1) insertable_new] False st show ?thesis by simp
qed

lemma reach_store_inv:
  assumes "mempool_reach E config m"
  shows "store_inv E (mp_transactions m)"
  using assms
proof induction
  case (reach_new m)
  then show ?case using store_new_inv by (auto simp: mempool_new_def and_then_Inr)
next
  case reach_add
  then show ?case using add_txn_inv by blast
next
  case reach_commit
  then show ?case using store_commit_ok by (auto simp: commit_transaction_def on_store_Inr)
next
  case (reach_reject m sender n h reason m')
  then show ?case using store_reject_ok [OF reach_reject.IH, of sender n h]
    by (auto simp: reject_transaction_def on_store_Inr split: if_splits)
next
  case (reach_gc m now m')
  then show ?case using store_gc_ok [OF reach_gc.IH, of now True]
    by (auto simp: mempool_gc_def gc_by_system_ttl_def on_store_Inr)
next
  case (reach_gc_time m now block_time m')
  then show ?case using store_gc_ok [OF reach_gc_time.IH, of "eager_expire_time (mp_transactions m) now block_time" False]
    by (auto simp: mempool_gc_by_expiration_time_def gc_by_expiration_time_def on_store_Inr)
qed

definition pool_env :: txn_env where
  "pool_env = \<lparr> raw_txn_bytes_len = (\<lambda>r. 100 + length (rt_payload r)),
     committed_hash = (\<lambda>t. 1000 * rt_sender (st_raw_txn t) + ucast (rt_sequence_number (st_raw_txn t))),
     txn_overhead_bytes = 50 \<rparr>"

definition pool_config :: mempool_config where
  "pool_config = \<lparr> mc_capacity = 10, mc_capacity_bytes = 10000, mc_capacity_per_user = 5,
     mc_shared_mempool_max_batch_bytes = 1000, mc_system_transaction_timeout_secs = 600, mc_broadcast_buckets = [0, 150, 300],
     mc_eager_expire_threshold_ms = None, mc_eager_expire_time_ms = 6000 \<rparr>"

definition pool_txn :: "account_address \<Rightarrow> u64 \<Rightarrow> signed_transaction" where
  "pool_txn a n = \<lparr> st_raw_txn = \<lparr> rt_sender = a, rt_sequence_number = n, rt_payload = [1, 2], rt_max_gas_amount = 1000,
     rt_gas_unit_price = 100, rt_expiration_timestamp_secs = 700, rt_chain_id = 4 \<rparr>, st_authenticator = [] \<rparr>"

fun pool_adds :: "txn_pointer list \<Rightarrow> mempool \<Rightarrow> mempool anyhow" where
  "pool_adds [] m = Inr m"
| "pool_adds ((a, n) # ps) m = and_then (add_txn pool_env 0 1000 (pool_txn a n) (100 * (n + 1)) 0 NotReady True m) (\<lambda>(_, m'). pool_adds ps m')"

definition pool_run :: "mempool anyhow" where
  "pool_run = and_then (mempool_new pool_config) (pool_adds [(7, 0), (7, 2)])"

definition pool_entry :: "u64 \<Rightarrow> timeline_state \<Rightarrow> bool \<Rightarrow> mempool_transaction" where
  "pool_entry n state was_parked =
     \<lparr> mt_txn = pool_txn 7 n, mt_expiration_time = 600000001000, mt_ranking_score = 100 * (n + 1), mt_timeline_state = state,
       mt_sequence_info = \<lparr> transaction_sequence_number = n, account_sequence_number = 0 \<rparr>,
       mt_insertion_info = \<lparr> ii_insertion_time = 1000, ii_submitted_by = Client \<rparr>, mt_was_parked = was_parked \<rparr>"

definition pool_mempool :: mempool where
  "pool_mempool =
     \<lparr> mp_transactions =
         \<lparr> ts_transactions = [7 \<mapsto> [(0, pool_entry 0 (Ready 1) False), (2, pool_entry 2 NotReady True)]],
           ts_sequence_numbers = [7 \<mapsto> 0],
           ts_priority_index = [(OrderedQueueKey 100 600000001000 7 0, 0)],
           ts_expiration_time_index = [(TTLOrderingKey 700000000000 7 0, ()), (TTLOrderingKey 700000000000 7 2, ())],
           ts_system_ttl_index = [(TTLOrderingKey 600000001000 7 0, ()), (TTLOrderingKey 600000001000 7 2, ())],
           ts_timeline_index =
             \<lparr> mb_timelines = [\<lparr> tl_timeline_id = 2, tl_timeline = [(1, 7, 0)] \<rparr>, \<lparr> tl_timeline_id = 1, tl_timeline = [] \<rparr>,
                 \<lparr> tl_timeline_id = 1, tl_timeline = [] \<rparr>],
               mb_bucket_mins = [0, 150, 300] \<rparr>,
           ts_parking_lot_index = \<lparr> pl_data = [(7, [(2, ())])], pl_account_indices = [7 \<mapsto> 0], pl_size = 1 \<rparr>,
           ts_hash_index = [7000 \<mapsto> (7, 0), 7002 \<mapsto> (7, 2)], ts_size_bytes = 304, ts_gas_upgraded_index = Map.empty,
           ts_capacity = 10, ts_capacity_bytes = 10000, ts_capacity_per_user = 5, ts_max_batch_bytes = 1000,
           ts_eager_expire_threshold = None, ts_eager_expire_time = 6000000000 \<rparr>,
       mp_system_transaction_timeout = 600000000000 \<rparr>"

lemmas run_simps = mempool_new_def store_new_def multi_bucket_new_def add_txn_def duration_add_def DURATION_MAX_def duration_from_secs_def
  duration_from_millis_def store_insert_def get_mempool_txn_def insert_checked_def check_is_full_after_eviction_def is_full_def
  clean_committed_transactions_def open_account_def insert_indexes_def put_txn_def process_ready_transactions_def
  ready_loop.simps make_ready_def park_txns_def multi_insert_def get_timeline_def bucket_index_def binary_search_def
  timeline_insert_def timeline_new_def parking_new_def parking_insert_def parking_remove_def mempool_transaction_new_def
  insertion_info_new_def get_sender_def st_sender_def st_sequence_number_def txn_pointer_def get_gas_price_def get_estimated_bytes_def
  priority_key_def priority_insert_def ttl_key_def ttl_insert_def system_expiration_def client_expiration_def
  bt_insert.simps bt_entry_def ensure_def unwrap_def expect_def checked_add_def nat_sub_def Let_def
  bt_remove_def parking_drop_account_def swap_remove_def parking_contains_def

lemma and_then_weak_cong: "a = b \<Longrightarrow> and_then a f = and_then b f"
  by simp

lemmas pool_simps = pool_config_def pool_env_def pool_txn_def

lemma pool_reach:
  assumes "mempool_reach pool_env c m" "pool_adds ps m = Inr m'"
  shows "mempool_reach pool_env c m'"
  using assms
proof (induction ps arbitrary: m)
  case (Cons p ps)
  obtain a n where p: "p = (a, n)" by (cases p)
  obtain status m1 where "add_txn pool_env 0 1000 (pool_txn a n) (100 * (n + 1)) 0 NotReady True m = Inr (status, m1)"
    and rest: "pool_adds ps m1 = Inr m'" using Cons.prems(2) by (auto simp: p and_then_Inr)
  from reach_add [OF Cons.prems(1) _ this(1)] have "mempool_reach pool_env c m1" by simp
  then show ?case using rest by (rule Cons.IH)
qed simp

lemma pool_run: "pool_run = Inr pool_mempool"
  by (simp add: pool_run_def pool_mempool_def pool_entry_def pool_simps run_simps cong: and_then_weak_cong let_weak_cong del: and_then_Inr)

lemma pool_reached: "mempool_reach pool_env pool_config pool_mempool"
proof -
  obtain m where "mempool_new pool_config = Inr m" "pool_adds [(7, 0), (7, 2)] m = Inr pool_mempool"
    using pool_run unfolding pool_run_def and_then_Inr by blast
  then show ?thesis using pool_reach reach_new by blast
qed

lemma pool_get: "get_mempool_txn (mp_transactions pool_mempool) a n =
    (if a = 7 then map_of [(0, pool_entry 0 (Ready 1) False), (2, pool_entry 2 NotReady True)] n else None)"
  by (simp add: pool_mempool_def get_mempool_txn_def)

lemma priority_queue_pointers:
  assumes "store_inv E s"
  shows "\<forall>k \<in> set (priority_iter (ts_priority_index s)). get_mempool_txn s (fst (key_pointer k)) (snd (key_pointer k)) \<noteq> None"
  using queue_pointers(2) [OF assms] by (auto simp: occupied_def image_subset_iff case_prod_unfold)

lemma get_batch_total:
  assumes inv: "store_inv E (mp_transactions m)" and seqs: "\<And>a. get_mempool_txn (mp_transactions m) a (-1) = None"
  shows "\<exists>block. get_batch E m max_txns max_bytes return_non_full up excluded = Inr block"
proof -
  let ?s = "mp_transactions m"
  let ?b = "\<lparr> bs_seen = seen_initially ?s up excluded, bs_skipped = [], bs_result = [] \<rparr>"
  have "\<forall>k \<in> set (priority_iter (ts_priority_index ?s)). snd (key_pointer k) \<noteq> -1"
    using priority_queue_pointers [OF inv] seqs by metis
  then obtain b where "batch_loop ?s max_txns (priority_iter (ts_priority_index ?s)) ?b = Inr b"
    using batch_loop_total [of _ ?b] by fastforce
  then show ?thesis by (simp add: get_batch_def Let_def case_prod_unfold del: batch_loop.simps)
qed

lemma store_bytes:
  assumes inv: "store_inv E s" and "distinct ps" "set ps \<subseteq> occupied s"
  shows "block_bytes E (map (pointer_txn s) ps) \<le> ts_size_bytes s"
proof -
  have con: "consistent E {} {} s" using inv by (simp add: store_inv_def)
  then have I: "indexed E (held s) {} {} s" by (simp add: consistent_def)
  define f where "f p = the (get_mempool_txn s (fst p) (snd p))" for p
  have f: "f p \<in> held s \<and> txn_pointer (f p) = p" if "p \<in> occupied s" for p
    using that consistent_pointer(1) [OF con] heldI by (fastforce simp: f_def occupied_def)
  have "block_bytes E (map (pointer_txn s) ps) = (\<Sum>p\<in>set ps. raw_txn_bytes_len E (st_raw_txn (mt_txn (f p))))"
    using assms(2) by (simp add: block_bytes_def pointer_txn_def f_def sum_list_distinct_conv_sum_set o_def)
  also have "\<dots> \<le> (\<Sum>p\<in>set ps. get_estimated_bytes E (f p))"
    by (rule sum_mono) (simp add: get_estimated_bytes_def)
  also have "\<dots> = (\<Sum>t\<in>f ` set ps. get_estimated_bytes E t)"
    by (rule sum.reindex [symmetric, unfolded o_def], rule inj_on_inverseI [of _ txn_pointer]) (use f assms(3) in blast)
  also have "\<dots> \<le> (\<Sum>t\<in>held s. get_estimated_bytes E t)"
  proof (rule sum_mono2)
    show "finite (held s)" using I by (simp add: indexed_def)
    show "f ` set ps \<subseteq> held s" using f assms(3) by blast
  qed simp
  also have "\<dots> = ts_size_bytes s" using I by (simp add: indexed_def)
  finally show ?thesis .
qed

text \<open>C9. Every operation keeps the mempool consistent. In every mempool that is reached from a new one by adding,
  committing, rejecting and garbage collecting transactions, each transaction is stored under its sender and sequence
  number; the two expiration indexes, the sum of the sizes and the timelines are exactly those of the stored
  transactions, and the priority index, the parking lot, the hashes and the raised gas prices only refer to stored
  transactions; no transaction is below the sequence number of its account; every transaction that follows its account
  without a gap is in the priority index; and the number of transactions is within the capacity, in total and for each
  account.\<close>

theorem mempool_invariant:
  assumes "mempool_reach E config m"
  shows "store_inv E (mp_transactions m)"
  by (rule reach_store_inv [OF assms])

theorem mempool_invariant_witness:
  "mempool_reach pool_env pool_config pool_mempool \<and> store_inv pool_env (mp_transactions pool_mempool)"
  using pool_reached mempool_invariant [OF pool_reached] by blast

text \<open>C12. Garbage collection never panics and removes exactly the expired transactions. In a mempool that can be reached,
  collecting by the system's time to live returns, and the transactions that are left are those whose expiration is not
  before the given time; collecting by the expiration of the clients returns, with the time that eager expiration
  gives.\<close>

theorem gc_removes_exactly_expired:
  assumes "mempool_reach E config m"
  shows "(\<exists>m'. mempool_gc E now m = Inr m' \<and>
      occupied (mp_transactions m') = occupied (mp_transactions m) -
        {txn_pointer t |t. t \<in> held (mp_transactions m) \<and> system_expiration t < now}) \<and>
    (\<exists>m'. mempool_gc_by_expiration_time E now block_time m = Inr m' \<and>
      occupied (mp_transactions m') = occupied (mp_transactions m) -
        {txn_pointer t |t. t \<in> held (mp_transactions m) \<and>
           client_expiration t < eager_expire_time (mp_transactions m) now block_time})"
proof
  let ?s = "mp_transactions m"
  note gc = store_gc_ok [OF reach_store_inv [OF assms]]
  show "\<exists>m'. mempool_gc E now m = Inr m' \<and> occupied (mp_transactions m') =
      occupied ?s - {txn_pointer t |t. t \<in> held ?s \<and> system_expiration t < now}"
    using gc [of now True] unfolding mempool_gc_def gc_by_system_ttl_def on_store_Inr expiration_of_def by fastforce
  show "\<exists>m'. mempool_gc_by_expiration_time E now block_time m = Inr m' \<and> occupied (mp_transactions m') =
      occupied ?s - {txn_pointer t |t. t \<in> held ?s \<and> client_expiration t < eager_expire_time ?s now block_time}"
    using gc [of "eager_expire_time ?s now block_time" False]
    unfolding mempool_gc_by_expiration_time_def gc_by_expiration_time_def on_store_Inr expiration_of_def by fastforce
qed

theorem gc_removes_exactly_expired_witness:
  "\<exists>m'. mempool_gc pool_env 600000000000 pool_mempool = Inr m' \<and>
     occupied (mp_transactions m') = occupied (mp_transactions pool_mempool) -
       {txn_pointer t |t. t \<in> held (mp_transactions pool_mempool) \<and> system_expiration t < 600000000000}"
  using gc_removes_exactly_expired [OF pool_reached] by blast

text \<open>The \<open>i\<close>-th transaction of a block is stored, was not seen before and comes after its predecessor.\<close>

definition block_txn_ok ::
  "transaction_store \<Rightarrow> (txn_pointer \<Rightarrow> u64 option) \<Rightarrow> signed_transaction list \<Rightarrow> nat \<Rightarrow> bool" where
  "block_txn_ok s seen block i \<longleftrightarrow>
     (let t = block ! i; a = st_sender t; n = st_sequence_number t in
       store_get s a n = Some t \<and> seen (a, n) = None \<and>
       (get_sequence_number s a = Some n \<or>
        0 < n \<and> (seen (a, n - 1) \<noteq> None \<or> (a, n - 1) \<in> set (block_pointers (take i block)))))"




text \<open>C10. A batch leaves out nothing that can be executed. In a reachable mempool without a transaction of the last sequence
  number, a batch that excludes nothing, may be short, and has room for more transactions than the mempool's capacity and
  for the bytes of the mempool is always returned, and it has exactly the transactions that follow their account without
  a gap: whatever the gas prices, a transaction that the queue visits before its predecessor is not lost.\<close>

theorem get_batch_complete:
  assumes "mempool_reach E config m" "\<forall>a. get_mempool_txn (mp_transactions m) a (-1) = None"
    and "ts_capacity (mp_transactions m) < unat max_txns" "ts_size_bytes (mp_transactions m) \<le> unat max_bytes"
  shows "\<exists>block. get_batch E m max_txns max_bytes True False [] = Inr block \<and>
    set (block_pointers block) = {(a, n). sequential (mp_transactions m) a n}"
proof -
  let ?s = "mp_transactions m"
  let ?ks = "key_pointer ` set (priority_iter (ts_priority_index ?s))"
  note inv = reach_store_inv [OF assms(1)]
  have con: "consistent E {} {} ?s" and cap: "card (occupied ?s) \<le> ts_capacity ?s"
    using inv by (simp_all add: store_inv_def within_capacity_def)
  have pos: "0 < max_txns" using assms(3) by (simp add: word_less_nat_alt)
  obtain block where gb: "get_batch E m max_txns max_bytes True False [] = Inr block"
    using get_batch_total [OF inv] assms(2) by blast
  have dom: "dom (seen_initially ?s False []) = {}" by (simp add: seen_initially_def seen_excluded_def)
  from get_batch_Inr [OF inv pos gb, unfolded dom Diff_empty] obtain b k where
    bd: "batch_done ?s {} ?ks ?ks max_txns b" and ps: "block_pointers block = take k (bs_result b)"
    and occ: "set (bs_result b) \<subseteq> occupied ?s"
    and k: "block_bytes E (map (pointer_txn ?s) (bs_result b)) \<le> unat max_bytes \<Longrightarrow> k = length (bs_result b)" by blast
  obtain L W where "batch_inv ?s {} L W b" using bd unfolding batch_done_def by blast
  then have dist: "distinct (bs_result b)" by (rule batch_invD(2))
  then have "length (bs_result b) \<le> card (occupied ?s)"
    using card_mono [OF occupied_held(2) [OF con] occ] by (simp add: distinct_card)
  then have lt: "length (bs_result b) < unat max_txns" using cap assms(3) by linarith
  have "k = length (bs_result b)" using k store_bytes [OF inv dist occ] assms(4) by simp
  then have "set (block_pointers block) = {(a, n). sequential ?s a n}"
    using batch_done_sequential [OF bd lt] queue_pointers(2,3) [OF inv] ps by simp
  then show ?thesis using gb by blast
qed

theorem get_batch_complete_witness:
  "\<exists>block. get_batch pool_env pool_mempool 11 1000 True False [] = Inr block \<and>
     set (block_pointers block) = {(a, n). sequential (mp_transactions pool_mempool) a n}"
  by (rule get_batch_complete [OF pool_reached]) (simp_all add: pool_get, simp_all add: pool_mempool_def)

lemma same_core_txn: "rel_option same_core x y \<Longrightarrow> map_option mt_txn y = map_option mt_txn x"
  by (cases x; cases y) (auto simp: same_core_simps)

lemma commit_store_get:
  assumes "mempool_reach E config m" "commit_transaction E sender n m = Inr m'"
  shows "store_get (mp_transactions m') a k =
    (if a = sender \<and> k \<le> n then None else store_get (mp_transactions m) a k)"
proof -
  obtain s' where s': "store_commit_transaction E sender n (mp_transactions m) = Inr s'" "mp_transactions m' = s'"
    using assms(2) by (auto simp: commit_transaction_def on_store_Inr)
  show ?thesis
    using same_core_txn [OF store_commit_get [OF reach_store_inv [OF assms(1)] s'(1), of a k]] s'(2)
    by (auto simp: store_get_def)
qed

text \<open>C13. Committing a transaction clears everything up to it and nothing else. After \<open>commit_transaction\<close> of a sender and a
  sequence number the mempool has no transaction of the sender up to that number, and it has all other transactions of
  the sender and all transactions of other senders, unchanged.\<close>

theorem commit_clears_prefix:
  assumes "mempool_reach E config m" "commit_transaction E sender n m = Inr m'"
  shows "store_get (mp_transactions m') a k =
    (if a = sender \<and> k \<le> n then None else store_get (mp_transactions m) a k)"
  by (rule commit_store_get [OF assms])

lemmas commit_simps = commit_transaction_def on_store_def store_commit_transaction_def get_sequence_number_def index_remove_def
  multi_remove_def timeline_remove_def ttl_remove_def priority_remove_def drop_empty_account_def

lemma pool_commit: "is_ok (commit_transaction pool_env 7 0 pool_mempool)"
  by (simp add: pool_mempool_def pool_entry_def pool_simps commit_simps run_simps cong: and_then_weak_cong let_weak_cong)

theorem commit_clears_prefix_witness:
  "\<exists>m'. commit_transaction pool_env 7 0 pool_mempool = Inr m' \<and> store_get (mp_transactions m') 7 0 = None \<and>
     store_get (mp_transactions m') 7 2 = Some (pool_txn 7 2)"
proof -
  obtain m' where m': "commit_transaction pool_env 7 0 pool_mempool = Inr m'"
    using pool_commit by (cases "commit_transaction pool_env 7 0 pool_mempool") simp_all
  show ?thesis
    using m' commit_clears_prefix [OF pool_reached m', of 7 0] commit_clears_prefix [OF pool_reached m', of 7 2]
    by (simp add: store_get_def pool_get pool_entry_def)
qed

subsection \<open>The parking lot implements a set\<close>

datatype parking_op = Park mempool_transaction | Unpark mempool_transaction

fun parking_run :: "parking_op list \<Rightarrow> parking_lot_index \<Rightarrow> parking_lot_index anyhow" where
  "parking_run [] pl = Inr pl"
| "parking_run (Park t # ops) pl = parking_run ops (parking_insert t pl)"
| "parking_run (Unpark t # ops) pl = and_then (parking_remove t pl) (parking_run ops)"

fun pointers_run :: "parking_op list \<Rightarrow> txn_pointer set \<Rightarrow> txn_pointer set" where
  "pointers_run [] P = P"
| "pointers_run (Park t # ops) P = pointers_run ops (insert (signed_pointer t) P)"
| "pointers_run (Unpark t # ops) P = pointers_run ops (P - {signed_pointer t})"

lemma parking_run_ok:
  assumes "parking_wf pl"
  shows "\<exists>pl'. parking_run ops pl = Inr pl' \<and> parking_wf pl' \<and> parked pl' = pointers_run ops (parked pl)"
  using assms
proof (induction ops pl rule: parking_run.induct)
  case (3 t ops pl)
  obtain pl1 where "parking_remove t pl = Inr pl1" "parking_wf pl1" "parked pl1 = parked pl - {signed_pointer t}"
    using parking.del_ok [OF 3(2)] by blast
  then show ?case using 3(1) by simp
qed (simp_all add: parking.inv_ins parking.keys_ins)

lemma parking_size:
  assumes wf: "parking_wf pl"
  shows "pl_size pl = card (parked pl)"
proof -
  let ?d = "pl_data pl"
  have dist: "distinct (map fst ?d)"
    unfolding distinct_conv_nth using parking_wf_nth(3) [OF wf] by (auto, metis option.inject)
  have "parked pl = (\<Union>e\<in>set ?d. Pair (fst e) ` bt_keys (snd e))"
    using parked_set [OF wf] by (auto, force)
  moreover have "card (\<Union>e\<in>set ?d. Pair (fst e) ` bt_keys (snd e)) = (\<Sum>e\<in>set ?d. card (Pair (fst e) ` bt_keys (snd e)))"
    by (rule card_UN_disjoint) (use dist in \<open>auto simp: distinct_map inj_on_def\<close>)
  moreover have "card (Pair (fst e) ` bt_keys (snd e)) = length (snd e)" if "e \<in> set ?d" for e
    using that wf length_bt by (fastforce simp: parking_wf_def card_image inj_on_def)
  ultimately have "card (parked pl) = (\<Sum>e\<in>set ?d. length (snd e))" by simp
  also have "\<dots> = pl_size pl" using wf dist by (simp add: parking_wf_def sum_list_distinct_conv_sum_set distinct_map)
  finally show ?thesis by simp
qed

lemma last_greatest: "bt_wf m \<Longrightarrow> k \<in> bt_keys m \<Longrightarrow> k \<le> fst (last m)"
proof (induction m)
  case (Cons e m)
  then show ?case by (cases "m = []") (auto simp: bt_wf_def bt_keys_def less_imp_le)
qed (simp add: bt_keys_def)

lemma get_poppable_cases:
  assumes wf: "parking_wf pl"
  shows "case get_poppable pick pl of None \<Rightarrow> parked pl = {}
    | Some (a, n) \<Rightarrow> (a, n) \<in> parked pl \<and> (\<forall>k. (a, k) \<in> parked pl \<longrightarrow> k \<le> n)"
proof (cases "pl_data pl = []")
  case True
  then show ?thesis using parked_set [OF wf] by (auto simp: get_poppable_def)
next
  case False
  let ?i = "pick mod length (pl_data pl)"
  have i: "?i < length (pl_data pl)" using False by simp
  obtain a ns where ns: "pl_data pl ! ?i = (a, ns)" by fastforce
  note n = parking_wf_nth [OF wf i, unfolded ns]
  have p: "get_poppable pick pl = Some (a, fst (last ns))" using False ns n(1) by (simp add: get_poppable_def)
  have "k \<le> fst (last ns)" if "(a, k) \<in> parked pl" for k
    using that n last_greatest [of ns k] i ns by (auto simp: parked_def parking_contains_def bt_keys_def split: option.splits dest: map_of_SomeD)
  then show ?thesis using p get_poppable_parked [OF wf p] by simp
qed

text \<open>C14. The parking lot implements a set of transactions. Whatever transactions are parked and unparked, starting from the
  empty lot, no operation panics; the lot contains exactly the transactions that were parked and not unparked since, its
  size is their number, and the transaction it offers for eviction, whichever account is drawn, is one of them with the
  highest sequence number of its account, unless it is empty. So the vector of accounts, in which the last account takes
  the place of a removed one, always agrees with the map of positions.\<close>

theorem parking_lot_refines_set:
  "\<exists>pl. parking_run ops parking_new = Inr pl \<and>
     {(a, n). parking_contains pl a n} = pointers_run ops {} \<and> pl_size pl = card (pointers_run ops {}) \<and>
     (case get_poppable pick pl of None \<Rightarrow> pointers_run ops {} = {}
      | Some (a, n) \<Rightarrow> (a, n) \<in> pointers_run ops {} \<and> (\<forall>k. (a, k) \<in> pointers_run ops {} \<longrightarrow> k \<le> n))"
proof -
  have new: "parking_wf parking_new" "parked parking_new = {}"
    by (simp_all add: parking_wf_def parking_new_def parked_def parking_contains_def)
  from parking_run_ok [OF new(1), of ops] obtain pl where pl: "parking_run ops parking_new = Inr pl" "parking_wf pl"
    "parked pl = pointers_run ops {}" unfolding new(2) by blast
  have "{(a, n). parking_contains pl a n} = parked pl" by (simp add: parked_def)
  then show ?thesis using pl(1) parking_size [OF pl(2)] get_poppable_cases [OF pl(2), of pick, unfolded pl(3)] by (auto simp: pl(3))
qed


theorem parking_lot_refines_set_witness:
  "\<exists>pl. parking_run [Park (pool_entry 2 NotReady False), Park (pool_entry 4 NotReady False), Unpark (pool_entry 2 NotReady True)]
       parking_new = Inr pl \<and> {(a, n). parking_contains pl a n} = {(7, 4)} \<and> pl_size pl = 1"
proof -
  have "{(7, 4), (7, 2 :: u64)} - {(7 :: account_address, 2)} = {(7, 4)}" by auto
  then show ?thesis
    using parking_lot_refines_set [of "[Park (pool_entry 2 NotReady False), Park (pool_entry 4 NotReady False),
      Unpark (pool_entry 2 NotReady True)]" 0]
    by (auto simp: signed_pointer_def pool_entry_def pool_txn_def st_sender_def st_sequence_number_def simp del: parking_run.simps)
qed

end
