(* ===== verification/Subnet_Chain.thy ===== *)
theory Subnet_Chain
  imports Mempool_Batch
begin

text \<open>
  The blocks of the subnet and the state that keeps them (subnet/src/block/mod.rs and subnet/src/state/mod.rs), as the
  Snowman engine drives them.

  \<^item> What the code takes from other crates is the record \<open>snow_env\<close>: SHA-256, the JSON encodings, the bytes of an id and the
    database. What is used of it is the predicate \<open>snow_env_ok\<close>: encodings decode to what was encoded, and the database
    keeps what was put into it. Its reads and writes may fail.
  \<^item> A block holds a reference to a state. The state of the virtual machine is shared by the blocks made from it; a block
    that is read back from bytes has a default state of its own, with an empty database, which nothing else ever sees:
    \<open>Detached\<close>. \<open>Shared\<close> tells whether the reference to the virtual machine is set.
  \<^item> An \<open>io::Error\<close> is its kind. Locks, logging and the text forms are left out.
\<close>

section \<open>What the code is given\<close>

type_synonym byte_string = "u8 list"
type_synonym snow_id = hash_value

datatype io_error_kind = Other | InvalidData | NotFound | Unsupported

type_synonym 'a io = "(io_error_kind, 'a) result"

datatype snow_status = Processing_Status | Rejected_Status | Accepted_Status | Unknown_Status string

text \<open>The fields of a block that are serialized: parent id, height, timestamp and data.\<close>

type_synonym snow_fields = "snow_id \<times> u64 \<times> u64 \<times> byte_string"

record 'd snow_env =
  sha256 :: "byte_string \<Rightarrow> snow_id"
  empty_id :: snow_id
  id_to_vec :: "snow_id \<Rightarrow> byte_string"
  id_from_slice :: "byte_string \<Rightarrow> snow_id"
  block_to_json :: "snow_fields \<Rightarrow> byte_string option"
  block_from_json :: "byte_string \<Rightarrow> snow_fields option"
  stored_to_json :: "byte_string \<times> snow_status \<Rightarrow> byte_string option"
  stored_from_json :: "byte_string \<Rightarrow> (byte_string \<times> snow_status) option"
  default_status :: snow_status
  new_memdb :: 'd
  db_get :: "'d \<Rightarrow> byte_string \<Rightarrow> byte_string io"
  db_has :: "'d \<Rightarrow> byte_string \<Rightarrow> bool io"
  db_put :: "'d \<Rightarrow> byte_string \<Rightarrow> byte_string \<Rightarrow> unit io \<times> 'd"
  db_contents :: "'d \<Rightarrow> byte_string \<Rightarrow> byte_string option"

text \<open>What is relied on. \<open>db_contents\<close> is the contents of the database, which no code reads: a read that returns gives
  them, a key that is not found is not in them, and a write changes them; a write that fails may have done so or not. None
  of the calls panics.\<close>

definition db_laws :: "'d snow_env \<Rightarrow> bool" where
  "db_laws E \<longleftrightarrow>
     (\<forall>d k v. db_get E d k = Inr v \<longrightarrow> db_contents E d k = Some v) \<and>
     (\<forall>d k. db_get E d k = Inl (Err NotFound) \<longrightarrow> db_contents E d k = None) \<and>
     (\<forall>d k. db_get E d k \<noteq> Inl Panic) \<and>
     (\<forall>d k v d'. db_put E d k v = (Inr (), d') \<longrightarrow> db_contents E d' = (db_contents E d)(k \<mapsto> v)) \<and>
     (\<forall>d k v e d'. db_put E d k v = (Inl e, d') \<longrightarrow>
        e \<noteq> Panic \<and> (db_contents E d' = db_contents E d \<or> db_contents E d' = (db_contents E d)(k \<mapsto> v))) \<and>
     (\<forall>k. db_get E (new_memdb E) k = Inl (Err NotFound))"

definition codec_laws :: "'d snow_env \<Rightarrow> bool" where
  "codec_laws E \<longleftrightarrow>
     (\<forall>f x. block_to_json E f = Some x \<longrightarrow> block_from_json E x = Some f) \<and>
     (\<forall>r x. stored_to_json E r = Some x \<longrightarrow> stored_from_json E x = Some r) \<and>
     (\<forall>i. id_from_slice E (id_to_vec E i) = i)"

definition snow_env_ok :: "'d snow_env \<Rightarrow> bool" where
  "snow_env_ok E \<longleftrightarrow> db_laws E \<and> codec_laws E"

section \<open>Blocks and states\<close>

datatype state_ref = Shared bool | Detached

record snow_block =
  sb_parent_id :: snow_id
  sb_height :: u64
  sb_timestamp :: u64
  sb_data :: byte_string
  sb_status :: snow_status
  sb_bytes :: byte_string
  sb_id :: snow_id
  sb_state :: state_ref

record 'd snow_state =
  ss_db :: 'd
  ss_verified_blocks :: "snow_id \<Rightarrow> snow_block option"

type_synonym ('d, 'a) chain_op = "('d snow_state, io_error_kind, 'a) smonad"

definition snow_state_default :: "'d snow_env \<Rightarrow> 'd snow_state" where
  "snow_state_default E = \<lparr> ss_db = new_memdb E, ss_verified_blocks = Map.empty \<rparr>"

definition with_state :: "'d snow_env \<Rightarrow> state_ref \<Rightarrow> ('d, 'a) chain_op \<Rightarrow> ('d, 'a) chain_op" where
  "with_state E r m s = (case r of Shared _ \<Rightarrow> m s | Detached \<Rightarrow> (fst (m (snow_state_default E)), s))"

subsection \<open>Encoding\<close>

definition json_result :: "'a option \<Rightarrow> 'a io" where
  "json_result x = ok_or x Other"

definition sb_fields :: "snow_block \<Rightarrow> snow_fields" where
  "sb_fields b = (sb_parent_id b, sb_height b, sb_timestamp b, sb_data b)"

definition to_slice :: "'d snow_env \<Rightarrow> snow_block \<Rightarrow> byte_string io" where
  "to_slice E b = json_result (block_to_json E (sb_fields b))"

definition snow_block_new ::
  "'d snow_env \<Rightarrow> snow_id \<Rightarrow> u64 \<Rightarrow> u64 \<Rightarrow> byte_string \<Rightarrow> snow_status \<Rightarrow> snow_block io" where
  "snow_block_new E parent_id height timestamp data status =
     (let b = \<lparr> sb_parent_id = parent_id, sb_height = height, sb_timestamp = timestamp, sb_data = data,
                sb_status = status, sb_bytes = [], sb_id = empty_id E, sb_state = Detached \<rparr>
      in and_then (to_slice E b) (\<lambda>bytes.
           Inr (b\<lparr> sb_bytes := bytes, sb_id := sha256 E bytes \<rparr>)))"

definition block_from_slice :: "'d snow_env \<Rightarrow> byte_string \<Rightarrow> snow_block io" where
  "block_from_slice E d =
     and_then (json_result (block_from_json E d)) (\<lambda>(parent_id, height, timestamp, data).
       Inr \<lparr> sb_parent_id = parent_id, sb_height = height, sb_timestamp = timestamp, sb_data = data,
             sb_status = default_status E, sb_bytes = d, sb_id = sha256 E d, sb_state = Detached \<rparr>)"

subsection \<open>State\<close>

definition LAST_ACCEPTED_BLOCK_KEY :: byte_string where
  "LAST_ACCEPTED_BLOCK_KEY = map (of_nat \<circ> of_char) ''last_accepted_block''"

definition STATUS_PREFIX :: u8 where
  "STATUS_PREFIX = 0"

definition DELIMITER :: u8 where
  "DELIMITER = of_nat (of_char CHR ''/'')"

definition block_with_status_key :: "'d snow_env \<Rightarrow> snow_id \<Rightarrow> byte_string" where
  "block_with_status_key E blk_id = STATUS_PREFIX # DELIMITER # id_to_vec E blk_id"

definition state_put :: "'d snow_env \<Rightarrow> byte_string \<Rightarrow> byte_string \<Rightarrow> ('d, unit) chain_op" where
  "state_put E k v s = (let (r, d) = db_put E (ss_db s) k v in (map_err (\<lambda>_. Other) r, s\<lparr> ss_db := d \<rparr>))"

definition set_last_accepted_block :: "'d snow_env \<Rightarrow> snow_id \<Rightarrow> ('d, unit) chain_op" where
  "set_last_accepted_block E blk_id = state_put E LAST_ACCEPTED_BLOCK_KEY (id_to_vec E blk_id)"

definition has_last_accepted_block :: "'d snow_env \<Rightarrow> 'd snow_state \<Rightarrow> bool io" where
  "has_last_accepted_block E s = map_err (\<lambda>_. Other) (db_has E (ss_db s) LAST_ACCEPTED_BLOCK_KEY)"

definition get_last_accepted_block_id :: "'d snow_env \<Rightarrow> 'd snow_state \<Rightarrow> snow_id io" where
  "get_last_accepted_block_id E s =
     (case db_get E (ss_db s) LAST_ACCEPTED_BLOCK_KEY of
        Inr d \<Rightarrow> Inr (id_from_slice E d)
      | Inl (Err NotFound) \<Rightarrow> Inr (empty_id E)
      | Inl e \<Rightarrow> Inl e)"

definition add_verified :: "snow_block \<Rightarrow> ('d, unit) chain_op" where
  "add_verified b = s_modify (\<lambda>s. s\<lparr> ss_verified_blocks := (ss_verified_blocks s)(sb_id b \<mapsto> b) \<rparr>)"

definition remove_verified :: "snow_id \<Rightarrow> ('d, unit) chain_op" where
  "remove_verified blk_id = s_modify (\<lambda>s. s\<lparr> ss_verified_blocks := (ss_verified_blocks s)(blk_id := None) \<rparr>)"

definition has_verified :: "'d snow_state \<Rightarrow> snow_id \<Rightarrow> bool" where
  "has_verified s blk_id \<longleftrightarrow> ss_verified_blocks s blk_id \<noteq> None"

definition stored_encode :: "'d snow_env \<Rightarrow> byte_string \<times> snow_status \<Rightarrow> byte_string io" where
  "stored_encode E r = json_result (stored_to_json E r)"

definition stored_from_slice :: "'d snow_env \<Rightarrow> byte_string \<Rightarrow> (byte_string \<times> snow_status) io" where
  "stored_from_slice E d = json_result (stored_from_json E d)"

definition write_block :: "'d snow_env \<Rightarrow> snow_block \<Rightarrow> ('d, unit) chain_op" where
  "write_block E b =
     s_bind (s_lift (to_slice E b)) (\<lambda>blk_bytes.
     s_bind (s_lift (stored_encode E (blk_bytes, sb_status b))) (\<lambda>blk_status_bytes.
       state_put E (block_with_status_key E (sb_id b)) blk_status_bytes))"

definition decode_stored :: "'d snow_env \<Rightarrow> byte_string \<Rightarrow> snow_block io" where
  "decode_stored E blk_status_bytes =
     and_then (stored_from_slice E blk_status_bytes) (\<lambda>(block_bytes, status).
     and_then (block_from_slice E block_bytes) (\<lambda>blk.
       Inr (blk\<lparr> sb_status := status \<rparr>)))"

definition state_get_block :: "'d snow_env \<Rightarrow> 'd snow_state \<Rightarrow> snow_id \<Rightarrow> snow_block io" where
  "state_get_block E s blk_id =
     (case ss_verified_blocks s blk_id of
        Some b \<Rightarrow> Inr b
      | None \<Rightarrow> and_then (db_get E (ss_db s) (block_with_status_key E blk_id)) (decode_stored E))"

subsection \<open>Decisions on a block\<close>

definition verify_parent :: "u64 \<Rightarrow> snow_block \<Rightarrow> snow_block \<Rightarrow> unit io" where
  "verify_parent now b prnt_blk =
     and_then (expect (checked_sub (sb_height b) 1)) (\<lambda>before.
       if sb_height prnt_blk \<noteq> before then Inl (Err InvalidData)
       else if sb_timestamp b < sb_timestamp prnt_blk then Inl (Err InvalidData)
       else if unat now + 3600 \<le> unat (sb_timestamp b) then Inl (Err InvalidData)
       else Inr ())"

definition block_verify :: "'d snow_env \<Rightarrow> u64 \<Rightarrow> snow_block \<Rightarrow> ('d, unit) chain_op" where
  "block_verify E now b =
     with_state E (sb_state b) (\<lambda>s.
       if sb_height b = 0 \<and> sb_parent_id b = empty_id E then add_verified b s
       else if is_ok (state_get_block E s (sb_id b)) then (Inr (), s)
       else s_bind (s_lift (state_get_block E s (sb_parent_id b))) (\<lambda>prnt_blk.
            s_bind (s_lift (verify_parent now b prnt_blk)) (\<lambda>_. add_verified b)) s)"

text \<open>What \<open>accept\<close> does after the virtual machine has executed the block, and \<open>reject\<close>. They change the status of the
  block they are called on and return it.\<close>

definition block_accepted :: "'d snow_env \<Rightarrow> snow_block \<Rightarrow> ('d, snow_block) chain_op" where
  "block_accepted E b0 =
     (let b = b0\<lparr> sb_status := Accepted_Status \<rparr>
      in with_state E (sb_state b)
           (s_bind (write_block E b) (\<lambda>_.
            s_bind (set_last_accepted_block E (sb_id b)) (\<lambda>_.
            s_bind (remove_verified (sb_id b)) (\<lambda>_. s_return b)))))"

definition block_reject :: "'d snow_env \<Rightarrow> snow_block \<Rightarrow> ('d, snow_block) chain_op" where
  "block_reject E b0 =
     (let b = b0\<lparr> sb_status := Rejected_Status \<rparr>
      in with_state E (sb_state b)
           (s_bind (write_block E b) (\<lambda>_.
            s_bind (remove_verified (sb_id b)) (\<lambda>_. s_return b))))"

section \<open>The blocks a state knows\<close>

text \<open>The block under an id, whether or not the database can be read at the moment.\<close>

definition stored_block :: "'d snow_env \<Rightarrow> (byte_string \<Rightarrow> byte_string option) \<Rightarrow> snow_id \<Rightarrow> snow_block option" where
  "stored_block E c k =
     (case c (block_with_status_key E k) of
        None \<Rightarrow> None
      | Some x \<Rightarrow> (case decode_stored E x of Inr b \<Rightarrow> Some b | Inl _ \<Rightarrow> None))"

definition known :: "'d snow_env \<Rightarrow> 'd snow_state \<Rightarrow> snow_id \<Rightarrow> snow_block option" where
  "known E s k =
     (case ss_verified_blocks s k of Some b \<Rightarrow> Some b | None \<Rightarrow> stored_block E (db_contents E (ss_db s)) k)"

lemma known_cong:
  "ss_verified_blocks s' = ss_verified_blocks s \<Longrightarrow> db_contents E (ss_db s') = db_contents E (ss_db s) \<Longrightarrow> known E s' = known E s"
  by (intro ext) (simp add: known_def cong: option.case_cong)

lemma get_block_known: "snow_env_ok E \<Longrightarrow> state_get_block E s k = Inr b \<Longrightarrow> known E s k = Some b"
  by (auto simp: snow_env_ok_def db_laws_def known_def stored_block_def state_get_block_def and_then_Inr split: option.splits)

lemma status_key_inj: "codec_laws E \<Longrightarrow> block_with_status_key E i = block_with_status_key E j \<longleftrightarrow> i = j"
  by (auto simp: block_with_status_key_def codec_laws_def) (metis)

lemma status_key_last [simp]: "block_with_status_key E i \<noteq> LAST_ACCEPTED_BLOCK_KEY"
  by (simp add: block_with_status_key_def LAST_ACCEPTED_BLOCK_KEY_def STATUS_PREFIX_def)

text \<open>The block that is read back after \<open>b\<close> has been written.\<close>

definition stored_form :: "'d snow_env \<Rightarrow> byte_string \<Rightarrow> snow_block \<Rightarrow> snow_block" where
  "stored_form E x b = b\<lparr> sb_bytes := x, sb_id := sha256 E x, sb_state := Detached \<rparr>"

lemma decode_encoded:
  assumes "codec_laws E" "block_to_json E (sb_fields b) = Some x" "stored_to_json E (x, sb_status b) = Some y"
  shows "decode_stored E y = Inr (stored_form E x b)"
proof -
  have "block_from_json E x = Some (sb_fields b)" "stored_from_json E y = Some (x, sb_status b)"
    using assms unfolding codec_laws_def by blast+
  then show ?thesis
    by (simp add: decode_stored_def stored_from_slice_def json_result_def ok_or_def block_from_slice_def sb_fields_def stored_form_def)
qed

lemma write_block_cases:
  assumes "write_block E b s = (r, s')"
  obtains "s' = s" "r \<noteq> Inr ()"
  | x y where "block_to_json E (sb_fields b) = Some x" "stored_to_json E (x, sb_status b) = Some y"
      "state_put E (block_with_status_key E (sb_id b)) y s = (r, s')"
  using assms
  by (auto simp: write_block_def to_slice_def stored_encode_def json_result_def ok_or_def s_bind_def s_lift_def split: option.splits)

lemma state_put_cases:
  assumes "snow_env_ok E" "state_put E k v s = (r, s')"
  shows "ss_verified_blocks s' = ss_verified_blocks s"
    "db_contents E (ss_db s') = (db_contents E (ss_db s))(k \<mapsto> v) \<or> r \<noteq> Inr () \<and> db_contents E (ss_db s') = db_contents E (ss_db s)"
proof -
  obtain q d where q: "db_put E (ss_db s) k v = (q, d)" by fastforce
  then have r: "r = map_err (\<lambda>_. Other) q" and s': "s' = s\<lparr> ss_db := d \<rparr>" using assms(2) by (auto simp: state_put_def)
  show "ss_verified_blocks s' = ss_verified_blocks s" using s' by simp
  have "db_contents E d = (db_contents E (ss_db s))(k \<mapsto> v) \<or> q \<noteq> Inr () \<and> db_contents E d = db_contents E (ss_db s)"
  proof (cases q)
    case (Inl e)
    then show ?thesis using assms(1) q unfolding snow_env_ok_def db_laws_def by blast
  next
    case (Inr u)
    then show ?thesis using assms(1) q unfolding snow_env_ok_def db_laws_def by simp
  qed
  then show "db_contents E (ss_db s') = (db_contents E (ss_db s))(k \<mapsto> v) \<or> r \<noteq> Inr () \<and> db_contents E (ss_db s') = db_contents E (ss_db s)"
    by (auto simp: s' r map_err_Inr)
qed

section \<open>The chain\<close>

text \<open>The block strings that occur: no two of them collide, and the encoding of what one of them decodes to is one.\<close>

definition collision_free :: "'d snow_env \<Rightarrow> byte_string set \<Rightarrow> bool" where
  "collision_free E B \<longleftrightarrow>
     inj_on (sha256 E) B \<and>
     (\<forall>x \<in> B. \<forall>f y. block_from_json E x = Some f \<longrightarrow> block_to_json E f = Some y \<longrightarrow> y \<in> B)"

definition named :: "'d snow_env \<Rightarrow> byte_string set \<Rightarrow> snow_id \<Rightarrow> snow_fields \<Rightarrow> bool" where
  "named E B k f \<longleftrightarrow> (\<exists>x \<in> B. k = sha256 E x \<and> block_from_json E x = Some f)"

definition genesis_like :: "'d snow_env \<Rightarrow> snow_block \<Rightarrow> bool" where
  "genesis_like E b \<longleftrightarrow> sb_height b = 0 \<and> sb_parent_id b = empty_id E"

text \<open>A block extends a block the state knows, or needs no parent.\<close>

definition linked :: "'d snow_env \<Rightarrow> 'd snow_state \<Rightarrow> snow_block \<Rightarrow> bool" where
  "linked E s b \<longleftrightarrow>
     genesis_like E b \<or>
     (\<exists>p. known E s (sb_parent_id b) = Some p \<and> unat (sb_height b) = unat (sb_height p) + 1 \<and>
          sb_timestamp p \<le> sb_timestamp b)"

definition chain_inv :: "'d snow_env \<Rightarrow> byte_string set \<Rightarrow> 'd snow_state \<Rightarrow> bool" where
  "chain_inv E B s \<longleftrightarrow>
     (\<forall>k b. known E s k = Some b \<longrightarrow>
        named E B k (sb_fields b) \<and> named E B (sb_id b) (sb_fields b) \<and> linked E s b)"

lemma named_unique: "collision_free E B \<Longrightarrow> named E B k f \<Longrightarrow> named E B k g \<Longrightarrow> f = g"
  by (auto simp: collision_free_def named_def inj_on_def)

text \<open>No block is lost, and the block under an id stays the same.\<close>

definition extends :: "'d snow_env \<Rightarrow> 'd snow_state \<Rightarrow> 'd snow_state \<Rightarrow> bool" where
  "extends E s s' \<longleftrightarrow> (\<forall>k p. known E s k = Some p \<longrightarrow> (\<exists>p'. known E s' k = Some p' \<and> sb_fields p' = sb_fields p))"

lemma extends_refl [simp]: "extends E s s"
  by (simp add: extends_def)

lemma extends_trans: "extends E s s' \<Longrightarrow> extends E s' s'' \<Longrightarrow> extends E s s''"
  unfolding extends_def by metis

lemma linked_extends:
  assumes "extends E s s'" "sb_fields b' = sb_fields b" "linked E s b"
  shows "linked E s' b'"
proof (cases "genesis_like E b")
  case True
  then show ?thesis using assms(2) by (simp add: linked_def genesis_like_def sb_fields_def)
next
  case False
  then obtain p where p: "known E s (sb_parent_id b) = Some p" "unat (sb_height b) = unat (sb_height p) + 1"
    "sb_timestamp p \<le> sb_timestamp b" using assms(3) by (auto simp: linked_def)
  from assms(1) p(1) obtain p' where "known E s' (sb_parent_id b) = Some p'" "sb_fields p' = sb_fields p"
    unfolding extends_def by blast
  then show ?thesis using p assms(2) by (auto simp: linked_def sb_fields_def)
qed

definition keeps_chain :: "'d snow_env \<Rightarrow> byte_string set \<Rightarrow> 'd snow_state \<Rightarrow> 'd snow_state \<Rightarrow> bool" where
  "keeps_chain E B s s' \<longleftrightarrow> (chain_inv E B s \<longrightarrow> chain_inv E B s' \<and> extends E s s')"

lemma keeps_chain_refl [simp]: "keeps_chain E B s s"
  by (simp add: keeps_chain_def)

lemma keeps_chain_trans: "keeps_chain E B s s' \<Longrightarrow> keeps_chain E B s' s'' \<Longrightarrow> keeps_chain E B s s''"
  unfolding keeps_chain_def using extends_trans by blast

lemma keeps_chain_same: "known E s' = known E s \<Longrightarrow> keeps_chain E B s s'"
  by (simp add: keeps_chain_def extends_def chain_inv_def linked_def)

text \<open>A block that may be put into the state.\<close>

definition placed :: "'d snow_env \<Rightarrow> byte_string set \<Rightarrow> 'd snow_state \<Rightarrow> snow_block \<Rightarrow> bool" where
  "placed E B s b \<longleftrightarrow> named E B (sb_id b) (sb_fields b) \<and> linked E s b"

lemma placed_extends: "placed E B s b \<Longrightarrow> extends E s s' \<Longrightarrow> placed E B s' b"
  using linked_extends unfolding placed_def by blast

lemma placed_upd [simp]:
  "placed E B s (b\<lparr> sb_status := st \<rparr>) = placed E B s b" "placed E B s (b\<lparr> sb_state := r \<rparr>) = placed E B s b"
  by (simp_all add: placed_def sb_fields_def linked_def genesis_like_def)

text \<open>A state that differs from a good one by one more block, or by another copy of the block under its id, is good.\<close>

lemma keeps_chain_extend:
  assumes cf: "collision_free E B" and b: "placed E B s b"
    and s': "\<And>j c. known E s' j = Some c \<Longrightarrow>
      known E s j = Some c \<or> j = sb_id b \<and> sb_fields c = sb_fields b \<and> named E B (sb_id c) (sb_fields b)"
    and old: "\<And>j. known E s j \<noteq> None \<Longrightarrow> known E s' j \<noteq> None"
  shows "keeps_chain E B s s'"
  unfolding keeps_chain_def
proof
  assume inv: "chain_inv E B s"
  have k: "named E B (sb_id b) (sb_fields b)" and l: "linked E s b" using b by (simp_all add: placed_def)
  have ext: "extends E s s'"
    unfolding extends_def
  proof (intro allI impI)
    fix i p assume p: "known E s i = Some p"
    obtain p' where p': "known E s' i = Some p'" using old [of i] p by auto
    then consider "known E s i = Some p'" | "i = sb_id b" "sb_fields p' = sb_fields b" using s' by blast
    then show "\<exists>p'. known E s' i = Some p' \<and> sb_fields p' = sb_fields p"
    proof cases
      case 1
      then show ?thesis using p p' by simp
    next
      case 2
      have "named E B (sb_id b) (sb_fields p)" using inv p 2(1) by (auto simp: chain_inv_def)
      then have "sb_fields p = sb_fields b" using k by (rule named_unique [OF cf])
      then show ?thesis using p' 2(2) by simp
    qed
  qed
  have "named E B j (sb_fields c) \<and> named E B (sb_id c) (sb_fields c) \<and> linked E s' c" if c: "known E s' j = Some c" for j c
  proof (cases "known E s j = Some c")
    case True
    then have "linked E s c" "named E B j (sb_fields c)" "named E B (sb_id c) (sb_fields c)" using inv by (auto simp: chain_inv_def)
    then show ?thesis using linked_extends [OF ext refl] by blast
  next
    case False
    then have "j = sb_id b" "sb_fields c = sb_fields b" "named E B (sb_id c) (sb_fields b)" using s' [OF c] by auto
    then show ?thesis using k linked_extends [OF ext _ l] by simp
  qed
  then show "chain_inv E B s' \<and> extends E s s'" using ext by (simp add: chain_inv_def)
qed

lemma known_put:
  assumes "codec_laws E" "ss_verified_blocks s' = ss_verified_blocks s"
    and "db_contents E (ss_db s') = (db_contents E (ss_db s))(block_with_status_key E k \<mapsto> y)" "decode_stored E y = Inr c"
  shows "known E s' j = (if j = k \<and> ss_verified_blocks s k = None then Some c else known E s j)"
  using assms by (auto simp: known_def stored_block_def status_key_inj split: option.splits)

lemma put_last_keeps:
  assumes "snow_env_ok E" "state_put E LAST_ACCEPTED_BLOCK_KEY y s = (r, s')"
  shows "keeps_chain E B s s'" "ss_verified_blocks s' = ss_verified_blocks s"
    "db_contents E (ss_db s') (block_with_status_key E k) = db_contents E (ss_db s) (block_with_status_key E k)"
proof -
  note put = state_put_cases [OF assms]
  show "ss_verified_blocks s' = ss_verified_blocks s" by (rule put(1))
  show same: "db_contents E (ss_db s') (block_with_status_key E k) = db_contents E (ss_db s) (block_with_status_key E k)" for k
    using put(2) by auto
  show "keeps_chain E B s s'"
    by (rule keeps_chain_same, rule ext) (simp add: known_def stored_block_def put(1) same cong: option.case_cong)
qed

lemma named_stored:
  assumes "collision_free E B" "codec_laws E" "named E B k (sb_fields b)" "block_to_json E (sb_fields b) = Some x"
  shows "named E B (sb_id (stored_form E x b)) (sb_fields b)" "sb_fields (stored_form E x b) = sb_fields b"
proof -
  have "x \<in> B" using assms(1,3,4) unfolding collision_free_def named_def by blast
  moreover have "block_from_json E x = Some (sb_fields b)" using assms(2,4) unfolding codec_laws_def by blast
  ultimately show "named E B (sb_id (stored_form E x b)) (sb_fields b)" by (auto simp: named_def stored_form_def)
  show "sb_fields (stored_form E x b) = sb_fields b" by (simp add: sb_fields_def stored_form_def)
qed

text \<open>A block that is written can be read back, also once it is no longer among the verified blocks.\<close>

definition written :: "'d snow_env \<Rightarrow> snow_block \<Rightarrow> 'd snow_state \<Rightarrow> bool" where
  "written E b s \<longleftrightarrow>
     (\<exists>x y. block_to_json E (sb_fields b) = Some x \<and> decode_stored E y = Inr (stored_form E x b) \<and>
        db_contents E (ss_db s) (block_with_status_key E (sb_id b)) = Some y)"

lemma write_block_keeps:
  assumes E: "snow_env_ok E" and cf: "collision_free E B" and b: "placed E B s b" and w: "write_block E b s = (r, s')"
  shows "keeps_chain E B s s'" "r = Inr () \<Longrightarrow> written E b s'" "ss_verified_blocks s' = ss_verified_blocks s"
proof -
  have codec: "codec_laws E" using E by (simp add: snow_env_ok_def)
  from w have "keeps_chain E B s s' \<and> (r = Inr () \<longrightarrow> written E b s') \<and> ss_verified_blocks s' = ss_verified_blocks s"
  proof (cases rule: write_block_cases)
    case 1
    then show ?thesis by simp
  next
    case (2 x y)
    note put = state_put_cases [OF E 2(3)] and dec = decode_encoded [OF codec 2(1,2)]
    have n: "named E B (sb_id b) (sb_fields b)" using b by (simp add: placed_def)
    note st = named_stored [OF cf codec n 2(1)]
    have "keeps_chain E B s s'"
    proof (cases "db_contents E (ss_db s') = (db_contents E (ss_db s))(block_with_status_key E (sb_id b) \<mapsto> y)")
      case True
      note k = known_put [OF codec put(1) True dec]
      show ?thesis by (rule keeps_chain_extend [OF cf b]) (use k st in \<open>auto split: if_splits\<close>)
    next
      case False
      then have "known E s' = known E s" using put by (intro known_cong) blast+
      then show ?thesis by (rule keeps_chain_same)
    qed
    moreover have "written E b s'" if "r = Inr ()" using put(2) that 2(1) dec by (auto simp: written_def)
    ultimately show ?thesis using put(1) by blast
  qed
  then show "keeps_chain E B s s'" "r = Inr () \<Longrightarrow> written E b s'" "ss_verified_blocks s' = ss_verified_blocks s" by blast+
qed

lemma remove_verified_known:
  assumes "written E b s"
  shows "\<exists>x. block_to_json E (sb_fields b) = Some x \<and>
    (\<forall>j. known E (s\<lparr> ss_verified_blocks := (ss_verified_blocks s)(sb_id b := None) \<rparr>) j =
       (if j = sb_id b then Some (stored_form E x b) else known E s j))"
  using assms by (auto simp: written_def known_def stored_block_def cong: option.case_cong)

lemma remove_verified_keeps:
  assumes "collision_free E B" "codec_laws E" "placed E B s b" "written E b s"
  shows "keeps_chain E B s (s\<lparr> ss_verified_blocks := (ss_verified_blocks s)(sb_id b := None) \<rparr>)"
proof -
  from remove_verified_known [OF assms(4)] obtain x where x: "block_to_json E (sb_fields b) = Some x"
    "\<And>j. known E (s\<lparr> ss_verified_blocks := (ss_verified_blocks s)(sb_id b := None) \<rparr>) j =
       (if j = sb_id b then Some (stored_form E x b) else known E s j)" by blast
  have "named E B (sb_id b) (sb_fields b)" using assms(3) by (simp add: placed_def)
  note st = named_stored [OF assms(1,2) this x(1)]
  show ?thesis by (rule keeps_chain_extend [OF assms(1,3)]) (use x(2) st in \<open>auto split: if_splits\<close>)
qed

lemma with_state_keeps:
  assumes "with_state E ref m s = (r, s')" "\<And>r s'. m s = (r, s') \<Longrightarrow> keeps_chain E B s s'"
  shows "keeps_chain E B s s'"
  using assms by (auto simp: with_state_def split: state_ref.splits)

lemma placed_keeps: "placed E B s b \<Longrightarrow> chain_inv E B s \<Longrightarrow> keeps_chain E B s s' \<Longrightarrow> placed E B s' b"
  using placed_extends unfolding keeps_chain_def by blast

lemma block_reject_keeps:
  assumes E: "snow_env_ok E" and cf: "collision_free E B" and inv: "chain_inv E B s" and b: "placed E B s b"
    and rej: "block_reject E b s = (r, s')"
  shows "keeps_chain E B s s'"
proof (rule with_state_keeps [OF rej [unfolded block_reject_def Let_def]])
  let ?b = "b\<lparr> sb_status := Rejected_Status \<rparr>"
  have b': "placed E B s ?b" using b by simp
  have codec: "codec_laws E" using E by (simp add: snow_env_ok_def)
  fix r s' assume m: "s_bind (write_block E ?b) (\<lambda>_. s_bind (remove_verified (sb_id ?b)) (\<lambda>_. s_return ?b)) s = (r, s')"
  obtain r1 s1 where w: "write_block E ?b s = (r1, s1)" by fastforce
  note k = write_block_keeps [OF E cf b' w]
  show "keeps_chain E B s s'"
  proof (cases r1)
    case (Inl e)
    then show ?thesis using m w k(1) by (simp add: s_bind_def)
  next
    case (Inr u)
    then have "written E ?b s1" using k(2) by simp
    from remove_verified_keeps [OF cf codec placed_keeps [OF b' inv k(1)] this] show ?thesis
      using m w Inr keeps_chain_trans [OF k(1)] by (simp add: s_bind_def remove_verified_def s_modify_def s_return_def)
  qed
qed

lemma block_accepted_keeps:
  assumes E: "snow_env_ok E" and cf: "collision_free E B" and inv: "chain_inv E B s" and b: "placed E B s b"
    and acc: "block_accepted E b s = (r, s')"
  shows "keeps_chain E B s s'"
proof (rule with_state_keeps [OF acc [unfolded block_accepted_def Let_def]])
  let ?b = "b\<lparr> sb_status := Accepted_Status \<rparr>"
  have b': "placed E B s ?b" using b by simp
  have codec: "codec_laws E" using E by (simp add: snow_env_ok_def)
  fix r s' assume m: "s_bind (write_block E ?b) (\<lambda>_. s_bind (set_last_accepted_block E (sb_id ?b)) (\<lambda>_.
      s_bind (remove_verified (sb_id ?b)) (\<lambda>_. s_return ?b))) s = (r, s')"
  obtain r1 s1 where w: "write_block E ?b s = (r1, s1)" by fastforce
  note k = write_block_keeps [OF E cf b' w]
  show "keeps_chain E B s s'"
  proof (cases r1)
    case (Inl e)
    then show ?thesis using m w k(1) by (simp add: s_bind_def)
  next
    case (Inr u)
    then have wr: "written E ?b s1" using k(2) by simp
    obtain r2 s2 where p: "state_put E LAST_ACCEPTED_BLOCK_KEY (id_to_vec E (sb_id b)) s1 = (r2, s2)" by fastforce
    note l = put_last_keeps [OF E p]
    have k2: "keeps_chain E B s s2" by (rule keeps_chain_trans [OF k(1) l(1)])
    have "written E ?b s2" using wr l(3) [of "sb_id b"] by (simp add: written_def)
    from remove_verified_keeps [OF cf codec placed_keeps [OF b' inv k2] this] show ?thesis
      using m w Inr p keeps_chain_trans [OF k2] k2
      by (cases r2) (auto simp: s_bind_def set_last_accepted_block_def remove_verified_def s_modify_def s_return_def)
  qed
qed

lemma add_verified_keeps:
  assumes "collision_free E B" "placed E B s b"
  shows "keeps_chain E B s (s\<lparr> ss_verified_blocks := (ss_verified_blocks s)(sb_id b \<mapsto> b) \<rparr>)"
proof -
  have k: "known E (s\<lparr> ss_verified_blocks := (ss_verified_blocks s)(sb_id b \<mapsto> b) \<rparr>) j = (if j = sb_id b then Some b else known E s j)" for j
    by (simp add: known_def cong: option.case_cong)
  show ?thesis by (rule keeps_chain_extend [OF assms]) (use k assms(2) in \<open>auto simp: placed_def split: if_splits\<close>)
qed

lemma verify_parent_ok:
  "verify_parent now b p = Inr () \<longleftrightarrow>
     unat (sb_height b) = unat (sb_height p) + 1 \<and> sb_timestamp p \<le> sb_timestamp b \<and> unat (sb_timestamp b) < unat now + 3600"
  by (auto simp: verify_parent_def and_then_Inr expect_Inr checked_sub_Some not_le not_less word_unat_eq_iff split: if_splits)

lemma block_verify_keeps:
  assumes E: "snow_env_ok E" and cf: "collision_free E B" and n: "named E B (sb_id b) (sb_fields b)"
    and ver: "block_verify E now b s = (r, s')"
  shows "keeps_chain E B s s'"
proof (rule with_state_keeps [OF ver [unfolded block_verify_def]])
  fix r s'
  assume m: "(if sb_height b = 0 \<and> sb_parent_id b = empty_id E then add_verified b s
       else if is_ok (state_get_block E s (sb_id b)) then (Inr (), s)
       else s_bind (s_lift (state_get_block E s (sb_parent_id b))) (\<lambda>prnt_blk.
            s_bind (s_lift (verify_parent now b prnt_blk)) (\<lambda>_. add_verified b)) s) = (r, s')"
  show "keeps_chain E B s s'"
  proof (cases "sb_height b = 0 \<and> sb_parent_id b = empty_id E")
    case True
    then have "placed E B s b" using n by (simp add: placed_def linked_def genesis_like_def)
    from add_verified_keeps [OF cf this] show ?thesis using m True by (simp add: add_verified_def s_modify_def)
  next
    case False
    show ?thesis
    proof (cases "\<not> is_ok (state_get_block E s (sb_id b)) \<and> (\<exists>p. state_get_block E s (sb_parent_id b) = Inr p \<and> verify_parent now b p = Inr ())")
      case True
      then obtain p where p: "state_get_block E s (sb_parent_id b) = Inr p" "verify_parent now b p = Inr ()" by blast
      have "placed E B s b" using n p get_block_known [OF E p(1)] by (auto simp: placed_def linked_def verify_parent_ok)
      from add_verified_keeps [OF cf this] show ?thesis
        using m False True p by (auto simp: s_bind_def s_lift_def add_verified_def s_modify_def)
    next
      case no: False
      then have "s' = s" using m False by (auto simp: s_bind_def s_lift_def split: if_splits sum.splits)
      then show ?thesis by simp
    qed
  qed
qed

end
