(* ===== verification/Subnet_Vm.thy ===== *)
theory Subnet_Vm
  imports Subnet_Chain
begin

text \<open>
  The virtual machine of the subnet (subnet/src/vm/mod.rs): it keeps the blocks for the Snowman engine, fills them from the
  mempool and executes them when they are accepted.

  \<^item> The record \<open>vm_env\<close> holds what the machine is given beside the environment of the blocks: the JSON and BCS
    encodings, the signer and the block executor with its database, whose state is a parameter.
  \<^item> The mempool is the one of \<open>Core_Mempool\<close>. Its operations only fail by a panic, which is a panic of the machine.
  \<^item> Times, random ids and what the REST service answers are arguments. Messages that are sent are recorded.

  Left out: the queries that only pass a request on to the REST service, the bootstrap of the database and HTTP handlers.
\<close>

section \<open>Data\<close>

record block_metadata =
  bm_id :: hash_value
  bm_epoch :: u64
  bm_round :: u64
  bm_proposer :: account_address
  bm_previous_block_votes_bitvec :: byte_string
  bm_failed_proposer_indices :: "u32 list"
  bm_timestamp_usecs :: u64

datatype transaction =
    UserTransaction signed_transaction
  | GenesisTransaction byte_string
  | BlockMetadata block_metadata
  | StateCheckpoint hash_value

fun try_as_signed_user_txn :: "transaction \<Rightarrow> signed_transaction option" where
  "try_as_signed_user_txn (UserTransaction t) = Some t"
| "try_as_signed_user_txn _ = None"

fun try_as_block_metadata :: "transaction \<Rightarrow> block_metadata option" where
  "try_as_block_metadata (BlockMetadata m) = Some m"
| "try_as_block_metadata _ = None"

record aptos_data =
  ad_block_txns :: byte_string
  ad_block_id :: hash_value
  ad_parent_block_id :: hash_value
  ad_next_epoch :: u64
  ad_timestamp_usecs :: u64

text \<open>What the executor returns for a block: the root hash, the version and the state of the next epoch.\<close>

record state_compute_result =
  sc_root_hash :: hash_value
  sc_version :: version
  sc_epoch_state :: "epoch_state option"

record ('d, 'x) vm_env =
  ve_chain :: "'d snow_env"
  ve_txn :: txn_env
  data_to_json :: "aptos_data \<Rightarrow> byte_string option"
  data_from_json :: "byte_string \<Rightarrow> aptos_data option"
  txns_to_json :: "transaction list \<Rightarrow> byte_string option"
  txns_from_json :: "byte_string \<Rightarrow> transaction list option"
  txn_to_json :: "signed_transaction \<Rightarrow> byte_string option"
  txn_from_json :: "byte_string \<Rightarrow> signed_transaction option"
  txn_from_bcs :: "byte_string \<Rightarrow> signed_transaction option"
  txns_from_bcs :: "byte_string \<Rightarrow> signed_transaction list option"
  ve_author :: account_address
  sign_ledger_info :: "ledger_info \<Rightarrow> ledger_info_with_signatures"
  committed_block_id :: "'x \<Rightarrow> hash_value"
  latest_next_block_epoch :: "'x \<Rightarrow> u64 anyhow"
  execute_block :: "'x \<Rightarrow> hash_value \<Rightarrow> transaction list \<Rightarrow> hash_value \<Rightarrow> state_compute_result anyhow \<times> 'x"
  commit_blocks :: "'x \<Rightarrow> hash_value list \<Rightarrow> ledger_info_with_signatures \<Rightarrow> unit anyhow \<times> 'x"

text \<open>What \<open>init_aptos\<close> sets up.\<close>

record 'x aptos =
  ap_executor :: 'x
  ap_mempool :: mempool

text \<open>The channels to the engine and to the network are absent before the initialization; they may be closed.\<close>

record ('d, 'x) vm =
  vm_state :: "'d snow_state option"
  vm_preferred :: snow_id
  vm_bootstrapped :: bool
  vm_aptos :: "'x aptos option"
  vm_to_engine :: "bool option"
  vm_notified :: nat
  vm_app_sender :: "bool option"
  vm_gossiped :: "byte_string list"
  vm_build_status :: u8
  vm_has_pending_tx :: bool

type_synonym ('d, 'x, 'a) vm_op = "(('d, 'x) vm, io_error_kind, 'a) smonad"

definition vm_new :: "'d snow_env \<Rightarrow> ('d, 'x) vm" where
  "vm_new E =
     \<lparr> vm_state = None, vm_preferred = empty_id E, vm_bootstrapped = False, vm_aptos = None, vm_to_engine = None,
       vm_notified = 0, vm_app_sender = None, vm_gossiped = [], vm_build_status = 0, vm_has_pending_tx = False \<rparr>"

text \<open>A call that must not fail (\<open>unwrap\<close>), and calls on the state and on the mempool of the machine.\<close>

definition s_unwrap :: "('s, 'e, 'a) smonad \<Rightarrow> ('s, 'f, 'a) smonad" where
  "s_unwrap m s = (let (r, s') = m s in (unwrap r, s'))"

definition on_state :: "('d, 'a) chain_op \<Rightarrow> ('d, 'x, 'a) vm_op" where
  "on_state m v =
     (case vm_state v of
        None \<Rightarrow> (Inl Panic, v)
      | Some s \<Rightarrow> (let (r, s') = m s in (r, v\<lparr> vm_state := Some s' \<rparr>)))"

definition on_pool :: "(mempool \<Rightarrow> mempool anyhow) \<Rightarrow> ('d, 'x, unit) vm_op" where
  "on_pool f v =
     (case vm_aptos v of
        None \<Rightarrow> (Inl Panic, v)
      | Some ap \<Rightarrow>
          (case unwrap (f (ap_mempool ap)) of
             Inl e \<Rightarrow> (Inl e, v)
           | Inr m \<Rightarrow> (Inr (), v\<lparr> vm_aptos := Some (ap\<lparr> ap_mempool := m \<rparr>) \<rparr>)))"

section \<open>Notifying the engine\<close>

definition update_build_block_status :: "u8 \<Rightarrow> ('d, 'x) vm \<Rightarrow> ('d, 'x) vm" where
  "update_build_block_status st v = v\<lparr> vm_build_status := st \<rparr>"

definition update_pending_tx_flag :: "bool \<Rightarrow> ('d, 'x) vm \<Rightarrow> ('d, 'x) vm" where
  "update_pending_tx_flag n v = v\<lparr> vm_has_pending_tx := n \<rparr>"

definition notify_block_ready2 :: "('d, 'x) vm \<Rightarrow> ('d, 'x) vm" where
  "notify_block_ready2 v =
     (if vm_to_engine v = Some True then update_build_block_status 1 (v\<lparr> vm_notified := vm_notified v + 1 \<rparr>) else v)"

definition notify_block_ready :: "('d, 'x) vm \<Rightarrow> ('d, 'x) vm" where
  "notify_block_ready v =
     (if vm_build_status v = 1 then (if vm_has_pending_tx v then v else update_pending_tx_flag True v)
      else if vm_build_status v = 0 then notify_block_ready2 v
      else v)"

text \<open>One turn of the loop of \<open>check_pending_tx\<close>, with the time of the last check; the flags can be read.\<close>

definition check_pending_tx_step :: "u64 \<Rightarrow> u64 \<Rightarrow> ('d, 'x) vm \<Rightarrow> (io_error_kind, u64) result \<times> ('d, 'x) vm" where
  "check_pending_tx_step now last_check_build_time v =
     (if vm_build_status v = 0
      then (Inr now, if vm_has_pending_tx v then notify_block_ready2 (update_pending_tx_flag False v) else v)
      else (case checked_sub now last_check_build_time of
              None \<Rightarrow> (Inl Panic, v)
            | Some elapsed \<Rightarrow>
                if 120 < elapsed then (Inr now, update_build_block_status 0 v) else (Inr last_check_build_time, v)))"

section \<open>The mempool\<close>

definition add_pool :: "('d, 'x) vm_env \<Rightarrow> nat \<Rightarrow> duration \<Rightarrow> signed_transaction \<Rightarrow> ('d, 'x, unit) vm_op" where
  "add_pool E pick now signed_transaction =
     on_pool (\<lambda>m. and_then (add_txn (ve_txn E) pick now signed_transaction 0 (st_sequence_number signed_transaction)
                              NonQualified True m) (\<lambda>(_, m'). Inr m'))"

definition get_pending_tx :: "('d, 'x) vm_env \<Rightarrow> u64 \<Rightarrow> ('d, 'x) vm \<Rightarrow> signed_transaction list io" where
  "get_pending_tx E max_txns v =
     (case vm_aptos v of
        None \<Rightarrow> Inl Panic
      | Some ap \<Rightarrow> unwrap (get_batch (ve_txn E) (ap_mempool ap) max_txns (1024 * 5 * 1000) True True []))"

definition app_gossip :: "('d, 'x) vm_env \<Rightarrow> nat \<Rightarrow> duration \<Rightarrow> byte_string \<Rightarrow> ('d, 'x, unit) vm_op" where
  "app_gossip E pick now msg =
     (case txn_from_json E msg of Some t \<Rightarrow> add_pool E pick now t | None \<Rightarrow> s_return ())"

section \<open>Building and executing blocks\<close>

definition block_transactions ::
  "('d, 'x) vm_env \<Rightarrow> hash_value \<Rightarrow> u64 \<Rightarrow> u64 \<Rightarrow> hash_value \<Rightarrow> signed_transaction list \<Rightarrow> transaction list" where
  "block_transactions E block_id next_epoch unix_now_micro checkpoint_id tx_arr =
     BlockMetadata \<lparr> bm_id = block_id, bm_epoch = next_epoch, bm_round = 0, bm_proposer = ve_author E,
         bm_previous_block_votes_bitvec = [], bm_failed_proposer_indices = [], bm_timestamp_usecs = unix_now_micro \<rparr>
       # map UserTransaction tx_arr @ [StateCheckpoint checkpoint_id]"

definition build_block_data ::
  "('d, 'x) vm_env \<Rightarrow> u64 \<Rightarrow> hash_value \<Rightarrow> hash_value \<Rightarrow> ('d, 'x) vm \<Rightarrow> byte_string io" where
  "build_block_data E unix_now_micro block_id checkpoint_id v =
     and_then (get_pending_tx E 500 v) (\<lambda>tx_arr.
     and_then (expect (vm_aptos v)) (\<lambda>ap.
     and_then (unwrap (latest_next_block_epoch E (ap_executor ap))) (\<lambda>next_epoch.
     and_then (expect (txns_to_json E (block_transactions E block_id next_epoch unix_now_micro checkpoint_id tx_arr))) (\<lambda>block_tx_bytes.
       expect (data_to_json E
         \<lparr> ad_block_txns = block_tx_bytes, ad_block_id = block_id,
           ad_parent_block_id = committed_block_id E (ap_executor ap), ad_next_epoch = next_epoch,
           ad_timestamp_usecs = unix_now_micro \<rparr>)))))"

text \<open>The transactions of a block are taken out of the mempool whatever the execution gave.\<close>

fun commit_user_txns :: "txn_env \<Rightarrow> transaction list \<Rightarrow> mempool \<Rightarrow> mempool anyhow" where
  "commit_user_txns T [] m = Inr m"
| "commit_user_txns T (t # ts) m =
     (case t of
        UserTransaction u \<Rightarrow>
          and_then (commit_transaction T (st_sender u) (st_sequence_number u) m) (commit_user_txns T ts)
      | _ \<Rightarrow> commit_user_txns T ts m)"

definition executed_ledger_info :: "u64 \<Rightarrow> hash_value \<Rightarrow> u64 \<Rightarrow> state_compute_result \<Rightarrow> ledger_info" where
  "executed_ledger_info next_epoch block_id ts output =
     \<lparr> li_commit_info = \<lparr> bi_epoch = next_epoch, bi_round = 0, bi_id = block_id, bi_executed_state_id = sc_root_hash output,
         bi_version = sc_version output, bi_timestamp_usecs = ts, bi_next_epoch_state = sc_epoch_state output \<rparr>,
       li_consensus_data_hash = hash_zero \<rparr>"

definition execute_and_commit ::
  "('d, 'x) vm_env \<Rightarrow> hash_value \<Rightarrow> transaction list \<Rightarrow> u64 \<Rightarrow> u64 \<Rightarrow> 'x \<Rightarrow> unit io \<times> 'x" where
  "execute_and_commit E block_id block_tx next_epoch ts x =
     (case execute_block E x block_id block_tx (committed_block_id E x) of
        (Inr output, x') \<Rightarrow>
          (let (r, x'') = commit_blocks E x' [block_id] (sign_ledger_info E (executed_ledger_info next_epoch block_id ts output))
           in (unwrap r, x''))
      | (Inl (Err _), x') \<Rightarrow> (Inr (), x')
      | (Inl Panic, x') \<Rightarrow> (Inl Panic, x'))"

definition on_executor :: "('x \<Rightarrow> 'a io \<times> 'x) \<Rightarrow> ('d, 'x, 'a) vm_op" where
  "on_executor f v =
     (case vm_aptos v of
        None \<Rightarrow> (Inl Panic, v)
      | Some ap \<Rightarrow> (let (r, x) = f (ap_executor ap) in (r, v\<lparr> vm_aptos := Some (ap\<lparr> ap_executor := x \<rparr>) \<rparr>)))"

definition inner_build_block :: "('d, 'x) vm_env \<Rightarrow> byte_string \<Rightarrow> ('d, 'x, unit) vm_op" where
  "inner_build_block E data =
     s_bind (s_gets (\<lambda>v. expect (vm_aptos v))) (\<lambda>_.
     s_bind (s_lift (expect (data_from_json E data))) (\<lambda>aptos_data.
     s_bind (s_lift (expect (txns_from_json E (ad_block_txns aptos_data)))) (\<lambda>block_tx.
     s_bind (s_lift (expect (case block_tx of [] \<Rightarrow> None | t # _ \<Rightarrow> try_as_block_metadata t))) (\<lambda>block_meta.
     s_bind (on_executor (execute_and_commit E (bm_id block_meta) block_tx (ad_next_epoch aptos_data)
                            (ad_timestamp_usecs aptos_data))) (\<lambda>_.
     s_bind (on_pool (commit_user_txns (ve_txn E) block_tx)) (\<lambda>_.
       s_modify (update_build_block_status 0)))))))"

definition block_accept :: "('d, 'x) vm_env \<Rightarrow> snow_block \<Rightarrow> ('d, 'x, snow_block) vm_op" where
  "block_accept E b =
     s_bind (if sb_state b = Shared True then inner_build_block E (sb_data b) else s_return ()) (\<lambda>_.
       on_state (block_accepted (ve_chain E) b))"

definition vm_build_block ::
  "('d, 'x) vm_env \<Rightarrow> u64 \<Rightarrow> u64 \<Rightarrow> hash_value \<Rightarrow> hash_value \<Rightarrow> ('d, 'x, snow_block) vm_op" where
  "vm_build_block E unix_now unix_now_micro block_id checkpoint_id v =
     (case vm_state v of
        None \<Rightarrow> (Inl (Err Other), v)
      | Some s \<Rightarrow>
          s_bind (s_lift (unwrap (state_get_block (ve_chain E) s (vm_preferred v)))) (\<lambda>prnt_blk.
          s_bind (s_lift (unwrap (build_block_data E unix_now_micro block_id checkpoint_id v))) (\<lambda>data.
          s_bind (s_lift (expect (checked_add (sb_height prnt_blk) 1))) (\<lambda>height.
          s_bind (s_lift (unwrap (snow_block_new (ve_chain E) (sb_id prnt_blk) height unix_now data Processing_Status))) (\<lambda>b.
            let block' = b\<lparr> sb_state := Shared False \<rparr>
            in s_bind (s_unwrap (on_state (block_verify (ve_chain E) unix_now block'))) (\<lambda>_. s_return block'))))) v)"

definition vm_get_block :: "('d, 'x) vm_env \<Rightarrow> ('d, 'x) vm \<Rightarrow> snow_id \<Rightarrow> snow_block io" where
  "vm_get_block E v blk_id =
     (case vm_state v of
        None \<Rightarrow> Inl (Err NotFound)
      | Some s \<Rightarrow>
          and_then (state_get_block (ve_chain E) s blk_id) (\<lambda>b. Inr (b\<lparr> sb_state := Shared True \<rparr>)))"

definition vm_parse_block :: "('d, 'x) vm_env \<Rightarrow> ('d, 'x) vm \<Rightarrow> byte_string \<Rightarrow> snow_block io" where
  "vm_parse_block E v bytes =
     (case vm_state v of
        None \<Rightarrow> Inl (Err NotFound)
      | Some s \<Rightarrow>
          and_then (block_from_slice (ve_chain E) bytes) (\<lambda>b.
            let new_block = b\<lparr> sb_status := Processing_Status, sb_state := Shared True \<rparr>
            in case state_get_block (ve_chain E) s (sb_id new_block) of
                 Inr prev \<Rightarrow> Inr prev
               | Inl (Err _) \<Rightarrow> Inr new_block
               | Inl Panic \<Rightarrow> Inl Panic))"

section \<open>Requests\<close>

datatype snow_mode = Initializing | StateSyncing | Bootstrapping | NormalOp

definition vm_set_state :: "snow_mode \<Rightarrow> ('d, 'x, unit) vm_op" where
  "vm_set_state snow_state =
     (case snow_state of
        Initializing \<Rightarrow> s_modify (\<lambda>v. v\<lparr> vm_bootstrapped := False \<rparr>)
      | StateSyncing \<Rightarrow> s_fail Other
      | Bootstrapping \<Rightarrow> s_modify (\<lambda>v. v\<lparr> vm_bootstrapped := False \<rparr>)
      | NormalOp \<Rightarrow> s_modify (\<lambda>v. v\<lparr> vm_bootstrapped := True \<rparr>))"

definition set_preference :: "snow_id \<Rightarrow> ('d, 'x, unit) vm_op" where
  "set_preference blk_id = s_modify (\<lambda>v. v\<lparr> vm_preferred := blk_id \<rparr>)"

definition last_accepted :: "('d, 'x) vm_env \<Rightarrow> ('d, 'x) vm \<Rightarrow> snow_id io" where
  "last_accepted E v =
     (case vm_state v of Some s \<Rightarrow> get_last_accepted_block_id (ve_chain E) s | None \<Rightarrow> Inl (Err NotFound))"

record rpc_res =
  rr_data :: string
  rr_header :: string
  rr_error :: "string option"

definition send_app_gossip :: "byte_string \<Rightarrow> ('d, 'x, unit) vm_op" where
  "send_app_gossip msg v =
     (if vm_app_sender v = Some True then (Inr (), v\<lparr> vm_gossiped := vm_gossiped v @ [msg] \<rparr>) else (Inl Panic, v))"

text \<open>A submitted transaction after the REST service has answered: an error, or the texts of the response and its header.
  The numbers and ids are the clock and the random choices of the calls.\<close>

definition submit_transaction ::
  "('d, 'x) vm_env \<Rightarrow> nat \<Rightarrow> duration \<Rightarrow> u64 \<Rightarrow> hash_value \<Rightarrow> hash_value \<Rightarrow> byte_string \<Rightarrow> string + string \<times> string \<Rightarrow>
   ('d, 'x, rpc_res) vm_op" where
  "submit_transaction E pick now unix_now_micro block_id checkpoint_id data api_ret =
     (case api_ret of
        Inl e \<Rightarrow> s_return \<lparr> rr_data = [], rr_header = [], rr_error = Some e \<rparr>
      | Inr (ret_str, header_str) \<Rightarrow>
          s_bind (s_lift (expect (txn_from_bcs E data))) (\<lambda>signed_transaction.
          s_bind (s_lift (expect (txn_to_json E signed_transaction))) (\<lambda>msg.
          s_bind (send_app_gossip msg) (\<lambda>_.
          s_bind (add_pool E pick now signed_transaction) (\<lambda>_.
          s_bind (if 50 * 1024 \<le> length data
                  then s_bind (s_unwrap (s_gets (build_block_data E unix_now_micro block_id checkpoint_id))) (\<lambda>block_data.
                         s_unwrap (inner_build_block E block_data))
                  else s_modify notify_block_ready) (\<lambda>_.
            s_return \<lparr> rr_data = ret_str, rr_header = header_str, rr_error = None \<rparr>))))))"

text \<open>The loop over a batch of transactions gives the number of those the service has refused.\<close>

fun submit_all ::
  "('d, 'x) vm_env \<Rightarrow> nat \<Rightarrow> duration \<Rightarrow> nat list \<Rightarrow> nat \<Rightarrow> signed_transaction list \<Rightarrow> ('d, 'x, nat) vm_op" where
  "submit_all E pick now failed_index i [] = s_return 0"
| "submit_all E pick now failed_index i (t # ts) =
     (if i \<notin> set failed_index
      then s_bind (s_lift (expect (txn_to_json E t))) (\<lambda>msg.
           s_bind (send_app_gossip msg) (\<lambda>_.
           s_bind (add_pool E pick now t) (\<lambda>_. submit_all E pick now failed_index (Suc i) ts)))
      else s_bind (submit_all E pick now failed_index (Suc i) ts) (\<lambda>exist_count. s_return (Suc exist_count)))"

definition submit_transaction_batch ::
  "('d, 'x) vm_env \<Rightarrow> nat \<Rightarrow> duration \<Rightarrow> byte_string \<Rightarrow> string + (string \<times> string \<times> nat list) \<Rightarrow> ('d, 'x, rpc_res) vm_op" where
  "submit_transaction_batch E pick now data api_ret =
     (case api_ret of
        Inl e \<Rightarrow> s_return \<lparr> rr_data = [], rr_header = [], rr_error = Some e \<rparr>
      | Inr (ret_str, header_str, failed_index) \<Rightarrow>
          s_bind (s_lift (expect (txns_from_bcs E data))) (\<lambda>signed_transactions.
          s_bind (submit_all E pick now failed_index 0 signed_transactions) (\<lambda>exist_count.
          s_bind (if 0 < exist_count then s_modify notify_block_ready else s_return ()) (\<lambda>_.
            s_return \<lparr> rr_data = ret_str, rr_header = header_str, rr_error = None \<rparr>))))"

section \<open>Initialization\<close>

definition init_aptos :: "mempool_config \<Rightarrow> 'x \<Rightarrow> ('d, 'x, unit) vm_op" where
  "init_aptos config x v =
     (case unwrap (mempool_new config) of
        Inl e \<Rightarrow> (Inl e, v)
      | Inr m \<Rightarrow> (Inr (), v\<lparr> vm_aptos := Some \<lparr> ap_executor = x, ap_mempool = m \<rparr> \<rparr>))"

definition genesis_data :: aptos_data where
  "genesis_data = \<lparr> ad_block_txns = map (of_nat \<circ> of_char) ''hello world'', ad_block_id = hash_zero,
     ad_parent_block_id = hash_zero, ad_next_epoch = 0, ad_timestamp_usecs = 0 \<rparr>"

definition initialize ::
  "('d, 'x) vm_env \<Rightarrow> mempool_config \<Rightarrow> 'x \<Rightarrow> 'd io \<Rightarrow> ('d, 'x, unit) vm_op" where
  "initialize E config x db_current =
     s_bind (s_lift db_current) (\<lambda>db.
     s_bind (s_modify (\<lambda>v. v\<lparr> vm_state := Some \<lparr> ss_db = db, ss_verified_blocks = Map.empty \<rparr>,
               vm_to_engine := Some True, vm_app_sender := Some True \<rparr>)) (\<lambda>_.
     s_bind (init_aptos config x) (\<lambda>_.
     s_bind (on_state (s_gets (has_last_accepted_block (ve_chain E)))) (\<lambda>has_last_accepted.
       if has_last_accepted
       then s_bind (on_state (s_gets (get_last_accepted_block_id (ve_chain E)))) set_preference
       else s_bind (s_lift (expect (data_to_json E genesis_data))) (\<lambda>data.
            s_bind (s_lift (unwrap (snow_block_new (ve_chain E) (empty_id (ve_chain E)) 0 0 data (default_status (ve_chain E))))) (\<lambda>b.
            let genesis_block = b\<lparr> sb_state := Shared False \<rparr>
            in s_bind (block_accept E genesis_block) (\<lambda>_. set_preference (sb_id genesis_block))))))))"

end
