(* ===== verification/Subnet_Reach.thy ===== *)
theory Subnet_Reach
  imports Subnet_Vm
begin

text \<open>
  What holds of every machine that the requests of the engine, of clients and of peers lead to.

  \<^item> The locale \<open>vm_kept\<close> is the contract of a relation between the machines before and after a request; its lemmas show the
    relation for every request that leaves the chain alone. It is interpreted for \<open>same_chain\<close>, the chain does not change,
    and \<open>keeps_pool\<close>, the mempool stays one that its own operations lead to.
  \<^item> \<open>snow_reach\<close> is reachability. \<open>vm_chain_inv_reached\<close> shows the invariant of the chain and \<open>pool_reached_by\<close> that the
    theorems on the mempool hold for the mempool of the machine.
\<close>

section \<open>Relations that requests keep\<close>

lemma s_preservesD: "s_preserves R m \<Longrightarrow> R s (snd (m s))"
  by (simp add: s_preserves_def)

lemma vm_flags [simp]:
  "vm_state (update_build_block_status st v) = vm_state v" "vm_state (update_pending_tx_flag n v) = vm_state v"
  "vm_state (notify_block_ready2 v) = vm_state v" "vm_state (notify_block_ready v) = vm_state v"
  "vm_aptos (update_build_block_status st v) = vm_aptos v" "vm_aptos (update_pending_tx_flag n v) = vm_aptos v"
  "vm_aptos (notify_block_ready2 v) = vm_aptos v" "vm_aptos (notify_block_ready v) = vm_aptos v"
  by (simp_all add: update_build_block_status_def update_pending_tx_flag_def notify_block_ready2_def notify_block_ready_def)

lemma commit_user_txns_reach:
  "mempool_reach T config m \<Longrightarrow> commit_user_txns T ts m = Inr m' \<Longrightarrow> mempool_reach T config m'"
  by (induction ts arbitrary: m) (auto simp: and_then_Inr split: transaction.splits dest: reach_commit)

locale vm_kept =
  fixes E :: "('d, 'x) vm_env" and R :: "('d, 'x) vm \<Rightarrow> ('d, 'x) vm \<Rightarrow> bool"
  assumes refl_trans: "reflp R" "transp R"
    and same: "vm_state v' = vm_state v \<Longrightarrow> vm_aptos v' = vm_aptos v \<Longrightarrow> R v v'"
    and executed: "vm_state v' = vm_state v \<Longrightarrow> vm_aptos v = Some ap \<Longrightarrow> vm_aptos v' = Some (ap\<lparr> ap_executor := x \<rparr>) \<Longrightarrow> R v v'"
    and pool: "(\<And>config m m'. mempool_reach (ve_txn E) config m \<Longrightarrow> f m = Inr m' \<Longrightarrow> mempool_reach (ve_txn E) config m') \<Longrightarrow>
      s_preserves R (on_pool f)"
begin

lemma modify: "(\<And>v. vm_state (f v) = vm_state v) \<Longrightarrow> (\<And>v. vm_aptos (f v) = vm_aptos v) \<Longrightarrow> s_preserves R (s_modify f)"
  by (simp add: s_preserves_def s_modify_def same)

lemma executor: "s_preserves R (on_executor g)"
  by (auto simp: s_preserves_def on_executor_def same executed split: option.splits prod.splits)

lemma gossip: "s_preserves R (send_app_gossip msg)"
  by (simp add: s_preserves_def send_app_gossip_def same)

lemma unwrapped: "s_preserves R m \<Longrightarrow> s_preserves R (s_unwrap m)"
  by (simp add: s_preserves_def s_unwrap_def case_prod_unfold Let_def)

lemma add: "s_preserves R (add_pool E pick now t)"
  unfolding add_pool_def
proof (rule pool)
  fix config m m'
  assume "mempool_reach (ve_txn E) config m"
    and "and_then (add_txn (ve_txn E) pick now t 0 (st_sequence_number t) NonQualified True m) (\<lambda>(_, m'). Inr m') = Inr m'"
  then show "mempool_reach (ve_txn E) config m'" using reach_add [of "ve_txn E" config m NonQualified] by (auto simp: and_then_Inr)
qed

lemma bind: "s_preserves R m \<Longrightarrow> (\<And>x. s_preserves R (f x)) \<Longrightarrow> s_preserves R (s_bind m f)"
  by (rule s_preserves_bind [OF _ _ refl_trans(2)])

lemmas pure = s_preserves_pure [OF refl_trans(1)]

lemma inner: "s_preserves R (inner_build_block E data)"
  unfolding inner_build_block_def by (intro bind pure modify executor pool) (simp_all add: commit_user_txns_reach)

lemma submit: "s_preserves R (submit_transaction E pick now micro block_id checkpoint_id data ret)"
  by (cases ret) (auto simp: submit_transaction_def intro!: bind pure modify gossip unwrapped add inner)

lemma submit_each: "s_preserves R (submit_all E pick now failed i ts)"
  by (induction ts arbitrary: i) (auto intro!: bind pure gossip add)

lemma batch: "s_preserves R (submit_transaction_batch E pick now data ret)"
  by (cases ret) (auto simp: submit_transaction_batch_def intro!: bind pure modify submit_each)

lemma gossiped: "s_preserves R (app_gossip E pick now msg)"
  by (auto simp: app_gossip_def split: option.splits intro!: pure add)

lemma mode: "s_preserves R (vm_set_state m)"
  by (cases m) (auto simp: vm_set_state_def intro!: pure modify)

lemma preference: "s_preserves R (set_preference k)"
  by (auto simp: set_preference_def intro!: modify)

lemma tick: "R v (snd (check_pending_tx_step now t v))"
  by (rule same) (simp_all add: check_pending_tx_step_def split: option.splits)

end

text \<open>A relation that is kept when the state of the chain changes, too.\<close>

locale vm_kept_on_state = vm_kept +
  assumes other_state: "vm_aptos v' = vm_aptos v \<Longrightarrow> R v v'"
begin

lemma on_state: "s_preserves R (on_state m)"
  by (auto simp: s_preserves_def on_state_def other_state split: option.splits prod.splits)

lemma accept: "s_preserves R (block_accept E b)"
  by (auto simp: block_accept_def intro!: bind pure inner on_state)

lemma build: "s_preserves R (vm_build_block E now micro block_id checkpoint_id)"
proof -
  have "R v (snd (vm_build_block E now micro block_id checkpoint_id v))" for v
  proof (cases "vm_state v")
    case None
    then show ?thesis by (simp add: vm_build_block_def same)
  next
    case (Some s)
    show ?thesis
      unfolding vm_build_block_def Let_def Some option.case by (rule s_preservesD) (intro bind pure unwrapped on_state)
  qed
  then show ?thesis by (simp add: s_preserves_def)
qed

end

section \<open>The chain and the mempool of a machine\<close>

definition same_chain :: "('d, 'x) vm \<Rightarrow> ('d, 'x) vm \<Rightarrow> bool" where
  "same_chain v v' \<longleftrightarrow> vm_state v' = vm_state v"

lemma same_chain_pool: "s_preserves same_chain (on_pool f)"
  by (auto simp: same_chain_def s_preserves_def on_pool_def split: option.splits sum.splits)

interpretation chain_kept: vm_kept E same_chain for E
  by (rule vm_kept.intro) (simp_all add: same_chain_pool, simp_all add: same_chain_def reflp_def transp_def)

definition pool_ok :: "('d, 'x) vm_env \<Rightarrow> mempool_config \<Rightarrow> ('d, 'x) vm \<Rightarrow> bool" where
  "pool_ok E config v \<longleftrightarrow> (\<forall>ap. vm_aptos v = Some ap \<longrightarrow> mempool_reach (ve_txn E) config (ap_mempool ap))"

definition keeps_pool :: "('d, 'x) vm_env \<Rightarrow> ('d, 'x) vm \<Rightarrow> ('d, 'x) vm \<Rightarrow> bool" where
  "keeps_pool E v v' \<longleftrightarrow> (\<forall>config. pool_ok E config v \<longrightarrow> pool_ok E config v')"

lemma keeps_pool_on_pool:
  assumes "\<And>config m m'. mempool_reach (ve_txn E) config m \<Longrightarrow> f m = Inr m' \<Longrightarrow> mempool_reach (ve_txn E) config m'"
  shows "s_preserves (keeps_pool E) (on_pool f)"
  using assms by (auto simp: s_preserves_def on_pool_def keeps_pool_def pool_ok_def unwrap_Inr split: option.splits sum.splits)

interpretation pool_kept: vm_kept_on_state E "keeps_pool E" for E
proof (intro vm_kept_on_state.intro vm_kept.intro vm_kept_on_state_axioms.intro)
  show "reflp (keeps_pool E)" "transp (keeps_pool E)" by (auto simp: keeps_pool_def reflp_def transp_def)
qed (simp_all add: keeps_pool_on_pool, simp_all add: keeps_pool_def pool_ok_def)

section \<open>Reachable machines\<close>

text \<open>The machines that the requests of the engine, of clients and of peers lead to. The engine verifies blocks that it has
  parsed or built, and accepts and rejects blocks that it gets by their id. The block strings that occur are in \<open>B\<close>.\<close>

inductive snow_reach :: "('d, 'x) vm_env \<Rightarrow> byte_string set \<Rightarrow> ('d, 'x) vm \<Rightarrow> bool" for E B where
  snow_init: "initialize E config x (Inr db) (vm_new (ve_chain E)) = (Inr (), v) \<Longrightarrow>
    db_contents (ve_chain E) db = Map.empty \<Longrightarrow> data_to_json E genesis_data = Some data \<Longrightarrow>
    block_to_json (ve_chain E) (empty_id (ve_chain E), 0, 0, data) = Some y \<Longrightarrow>
    y \<in> B \<Longrightarrow> snow_reach E B v"
| snow_verify: "snow_reach E B v \<Longrightarrow> vm_parse_block E v bytes = Inr b \<Longrightarrow> bytes \<in> B \<Longrightarrow>
    on_state (block_verify (ve_chain E) now b) v = (r, v') \<Longrightarrow> snow_reach E B v'"
| snow_build: "snow_reach E B v \<Longrightarrow> vm_build_block E now micro block_id checkpoint_id v = (Inr b, v') \<Longrightarrow> sb_bytes b \<in> B \<Longrightarrow>
    snow_reach E B v'"
| snow_accept: "snow_reach E B v \<Longrightarrow> vm_get_block E v k = Inr b \<Longrightarrow> block_accept E b v = (r, v') \<Longrightarrow> snow_reach E B v'"
| snow_reject: "snow_reach E B v \<Longrightarrow> vm_get_block E v k = Inr b \<Longrightarrow> on_state (block_reject (ve_chain E) b) v = (r, v') \<Longrightarrow>
    snow_reach E B v'"
| snow_set_preference: "snow_reach E B v \<Longrightarrow> set_preference k v = (r, v') \<Longrightarrow> snow_reach E B v'"
| snow_set_state: "snow_reach E B v \<Longrightarrow> vm_set_state m v = (r, v') \<Longrightarrow> snow_reach E B v'"
| snow_submit: "snow_reach E B v \<Longrightarrow> submit_transaction E pick now micro block_id checkpoint_id data ret v = (r', v') \<Longrightarrow> snow_reach E B v'"
| snow_batch: "snow_reach E B v \<Longrightarrow> submit_transaction_batch E pick now data ret' v = (r', v') \<Longrightarrow> snow_reach E B v'"
| snow_gossip: "snow_reach E B v \<Longrightarrow> app_gossip E pick now msg v = (r, v') \<Longrightarrow> snow_reach E B v'"
| snow_tick: "snow_reach E B v \<Longrightarrow> check_pending_tx_step now' t v = (r'', v') \<Longrightarrow> snow_reach E B v'"

definition vm_chain_inv :: "('d, 'x) vm_env \<Rightarrow> byte_string set \<Rightarrow> ('d, 'x) vm \<Rightarrow> bool" where
  "vm_chain_inv E B v \<longleftrightarrow> (\<forall>s. vm_state v = Some s \<longrightarrow> chain_inv (ve_chain E) B s)"

lemma vm_chain_inv_same: "s_preserves same_chain m \<Longrightarrow> m v = (r, v') \<Longrightarrow> vm_chain_inv E B v \<Longrightarrow> vm_chain_inv E B v'"
  by (auto simp: s_preserves_def same_chain_def vm_chain_inv_def dest: spec [of _ v])

lemma vm_chain_inv_on_state:
  assumes "on_state m v = (r, v')" "vm_chain_inv E B v"
    and "\<And>s r s'. vm_state v = Some s \<Longrightarrow> m s = (r, s') \<Longrightarrow> keeps_chain (ve_chain E) B s s'"
  shows "vm_chain_inv E B v'"
proof (cases "vm_state v")
  case None
  then show ?thesis using assms(1,2) by (simp add: on_state_def)
next
  case (Some s)
  obtain q s' where q: "m s = (q, s')" by fastforce
  then have "vm_state v' = Some s'" using assms(1) Some by (auto simp: on_state_def)
  then show ?thesis using assms(3) [OF Some q] assms(2) Some by (simp add: vm_chain_inv_def keeps_chain_def)
qed

lemma named_parsed:
  assumes E: "snow_env_ok (ve_chain E)" and inv: "vm_chain_inv E B v"
    and b: "vm_parse_block E v bytes = Inr b" and B: "bytes \<in> B"
  shows "named (ve_chain E) B (sb_id b) (sb_fields b)"
proof -
  let ?C = "ve_chain E"
  obtain s where s: "vm_state v = Some s" using b by (auto simp: vm_parse_block_def split: option.splits)
  then have inv': "chain_inv ?C B s" using inv by (simp add: vm_chain_inv_def)
  from b s obtain p h t d where f: "block_from_json ?C bytes = Some (p, h, t, d)"
    by (auto simp: vm_parse_block_def block_from_slice_def json_result_def and_then_Inr ok_or_Inr)
  define b0 where "b0 = \<lparr> sb_parent_id = p, sb_height = h, sb_timestamp = t, sb_data = d, sb_status = Processing_Status,
    sb_bytes = bytes, sb_id = sha256 ?C bytes, sb_state = Shared True \<rparr>"
  have "b = b0 \<or> state_get_block ?C s (sha256 ?C bytes) = Inr b"
    using b s f by (auto simp: b0_def vm_parse_block_def block_from_slice_def json_result_def ok_or_def Let_def split: sum.splits fault.splits)
  then show ?thesis
  proof
    assume "b = b0"
    then show ?thesis using f B by (auto simp: named_def sb_fields_def b0_def)
  next
    assume "state_get_block ?C s (sha256 ?C bytes) = Inr b"
    from get_block_known [OF E this] show ?thesis using inv' by (auto simp: chain_inv_def)
  qed
qed

lemma placed_got:
  assumes E: "snow_env_ok (ve_chain E)" and inv: "vm_chain_inv E B v" and b: "vm_get_block E v k = Inr b" and s: "vm_state v = Some s"
  shows "placed (ve_chain E) B s b"
proof -
  obtain b0 where b0: "state_get_block (ve_chain E) s k = Inr b0" "b = b0\<lparr> sb_state := Shared True \<rparr>"
    using b s by (auto simp: vm_get_block_def and_then_Inr)
  have "placed (ve_chain E) B s b0"
    using get_block_known [OF E b0(1)] inv s by (auto simp: placed_def vm_chain_inv_def chain_inv_def)
  then show ?thesis using b0(2) by simp
qed

lemma block_new_fields:
  assumes "snow_block_new E p h t d st = Inr b"
  shows "sb_fields b = (p, h, t, d)" "block_to_json E (p, h, t, d) = Some (sb_bytes b)" "sb_id b = sha256 E (sb_bytes b)"
  using assms by (auto simp: snow_block_new_def to_slice_def json_result_def and_then_Inr ok_or_Inr sb_fields_def Let_def)

lemma named_new:
  assumes "codec_laws E" "snow_block_new E p h t d st = Inr b" "sb_bytes b \<in> B"
  shows "named E B (sb_id b) (sb_fields b)"
proof -
  note n = block_new_fields [OF assms(2)]
  have "block_from_json E (sb_bytes b) = Some (sb_fields b)" using assms(1) n unfolding codec_laws_def by metis
  then show ?thesis using n(3) assms(3) by (auto simp: named_def)
qed

lemma vm_chain_inv_accept:
  assumes E: "snow_env_ok (ve_chain E)" and cf: "collision_free (ve_chain E) B" and inv: "vm_chain_inv E B v"
    and b: "\<And>s. vm_state v = Some s \<Longrightarrow> placed (ve_chain E) B s b" and acc: "block_accept E b v = (r, v')"
  shows "vm_chain_inv E B v'"
proof -
  define m where "m = (if sb_state b = Shared True then inner_build_block E (sb_data b) else s_return ())"
  have pres: "s_preserves same_chain m" by (auto simp: m_def intro: chain_kept.inner chain_kept.pure)
  obtain q w where q: "m v = (q, w)" by fastforce
  have st: "vm_state w = vm_state v" using pres q by (auto simp: s_preserves_def same_chain_def dest: spec [of _ v])
  have inv1: "vm_chain_inv E B w" using inv st by (simp add: vm_chain_inv_def)
  show ?thesis
  proof (cases q)
    case (Inl e)
    then show ?thesis using acc q inv1 by (simp add: block_accept_def m_def [symmetric] s_bind_def)
  next
    case (Inr u)
    then have "on_state (block_accepted (ve_chain E) b) w = (r, v')" using acc q by (simp add: block_accept_def m_def [symmetric] s_bind_def)
    then show ?thesis
      by (rule vm_chain_inv_on_state [OF _ inv1])
         (use st b inv1 block_accepted_keeps [OF E cf] in \<open>auto simp: vm_chain_inv_def\<close>)
  qed
qed

lemma vm_chain_inv_initial:
  assumes E: "snow_env_ok (ve_chain E)" and cf: "collision_free (ve_chain E) B"
    and init: "initialize E config x (Inr db) w = (Inr (), v)" and fresh: "db_contents (ve_chain E) db = Map.empty"
    and data: "data_to_json E genesis_data = Some data"
    and y: "block_to_json (ve_chain E) (empty_id (ve_chain E), 0, 0, data) = Some y" "y \<in> B"
  shows "vm_chain_inv E B v"
proof -
  let ?C = "ve_chain E"
  define s where "s = \<lparr> ss_db = db, ss_verified_blocks = Map.empty \<rparr>"
  have inv: "chain_inv ?C B s" by (simp add: s_def chain_inv_def known_def stored_block_def fresh)
  have from_s: "vm_chain_inv E B u" if "vm_state u = Some s" for u :: "('a, 'b) vm"
    using that inv by (simp add: vm_chain_inv_def)
  show ?thesis
  proof (cases "has_last_accepted_block ?C s = Inr True")
    case True
    then have "vm_state v = Some s" using init
      by (auto simp: initialize_def s_bind_def s_lift_def s_modify_def init_aptos_def on_state_def s_gets_def set_preference_def s_def
          split: sum.splits)
    then show ?thesis by (rule from_s)
  next
    case False
    obtain b where b: "snow_block_new ?C (empty_id ?C) 0 0 data (default_status ?C) = Inr b"
      using y(1) by (auto simp: snow_block_new_def to_slice_def json_result_def ok_or_def sb_fields_def)
    define g where "g = b\<lparr> sb_state := Shared False \<rparr>"
    obtain m where m: "mempool_new config = Inr m" using init
      by (auto simp: initialize_def s_bind_def s_lift_def s_modify_def init_aptos_def unwrap_Inr split: sum.splits)
    define u where "u = w\<lparr> vm_to_engine := Some True, vm_app_sender := Some True,
      vm_aptos := Some \<lparr> ap_executor = x, ap_mempool = m \<rparr>, vm_state := Some s \<rparr>"
    obtain r u' where u: "block_accept E g u = (r, u')" "vm_state v = vm_state u'"
      using init False b m data
      by (auto simp: initialize_def s_bind_def s_lift_def s_modify_def init_aptos_def on_state_def s_gets_def set_preference_def s_def
          g_def u_def Let_def unwrap_Inr expect_Inr split: sum.splits prod.splits)
    have us: "vm_state u = Some s" by (simp add: u_def)
    have f: "sb_bytes b = y" "sb_fields b = (empty_id ?C, 0, 0, data)"
      using block_new_fields [OF b] y(1) by simp_all
    have "placed ?C B s g"
      using named_new [OF _ b, of B] E y(2) f by (simp add: g_def placed_def linked_def genesis_like_def sb_fields_def snow_env_ok_def)
    then have "vm_chain_inv E B u'" using vm_chain_inv_accept [OF E cf from_s [OF us] _ u(1)] us by simp
    then show ?thesis using u(2) by (simp add: vm_chain_inv_def)
  qed
qed

lemma vm_chain_inv_built:
  assumes E: "snow_env_ok (ve_chain E)" and cf: "collision_free (ve_chain E) B" and inv: "vm_chain_inv E B v"
    and b: "vm_build_block E now micro block_id checkpoint_id v = (Inr b, v')" "sb_bytes b \<in> B"
  shows "vm_chain_inv E B v'"
proof -
  obtain p h d b0 r where n: "snow_block_new (ve_chain E) p h now d Processing_Status = Inr b0" "b = b0\<lparr> sb_state := Shared False \<rparr>"
    "on_state (block_verify (ve_chain E) now b) v = (r, v')"
    using b(1) by (auto simp: vm_build_block_def s_bind_def s_lift_def s_unwrap_def s_return_def unwrap_Inr Let_def
        split: option.splits sum.splits prod.splits)
  have "named (ve_chain E) B (sb_id b) (sb_fields b)"
    using named_new [OF _ n(1), of B] E b(2) n(2) by (simp add: snow_env_ok_def sb_fields_def)
  then show ?thesis by (rule vm_chain_inv_on_state [OF n(3) inv block_verify_keeps [OF E cf]])
qed

lemma vm_chain_inv_reached:
  assumes E: "snow_env_ok (ve_chain E)" and cf: "collision_free (ve_chain E) B" and "snow_reach E B v"
  shows "vm_chain_inv E B v"
  using assms(3)
proof induction
  case (snow_init config x db v data y)
  then show ?case by (rule vm_chain_inv_initial [OF E cf])
next
  case (snow_verify v bytes b now r v')
  have "named (ve_chain E) B (sb_id b) (sb_fields b)" by (rule named_parsed [OF E snow_verify.IH snow_verify(2,3)])
  then show ?case by (rule vm_chain_inv_on_state [OF snow_verify(4) snow_verify.IH block_verify_keeps [OF E cf]])
next
  case (snow_build v now micro block_id checkpoint_id b v')
  show ?case by (rule vm_chain_inv_built [OF E cf snow_build.IH snow_build(2,3)])
next
  case (snow_accept v k b r v')
  show ?case by (rule vm_chain_inv_accept [OF E cf snow_accept.IH placed_got [OF E snow_accept.IH snow_accept(2)] snow_accept(3)])
next
  case (snow_reject v k b r v')
  show ?case
    by (rule vm_chain_inv_on_state [OF snow_reject(3) snow_reject.IH block_reject_keeps [OF E cf]])
       (use snow_reject placed_got [OF E snow_reject.IH] in \<open>auto simp: vm_chain_inv_def\<close>)
next
  case (snow_tick v now' t r v')
  then have "vm_state v' = vm_state v" using chain_kept.tick [of v now' t] by (simp add: same_chain_def)
  then show ?case using snow_tick.IH by (simp add: vm_chain_inv_def)
next
  case (snow_set_preference v k r v')
  show ?case by (rule vm_chain_inv_same [OF chain_kept.preference snow_set_preference(2) snow_set_preference.IH])
next
  case (snow_set_state v m r v')
  show ?case by (rule vm_chain_inv_same [OF chain_kept.mode snow_set_state(2) snow_set_state.IH])
next
  case snow_submit
  show ?case by (rule vm_chain_inv_same [OF chain_kept.submit snow_submit(2) snow_submit.IH])
next
  case snow_batch
  show ?case by (rule vm_chain_inv_same [OF chain_kept.batch snow_batch(2) snow_batch.IH])
next
  case snow_gossip
  show ?case by (rule vm_chain_inv_same [OF chain_kept.gossiped snow_gossip(2) snow_gossip.IH])
qed

lemma keeps_pool_step:
  "s_preserves (keeps_pool E) m \<Longrightarrow> m v = (r, v') \<Longrightarrow> pool_ok E config v \<Longrightarrow> pool_ok E config v'"
  by (auto simp: s_preserves_def keeps_pool_def dest!: spec [of _ v])

text \<open>The mempool of a machine is one that its own operations lead to.\<close>

lemma pool_ok_initial:
  assumes "initialize E config x r v = (r', v')" "vm_aptos v = None"
  shows "pool_ok E config v'"
proof -
  have init: "pool_ok E config (snd (init_aptos config x w))" if "vm_aptos w = None" for w :: "('a, 'b) vm"
    using that by (auto simp: init_aptos_def pool_ok_def unwrap_Inr split: sum.splits intro: reach_new)
  have rest: "pool_ok E config (snd (s_bind (init_aptos config x) f w))"
    if "vm_aptos w = None" "\<And>u. s_preserves (keeps_pool E) (f u)" for w :: "('a, 'b) vm" and f :: "unit \<Rightarrow> ('a, 'b, unit) vm_op"
  proof (cases "init_aptos config x w")
    case (Pair q u)
    then have "pool_ok E config u" using init [OF that(1)] by simp
    then show ?thesis using Pair that(2)
      by (auto simp: s_bind_def s_preserves_def keeps_pool_def split: sum.splits)
  qed
  show ?thesis
  proof (cases r)
    case (Inl e)
    then show ?thesis using assms by (auto simp: initialize_def s_bind_def s_lift_def pool_ok_def)
  next
    case (Inr db)
    let ?w = "v\<lparr> vm_state := Some \<lparr> ss_db = db, ss_verified_blocks = Map.empty \<rparr>, vm_to_engine := Some True, vm_app_sender := Some True \<rparr>"
    have "vm_aptos ?w = None" using assms(2) by simp
    then have "pool_ok E config (snd (initialize E config x (Inr db) v))"
      by (simp add: initialize_def s_bind_def [of "s_lift _"] s_bind_def [of "s_modify _"] s_lift_def s_modify_def)
         (rule rest, simp_all, auto simp: Let_def intro!: pool_kept.bind pool_kept.pure pool_kept.on_state pool_kept.accept pool_kept.preference)
    then show ?thesis using assms(1) Inr by simp
  qed
qed

lemma pool_reached_by:
  assumes "snow_reach E B v"
  shows "\<exists>config. pool_ok E config v"
  using assms
proof induction
  case (snow_init config x db v data y)
  have "vm_aptos (vm_new (ve_chain E)) = None" by (simp add: vm_new_def)
  from pool_ok_initial [OF snow_init(1) this] show ?case ..
next
  case (snow_verify v bytes b now r v')
  then show ?case by (auto elim: keeps_pool_step [OF pool_kept.on_state])
next
  case (snow_build v now micro block_id checkpoint_id b v')
  then show ?case by (auto elim: keeps_pool_step [OF pool_kept.build])
next
  case (snow_accept v k b r v')
  then show ?case by (auto elim: keeps_pool_step [OF pool_kept.accept])
next
  case (snow_reject v k b r v')
  then show ?case by (auto elim: keeps_pool_step [OF pool_kept.on_state])
next
  case (snow_set_preference v k r v')
  then show ?case by (auto elim: keeps_pool_step [OF pool_kept.preference])
next
  case (snow_set_state v m r v')
  then show ?case by (auto elim: keeps_pool_step [OF pool_kept.mode])
next
  case snow_submit
  then show ?case by (auto elim: keeps_pool_step [OF pool_kept.submit])
next
  case snow_batch
  then show ?case by (auto elim: keeps_pool_step [OF pool_kept.batch])
next
  case snow_gossip
  then show ?case by (auto elim: keeps_pool_step [OF pool_kept.gossiped])
next
  case (snow_tick v now' t r v')
  then show ?case using pool_kept.tick [of E v now' t] by (auto simp: keeps_pool_def)
qed

end
