(* ===== verification/Subnet_Props.thy ===== *)
theory Subnet_Props
  imports Subnet_Reach
begin

text \<open>
  The properties of the subnet: of the chain of blocks, of building and accepting blocks, of the mempool and of the
  notifications, each with an instance on a small network whose environment is written out.
\<close>

section \<open>Properties of the chain\<close>

text \<open>The ancestor of a block, so many steps back.\<close>

primrec ancestor :: "'d snow_env \<Rightarrow> 'd snow_state \<Rightarrow> snow_block \<Rightarrow> nat \<Rightarrow> snow_block option" where
  "ancestor E s b 0 = Some b"
| "ancestor E s b (Suc n) = (case ancestor E s b n of None \<Rightarrow> None | Some a \<Rightarrow> known E s (sb_parent_id a))"

lemma linked_parent:
  assumes "linked E s b" "sb_height b \<noteq> 0"
  obtains p where "known E s (sb_parent_id b) = Some p" "unat (sb_height b) = unat (sb_height p) + 1" "sb_timestamp p \<le> sb_timestamp b"
  using assms by (auto simp: linked_def genesis_like_def)

lemma ancestors:
  assumes inv: "chain_inv E B s" and b: "linked E s b" and n: "n \<le> unat (sb_height b)"
  shows "\<exists>a. ancestor E s b n = Some a \<and> linked E s a \<and> unat (sb_height a) + n = unat (sb_height b) \<and> sb_timestamp a \<le> sb_timestamp b"
  using n
proof (induction n)
  case 0
  show ?case using b by simp
next
  case (Suc n)
  then obtain a where a: "ancestor E s b n = Some a" "linked E s a" "unat (sb_height a) + n = unat (sb_height b)"
    "sb_timestamp a \<le> sb_timestamp b" by auto
  then have "unat (sb_height a) \<noteq> 0" using Suc.prems by linarith
  then have "sb_height a \<noteq> 0" by auto
  from linked_parent [OF a(2) this] obtain p where
    "known E s (sb_parent_id a) = Some p" "unat (sb_height a) = unat (sb_height p) + 1" "sb_timestamp p \<le> sb_timestamp a" .
  then show ?case using a inv by (auto simp: chain_inv_def)
qed

text \<open>C15. The blocks a node keeps form chains from a genesis block. In every machine that requests lead to, provided no two of
  the block strings seen collide under SHA-256, a block that \<open>get_block\<close> returns has its whole line of ancestors in the state:
  \<open>n\<close> steps back along the parent ids is a block that is \<open>n\<close> lower and not newer, and after as many steps as the block is high
  comes one of height 0 without a parent.\<close>

theorem subnet_chain_ancestry:
  assumes "snow_env_ok (ve_chain E)" "collision_free (ve_chain E) B" "snow_reach E B v" "vm_state v = Some s"
    and "vm_get_block E v k = Inr b"
  shows "(\<forall>n \<le> unat (sb_height b). \<exists>a. ancestor (ve_chain E) s b n = Some a \<and> unat (sb_height a) = unat (sb_height b) - n \<and>
      sb_timestamp a \<le> sb_timestamp b) \<and>
    (\<exists>g. ancestor (ve_chain E) s b (unat (sb_height b)) = Some g \<and> genesis_like (ve_chain E) g)"
proof -
  let ?C = "ve_chain E"
  have vinv: "vm_chain_inv E B v" by (rule vm_chain_inv_reached [OF assms(1-3)])
  then have inv: "chain_inv ?C B s" using assms(4) by (simp add: vm_chain_inv_def)
  have l: "linked ?C s b" using placed_got [OF assms(1) vinv assms(5,4)] by (simp add: placed_def)
  note anc = ancestors [OF inv l]
  from anc [OF order_refl] obtain g where g: "ancestor ?C s b (unat (sb_height b)) = Some g" "linked ?C s g" "sb_height g = 0"
    by (auto simp: unat_eq_0)
  then have "genesis_like ?C g" by (auto simp: linked_def)
  then show ?thesis using anc g(1) by fastforce
qed

lemma named_known:
  assumes "collision_free E B" "chain_inv E B s" "known E s k = Some c" "named E B k f"
  shows "sb_fields c = f"
  using assms named_unique [OF assms(1)] unfolding chain_inv_def by blast

lemma built_block:
  assumes "vm_build_block E now micro block_id checkpoint_id v = (Inr b, v')" "vm_state v = Some s"
  obtains p b0 s' where "state_get_block (ve_chain E) s (vm_preferred v) = Inr p"
    "build_block_data E micro block_id checkpoint_id v = Inr (sb_data b)"
    "unat (sb_height b) = unat (sb_height p) + 1" "sb_parent_id b = sb_id p" "sb_timestamp b = now"
    "snow_block_new (ve_chain E) (sb_id p) (sb_height b) now (sb_data b) Processing_Status = Inr b0" "b = b0\<lparr> sb_state := Shared False \<rparr>"
    "block_verify (ve_chain E) now b s = (Inr (), s')" "v' = v\<lparr> vm_state := Some s' \<rparr>"
proof -
  from assms obtain p d h b0 s' where *: "state_get_block (ve_chain E) s (vm_preferred v) = Inr p"
    "build_block_data E micro block_id checkpoint_id v = Inr d" "checked_add (sb_height p) 1 = Some h"
    "snow_block_new (ve_chain E) (sb_id p) h now d Processing_Status = Inr b0" "b = b0\<lparr> sb_state := Shared False \<rparr>"
    "block_verify (ve_chain E) now b s = (Inr (), s')" "v' = v\<lparr> vm_state := Some s' \<rparr>"
    by (auto simp: vm_build_block_def s_bind_def s_lift_def s_unwrap_def s_return_def unwrap_Inr expect_Inr on_state_def Let_def
        split: sum.splits prod.splits)
  have f: "sb_fields b = (sb_id p, h, now, d)" using block_new_fields(1) [OF *(4)] *(5) by (simp add: sb_fields_def)
  show ?thesis
    by (rule that [OF *(1) _ _ _ _ _ *(5,6,7)]) (use * f in \<open>auto simp: sb_fields_def checked_add_Some\<close>)
qed

lemma verify_shared:
  assumes "sb_state b = Shared r"
  shows "block_verify E now b s =
    (if genesis_like E b then (Inr (), s\<lparr> ss_verified_blocks := (ss_verified_blocks s)(sb_id b \<mapsto> b) \<rparr>)
     else if is_ok (state_get_block E s (sb_id b)) then (Inr (), s)
     else case state_get_block E s (sb_parent_id b) of
       Inl e \<Rightarrow> (Inl e, s)
     | Inr p \<Rightarrow> (case verify_parent now b p of
         Inl e \<Rightarrow> (Inl e, s)
       | Inr _ \<Rightarrow> (Inr (), s\<lparr> ss_verified_blocks := (ss_verified_blocks s)(sb_id b \<mapsto> b) \<rparr>)))"
  using assms by (simp add: block_verify_def with_state_def genesis_like_def add_verified_def s_modify_def s_bind_def s_lift_def
      split: sum.splits)

text \<open>A block that has been verified is known.\<close>

lemma verified_known:
  assumes "snow_env_ok E" "sb_state b = Shared r" "block_verify E now b s = (Inr (), s')"
  shows "known E s' (sb_id b) \<noteq> None"
  using assms get_block_known [OF assms(1), of s "sb_id b"]
  by (auto simp: verify_shared known_def is_ok_def split: if_splits sum.splits)

lemma built_known:
  assumes E: "snow_env_ok (ve_chain E)" and cf: "collision_free (ve_chain E) B" and inv: "chain_inv (ve_chain E) B s"
    and b: "snow_block_new (ve_chain E) p h now d Processing_Status = Inr b0" "b = b0\<lparr> sb_state := Shared False \<rparr>" "sb_bytes b \<in> B"
    and ver: "block_verify (ve_chain E) now b s = (Inr (), s')"
  shows "chain_inv (ve_chain E) B s'" "\<exists>c. known (ve_chain E) s' (sb_id b) = Some c \<and> sb_fields c = sb_fields b \<and> linked (ve_chain E) s' b"
proof -
  let ?C = "ve_chain E"
  have n: "named ?C B (sb_id b) (sb_fields b)"
    using named_new [OF _ b(1), of B] E b by (simp add: snow_env_ok_def sb_fields_def)
  show inv': "chain_inv ?C B s'" using block_verify_keeps [OF E cf n ver] inv by (simp add: keeps_chain_def)
  obtain c where c: "known ?C s' (sb_id b) = Some c" using verified_known [OF E _ ver] b(2) by fastforce
  have f: "sb_fields c = sb_fields b" by (rule named_known [OF cf inv' c n])
  have "linked ?C s' c" using inv' c by (auto simp: chain_inv_def)
  then have "linked ?C s' b" using linked_extends [OF extends_refl f [symmetric]] by blast
  then show "\<exists>c. known ?C s' (sb_id b) = Some c \<and> sb_fields c = sb_fields b \<and> linked ?C s' b" using c f by blast
qed

text \<open>C16. What a node builds, the others verify. A block that \<open>build_block\<close> returns has the preferred block as its parent, is one
  higher, has the current time, holds the data built from the mempool, and passes \<open>verify\<close> at every node that has that parent
  and whose clock is not an hour or more behind.\<close>

theorem built_block_verifies:
  assumes "snow_env_ok (ve_chain E)" "collision_free (ve_chain E) B" "snow_reach E B v" "vm_state v = Some s"
    and "vm_build_block E now micro block_id checkpoint_id v = (Inr b, v')" "sb_bytes b \<in> B"
  shows "\<exists>p. state_get_block (ve_chain E) s (vm_preferred v) = Inr p \<and> sb_parent_id b = sb_id p \<and>
    unat (sb_height b) = unat (sb_height p) + 1 \<and> sb_timestamp b = now \<and>
    build_block_data E micro block_id checkpoint_id v = Inr (sb_data b) \<and>
    (\<forall>t q now'. state_get_block (ve_chain E) t (sb_parent_id b) = Inr q \<longrightarrow> sb_fields q = sb_fields p \<longrightarrow>
       unat now < unat now' + 3600 \<longrightarrow> fst (block_verify (ve_chain E) now' (b\<lparr> sb_state := Shared True \<rparr>) t) = Inr ())"
proof -
  let ?C = "ve_chain E"
  obtain p b0 s' where p: "state_get_block ?C s (vm_preferred v) = Inr p"
    "build_block_data E micro block_id checkpoint_id v = Inr (sb_data b)"
    "unat (sb_height b) = unat (sb_height p) + 1" "sb_parent_id b = sb_id p" "sb_timestamp b = now"
    and b0: "snow_block_new ?C (sb_id p) (sb_height b) now (sb_data b) Processing_Status = Inr b0" "b = b0\<lparr> sb_state := Shared False \<rparr>"
    and ver: "block_verify ?C now b s = (Inr (), s')" by (rule built_block [OF assms(5,4)])
  have inv: "chain_inv ?C B s" using vm_chain_inv_reached [OF assms(1-3)] assms(4) by (simp add: vm_chain_inv_def)
  note k = built_known [OF assms(1,2) inv b0 assms(6) ver]
  have np: "named ?C B (sb_id p) (sb_fields p)" using get_block_known [OF assms(1) p(1)] inv by (auto simp: chain_inv_def)
  have nz: "sb_height b \<noteq> 0" using p(3) by auto
  obtain p' where p': "known ?C s' (sb_parent_id b) = Some p'" "sb_timestamp p' \<le> sb_timestamp b"
    using k(2) linked_parent [OF _ nz] by metis
  have "sb_fields p' = sb_fields p" using named_known [OF assms(2) k(1) p'(1)] np p(4) by simp
  then have t: "sb_timestamp p \<le> now" using p'(2) p(5) by (simp add: sb_fields_def)
  have "fst (block_verify ?C now' (b\<lparr> sb_state := Shared True \<rparr>) t) = Inr ()"
    if "state_get_block ?C t (sb_parent_id b) = Inr q" "sb_fields q = sb_fields p" "unat now < unat now' + 3600" for t q now'
  proof -
    have "verify_parent now' (b\<lparr> sb_state := Shared True \<rparr>) q = Inr ()"
      using that(2,3) p(3,5) t by (simp add: verify_parent_ok sb_fields_def)
    then show ?thesis using that(1) by (simp add: verify_shared)
  qed
  then show ?thesis using p by blast
qed


text \<open>C37. A decided block does not verify again. When the engine parses a block that is in the database and no longer in memory,
  the machine returns the stored block, whose state is not the machine's; unless it is a genesis block, \<open>verify\<close> finds nothing
  there and fails with \<open>NotFound\<close>.\<close>

theorem stored_block_not_reverified:
  assumes "snow_env_ok (ve_chain E)" "vm_state v = Some s" "vm_parse_block E v bytes = Inr b"
    and "ss_verified_blocks s (sha256 (ve_chain E) bytes) = None" "is_ok (state_get_block (ve_chain E) s (sha256 (ve_chain E) bytes))"
    and "\<not> genesis_like (ve_chain E) b"
  shows "on_state (block_verify (ve_chain E) now b) v = (Inl (Err NotFound), v)"
proof -
  let ?C = "ve_chain E"
  obtain prev where prev: "state_get_block ?C s (sha256 ?C bytes) = Inr prev" using assms(5) by (auto simp: is_ok_def split: sum.splits)
  have "b = prev" using assms(2,3) prev
    by (auto simp: vm_parse_block_def block_from_slice_def and_then_Inr json_result_def ok_or_Inr Let_def)
  then have det: "sb_state b = Detached"
    using prev assms(4) by (auto simp: state_get_block_def and_then_Inr decode_stored_def block_from_slice_def)
  have "state_get_block ?C (snow_state_default ?C) k = Inl (Err NotFound)" for k
    using assms(1) by (simp add: snow_env_ok_def db_laws_def state_get_block_def snow_state_default_def)
  then show ?thesis using assms(2,6) det
    by (auto simp: on_state_def block_verify_def with_state_def genesis_like_def s_bind_def s_lift_def is_ok_def)
qed

text \<open>The database answers every read.\<close>

definition db_reads :: "'d snow_env \<Rightarrow> bool" where
  "db_reads E \<longleftrightarrow>
     (\<forall>d k. db_get E d k = (case db_contents E d k of None \<Rightarrow> Inl (Err NotFound) | Some x \<Rightarrow> Inr x))"

lemma written_read:
  assumes "db_reads E" "decode_stored E y = Inr c" "db_contents E (ss_db s) (block_with_status_key E k) = Some y"
    and "ss_verified_blocks s k = None"
  shows "state_get_block E s k = Inr c"
  using assms by (simp add: state_get_block_def db_reads_def)

lemma block_accepted_Inr:
  assumes "block_accepted E b s = (Inr b', s')" "sb_state b = Shared r"
  obtains x y s1 s2 where "block_to_json E (sb_fields b) = Some x" "stored_to_json E (x, Accepted_Status) = Some y"
    "state_put E (block_with_status_key E (sb_id b)) y s = (Inr (), s1)"
    "state_put E LAST_ACCEPTED_BLOCK_KEY (id_to_vec E (sb_id b)) s1 = (Inr (), s2)"
    "s' = s2\<lparr> ss_verified_blocks := (ss_verified_blocks s2)(sb_id b := None) \<rparr>"
  using assms
  by (auto simp: block_accepted_def Let_def with_state_def s_bind_Inr write_block_def s_lift_def to_slice_def stored_encode_def
      json_result_def ok_or_Inr set_last_accepted_block_def remove_verified_def s_modify_def s_return_def sb_fields_def)

text \<open>C17. Accepting a block and reading it back. After \<open>accept\<close> on a database that answers, the block is the last accepted one,
  \<open>get_block\<close> gives it with status accepted, and every other block as before. What is given has the bytes and the id of the
  node's own encoding: the block itself if it was received in that encoding, and a block with another id if not.\<close>

theorem accepted_block_reads_back:
  assumes "snow_env_ok (ve_chain E)" "db_reads (ve_chain E)" "block_accept E b v = (Inr b', v')" "sb_state b = Shared r"
    and "block_to_json (ve_chain E) (sb_fields b) = Some x"
  shows "last_accepted E v' = Inr (sb_id b) \<and>
    vm_get_block E v' k =
      (if k = sb_id b
       then Inr (b\<lparr> sb_status := Accepted_Status, sb_bytes := x, sb_id := sha256 (ve_chain E) x, sb_state := Shared True \<rparr>)
       else vm_get_block E v k)"
proof -
  let ?C = "ve_chain E"
  have codec: "codec_laws ?C" using assms(1) by (simp add: snow_env_ok_def)
  define m where "m = (if sb_state b = Shared True then inner_build_block E (sb_data b) else s_return ())"
  have pres: "s_preserves same_chain m" by (auto simp: m_def intro: chain_kept.inner chain_kept.pure)
  from assms(3) obtain u w where w: "m v = (Inr u, w)" "on_state (block_accepted ?C b) w = (Inr b', v')"
    unfolding block_accept_def m_def [symmetric] s_bind_Inr by blast
  have st: "vm_state w = vm_state v" using pres w(1) by (auto simp: s_preserves_def same_chain_def dest: spec [of _ v])
  obtain s where s: "vm_state v = Some s" using w(2) st by (auto simp: on_state_def split: option.splits)
  obtain s' where s': "block_accepted ?C b s = (Inr b', s')" "vm_state v' = Some s'"
    using w(2) s st by (auto simp: on_state_def split: prod.splits)
  obtain y s1 s2 where y: "stored_to_json ?C (x, Accepted_Status) = Some y"
    and p1: "state_put ?C (block_with_status_key ?C (sb_id b)) y s = (Inr (), s1)"
    and p2: "state_put ?C LAST_ACCEPTED_BLOCK_KEY (id_to_vec ?C (sb_id b)) s1 = (Inr (), s2)"
    and fin: "s' = s2\<lparr> ss_verified_blocks := (ss_verified_blocks s2)(sb_id b := None) \<rparr>"
    using block_accepted_Inr [OF s'(1) assms(4)] assms(5) by (metis option.inject)
  note c = state_put_cases [OF assms(1) p1] state_put_cases [OF assms(1) p2]
  have db: "db_contents ?C (ss_db s') =
      (db_contents ?C (ss_db s))(block_with_status_key ?C (sb_id b) \<mapsto> y, LAST_ACCEPTED_BLOCK_KEY \<mapsto> id_to_vec ?C (sb_id b))"
    using c(2,4) fin by simp
  have ver: "ss_verified_blocks s' = (ss_verified_blocks s)(sb_id b := None)" using c(1,3) fin by simp
  have "decode_stored ?C y = Inr (stored_form ?C x (b\<lparr> sb_status := Accepted_Status \<rparr>))"
    using decode_encoded [OF codec _ _, of "b\<lparr> sb_status := Accepted_Status \<rparr>" x y] y assms(5) by (simp add: sb_fields_def)
  then have get: "state_get_block ?C s' (sb_id b) = Inr (stored_form ?C x (b\<lparr> sb_status := Accepted_Status \<rparr>))"
    by (rule written_read [OF assms(2)]) (simp_all add: db ver)
  have other: "state_get_block ?C s' k = state_get_block ?C s k" if "k \<noteq> sb_id b"
    using that assms(2) codec by (simp add: state_get_block_def db ver db_reads_def status_key_inj cong: option.case_cong)
  have "last_accepted E v' = Inr (sb_id b)"
    using assms(2) codec s'(2) by (simp add: last_accepted_def get_last_accepted_block_id_def db_reads_def db codec_laws_def)
  then show ?thesis using get other s s'(2) by (simp add: vm_get_block_def stored_form_def)
qed

section \<open>Properties of block execution\<close>

text \<open>What \<open>serde_json\<close> has encoded decodes to the value.\<close>

definition json_laws :: "('d, 'x) vm_env \<Rightarrow> bool" where
  "json_laws E \<longleftrightarrow>
     (\<forall>d x. data_to_json E d = Some x \<longrightarrow> data_from_json E x = Some d) \<and>
     (\<forall>ts x. txns_to_json E ts = Some x \<longrightarrow> txns_from_json E x = Some ts)"

lemma commit_user_txns_get:
  assumes "mempool_reach T config m" "commit_user_txns T ts m = Inr m'"
  shows "store_get (mp_transactions m') a n =
    (if \<exists>u. UserTransaction u \<in> set ts \<and> st_sender u = a \<and> n \<le> st_sequence_number u then None else store_get (mp_transactions m) a n)"
  using assms
proof (induction ts arbitrary: m)
  case (Cons t ts)
  show ?case
  proof (cases t)
    case (UserTransaction u)
    then obtain m1 where m1: "commit_transaction T (st_sender u) (st_sequence_number u) m = Inr m1" "commit_user_txns T ts m1 = Inr m'"
      using Cons.prems(2) by (auto simp: and_then_Inr)
    show ?thesis
      using Cons.IH [OF reach_commit [OF Cons.prems(1) m1(1)] m1(2)] commit_store_get [OF Cons.prems(1) m1(1), of a n] UserTransaction
      by auto
  qed (use Cons in auto)
qed simp

text \<open>Executing the data of a built block.\<close>

lemma build_block_data_Inr:
  assumes "json_laws E" "build_block_data E micro block_id checkpoint_id v = Inr data"
  obtains txs ap epoch d where "get_pending_tx E 500 v = Inr txs" "vm_aptos v = Some ap"
    "latest_next_block_epoch E (ap_executor ap) = Inr epoch"
    "data_from_json E data = Some d" "txns_from_json E (ad_block_txns d) = Some (block_transactions E block_id epoch micro checkpoint_id txs)"
    "ad_next_epoch d = epoch" "ad_timestamp_usecs d = micro"
proof -
  from assms(2) obtain txs ap epoch y where y: "get_pending_tx E 500 v = Inr txs" "vm_aptos v = Some ap"
    "latest_next_block_epoch E (ap_executor ap) = Inr epoch"
    "txns_to_json E (block_transactions E block_id epoch micro checkpoint_id txs) = Some y"
    "data_to_json E \<lparr> ad_block_txns = y, ad_block_id = block_id, ad_parent_block_id = committed_block_id E (ap_executor ap),
      ad_next_epoch = epoch, ad_timestamp_usecs = micro \<rparr> = Some data"
    by (auto simp: build_block_data_def and_then_Inr expect_Inr unwrap_Inr)
  have "data_from_json E data = Some \<lparr> ad_block_txns = y, ad_block_id = block_id, ad_parent_block_id = committed_block_id E (ap_executor ap),
      ad_next_epoch = epoch, ad_timestamp_usecs = micro \<rparr>"
    and "txns_from_json E y = Some (block_transactions E block_id epoch micro checkpoint_id txs)"
    using assms(1) y(4,5) unfolding json_laws_def by blast+
  with that [OF y(1-3) this(1)] show ?thesis by simp
qed

lemma inner_build_block_Inr:
  assumes "inner_build_block E data w = (Inr (), w')" "data_from_json E data = Some d" "vm_aptos w = Some ap"
    "txns_from_json E (ad_block_txns d) = Some (block_transactions E block_id epoch micro checkpoint_id txs)"
  obtains m where "commit_user_txns (ve_txn E) (block_transactions E block_id epoch micro checkpoint_id txs) (ap_mempool ap) = Inr m"
    "w' = w\<lparr> vm_build_status := 0, vm_aptos := Some \<lparr> ap_executor = snd (execute_and_commit E block_id
       (block_transactions E block_id epoch micro checkpoint_id txs) (ad_next_epoch d) (ad_timestamp_usecs d) (ap_executor ap)),
       ap_mempool = m \<rparr> \<rparr>"
proof -
  let ?ts = "block_transactions E block_id epoch micro checkpoint_id txs"
  obtain r x where x: "execute_and_commit E block_id ?ts (ad_next_epoch d) (ad_timestamp_usecs d) (ap_executor ap) = (r, x)" by fastforce
  have meta: "expect (case ?ts of [] \<Rightarrow> None | t # _ \<Rightarrow> try_as_block_metadata t) =
      (Inr \<lparr> bm_id = block_id, bm_epoch = epoch, bm_round = 0, bm_proposer = ve_author E,
         bm_previous_block_votes_bitvec = [], bm_failed_proposer_indices = [], bm_timestamp_usecs = micro \<rparr> :: block_metadata io)"
    by (simp add: block_transactions_def expect_def)
  obtain u m where "r = Inr u" "commit_user_txns (ve_txn E) ?ts (ap_mempool ap) = Inr m"
    "w' = update_build_block_status 0 (w\<lparr> vm_aptos := Some (ap\<lparr> ap_executor := x, ap_mempool := m \<rparr>) \<rparr>)"
    using assms x
    by (auto simp: inner_build_block_def s_bind_Inr s_gets_def s_lift_def expect_def meta [unfolded expect_def] on_executor_def on_pool_def
        unwrap_def s_modify_def split: sum.splits)
  then show ?thesis by (intro that [of m]) (simp_all add: x update_build_block_status_def)
qed

text \<open>C18. Executing a built block takes its transactions out of the mempool. Whichever node executes the data that a node built from
  its pending transactions, afterwards its mempool has lost exactly the transactions of the same senders up to the executed
  ones, whatever the execution gave; a new block may be built, and the chain is untouched.\<close>

theorem built_block_clears_mempool:
  assumes "json_laws E" "build_block_data E micro block_id checkpoint_id v = Inr data" "get_pending_tx E 500 v = Inr txs"
    and "snow_reach E B w" "vm_aptos w = Some ap" "inner_build_block E data w = (Inr (), w')"
  shows "\<exists>ap'. vm_aptos w' = Some ap' \<and>
    (\<forall>a n. store_get (mp_transactions (ap_mempool ap')) a n =
       (if \<exists>t \<in> set txs. st_sender t = a \<and> n \<le> st_sequence_number t then None else store_get (mp_transactions (ap_mempool ap)) a n)) \<and>
    vm_build_status w' = 0 \<and> vm_state w' = vm_state w"
proof -
  obtain txs' epoch d where "get_pending_tx E 500 v = Inr txs'" and d': "data_from_json E data = Some d"
    "txns_from_json E (ad_block_txns d) = Some (block_transactions E block_id epoch micro checkpoint_id txs')"
    by (rule build_block_data_Inr [OF assms(1,2)])
  with assms(3) have d: "data_from_json E data = Some d"
    "txns_from_json E (ad_block_txns d) = Some (block_transactions E block_id epoch micro checkpoint_id txs)" by simp_all
  obtain m where m: "commit_user_txns (ve_txn E) (block_transactions E block_id epoch micro checkpoint_id txs) (ap_mempool ap) = Inr m"
    "w' = w\<lparr> vm_build_status := 0, vm_aptos := Some \<lparr> ap_executor = snd (execute_and_commit E block_id
       (block_transactions E block_id epoch micro checkpoint_id txs) (ad_next_epoch d) (ad_timestamp_usecs d) (ap_executor ap)),
       ap_mempool = m \<rparr> \<rparr>" by (rule inner_build_block_Inr [OF assms(6) d(1) assms(5) d(2)])
  obtain config where "mempool_reach (ve_txn E) config (ap_mempool ap)"
    using pool_reached_by [OF assms(4)] assms(5) by (auto simp: pool_ok_def)
  note get = commit_user_txns_get [OF this m(1)]
  have "UserTransaction u \<in> set (block_transactions E block_id epoch micro checkpoint_id txs) \<longleftrightarrow> u \<in> set txs" for u
    by (auto simp: block_transactions_def)
  then show ?thesis using get m(2) by (auto simp: Bex_def)
qed

lemma s_unwrap_Inr: "s_unwrap m s = (Inr x, t) \<longleftrightarrow> m s = (Inr x, t)"
  by (auto simp: s_unwrap_def unwrap_Inr split: prod.splits)


section \<open>Properties of the notifications\<close>

text \<open>The loop of \<open>check_pending_tx\<close> at the given times.\<close>

fun check_pending_tx :: "u64 list \<Rightarrow> u64 \<Rightarrow> ('d, 'x, u64) vm_op" where
  "check_pending_tx [] t v = (Inr t, v)"
| "check_pending_tx (now # ts) t v =
     (case check_pending_tx_step now t v of (Inl e, v') \<Rightarrow> (Inl e, v') | (Inr t', v') \<Rightarrow> check_pending_tx ts t' v')"

lemma tick_notified:
  assumes "check_pending_tx_step now t v = (r, v')"
  shows "vm_notified v \<le> vm_notified v'" "vm_to_engine v' = vm_to_engine v"
    "vm_build_status v = 0 \<Longrightarrow> vm_has_pending_tx v \<Longrightarrow> vm_to_engine v = Some True \<Longrightarrow> vm_notified v < vm_notified v'"
  using assms
  by (auto simp: check_pending_tx_step_def notify_block_ready2_def update_build_block_status_def update_pending_tx_flag_def
      split: option.splits if_splits)

lemma ticks_notified: "vm_notified v \<le> vm_notified (snd (check_pending_tx ts t v))"
proof (induction ts arbitrary: t v)
  case (Cons now ts)
  obtain r v1 where step: "check_pending_tx_step now t v = (r, v1)" by fastforce
  then show ?case using tick_notified(1) [OF step] Cons.IH [of v1] by (cases r) (auto intro: order_trans)
qed simp

text \<open>A turn of the loop at a time that is not before the last check: the loop goes on, and a build that lasts is given up
  after two minutes.\<close>

lemma tick_waiting:
  assumes "vm_build_status v = 1" "t \<le> now"
  shows "check_pending_tx_step now t v =
    (if unat t + 120 < unat now then (Inr now, v\<lparr> vm_build_status := 0 \<rparr>) else (Inr t, v))"
proof -
  obtain e where e: "checked_sub now t = Some e" "unat now = unat t + unat e"
    using assms(2) checked_sub_Some [of now t "now - t"] by (simp add: unat_sub word_le_nat_alt)
  then have "120 < e \<longleftrightarrow> unat t + 120 < unat now" by (simp add: word_less_nat_alt)
  then show ?thesis using assms(1) e(1) by (simp add: check_pending_tx_step_def update_build_block_status_def)
qed

lemma ticks_idle:
  assumes "vm_build_status v = 0" "vm_has_pending_tx v" "vm_to_engine v = Some True"
  shows "vm_notified v < vm_notified (snd (check_pending_tx (now # ts) t v))"
proof -
  obtain r v1 where v1: "check_pending_tx_step now t v = (r, v1)" by fastforce
  have "vm_notified v < vm_notified v1" by (rule tick_notified(3) [OF v1 assms])
  moreover have "vm_notified v1 \<le> vm_notified (snd (check_pending_tx (now # ts) t v))"
    using v1 ticks_notified [of v1 ts] by (cases r) simp_all
  ultimately show ?thesis by (rule less_le_trans)
qed

lemma ticks_pending:
  assumes "vm_build_status v \<in> {0, 1}" "vm_has_pending_tx v" "vm_to_engine v = Some True"
    and "sorted (t # ts @ [now, now'])" "unat t + 120 < unat now"
  shows "vm_notified v < vm_notified (snd (check_pending_tx (ts @ [now, now']) t v))"
  using assms
proof (induction ts)
  case Nil
  then consider "vm_build_status v = 0" | "vm_build_status v = 1" by auto
  then show ?case
  proof cases
    case 1
    then show ?thesis using ticks_idle [OF 1 Nil(2,3)] by simp
  next
    case 2
    then show ?thesis using Nil tick_waiting [of v t now] ticks_idle [of "v\<lparr> vm_build_status := 0 \<rparr>" now' "[]" now]
      by (simp del: check_pending_tx.simps(1))
  qed
next
  case (Cons x ts)
  then consider "vm_build_status v = 0" | "vm_build_status v = 1" by auto
  then show ?case
  proof cases
    case 1
    then show ?thesis using ticks_idle [OF 1 Cons(3,4)] by simp
  next
    case 2
    obtain y ys where y: "ts @ [now, now'] = y # ys" by (cases "ts @ [now, now']") auto
    show ?thesis
      using Cons 2 tick_waiting [of v t x] ticks_idle [of "v\<lparr> vm_build_status := 0 \<rparr>" y ys x]
      by (auto simp: y [symmetric])
  qed
qed


section \<open>Properties of the mempool\<close>

lemma insert_checked_number:
  assumes inv: "store_inv E s" and t: "insertable t" and new: "get_mempool_txn s (get_sender t) (mt_sequence_number t) = None"
    and ins: "insert_checked E pick t g s = Inr (status, s')" and there: "get_mempool_txn s' (get_sender t) (mt_sequence_number t) \<noteq> None"
  shows "ts_sequence_numbers s' (get_sender t) = Some (account_sequence_number (mt_sequence_info t))"
proof -
  let ?a = "get_sender t" and ?n = "mt_sequence_number t" and ?q = "account_sequence_number (mt_sequence_info t)"
  obtain full s1 where chk: "check_is_full_after_eviction E pick t ?q s = Inr (full, s1)"
    using ins by (auto simp: insert_checked_def Let_def and_then_Inr)
  note c = check_is_full_ok [OF inv chk]
  have con1: "consistent E {} {} s1" using c(1) by (simp add: store_inv_def)
  from clean_committed_ok [OF this, of ?a ?q] obtain s2 where s2: "clean_committed_transactions E ?a ?q s1 = Inr s2"
    "consistent E {} {} s2" "shrinks s1 s2" by blast
  define s3 where "s3 = open_account ?a s2"
  note o = open_account_ok [OF s2(2), of ?a, folded s3_def]
  have sh: "shrinks s s1" "shrinks s s3" using c(2) s2(3) o(2) shrinks_trans by blast+
  have none: "get_mempool_txn s1 ?a ?n = None" "get_mempool_txn s3 ?a ?n = None"
    using shrinks_get [OF sh(1), of ?a ?n] shrinks_get [OF sh(2), of ?a ?n] new by (metis option.distinct(1) option.exhaust)+
  then obtain s4 where pr: "process_ready_transactions ?a ?q (insert_indexes E t g s3) = Inr s4" "s' = s4"
    using ins there chk s2(1) by (auto simp: insert_checked_def Let_def s3_def [symmetric] and_then_Inr split: if_splits)
  have "consistent E {} {} (insert_indexes E t g s3)"
    using insert_indexes_ok [OF o(1)] t none(2) by (auto simp: insertable_def)
  from process_ready_ok(2) [OF this pr(1)] show ?thesis
    using pr(2) by (simp add: touches_def insert_indexes_def put_txn_def Let_def)
qed

text \<open>C38. A new transaction of a sender drops the sender's earlier ones. The machine tells the mempool the transaction's own sequence
  number as the account's, so that once the transaction is in, every pending transaction of the sender with a lower
  sequence number is gone.\<close>

theorem add_pool_drops_earlier:
  assumes "snow_reach E B v" "vm_aptos v = Some ap" "add_pool E pick now t v = (Inr (), v')" "vm_aptos v' = Some ap'"
    and "store_get (mp_transactions (ap_mempool ap)) (st_sender t) (st_sequence_number t) = None"
    and "store_get (mp_transactions (ap_mempool ap')) (st_sender t) (st_sequence_number t) \<noteq> None"
    and "n < st_sequence_number t"
  shows "store_get (mp_transactions (ap_mempool ap')) (st_sender t) n = None"
proof -
  let ?T = "ve_txn E" and ?s = "mp_transactions (ap_mempool ap)" and ?s' = "mp_transactions (ap_mempool ap')"
  obtain config where "mempool_reach ?T config (ap_mempool ap)" using pool_reached_by [OF assms(1)] assms(2) by (auto simp: pool_ok_def)
  then have inv: "store_inv ?T ?s" by (rule reach_store_inv)
  obtain status expiration where ins: "store_insert ?T pick
      (mempool_transaction_new t expiration 0 NonQualified (st_sequence_number t) now True) ?s = Inr (status, ?s')"
    using assms(2-4) by (auto simp: add_pool_def on_pool_def add_txn_def and_then_Inr unwrap_Inr split: sum.splits)
  define u where "u = mempool_transaction_new t expiration 0 NonQualified (st_sequence_number t) now True"
  have u: "insertable u" "get_sender u = st_sender t" "mt_sequence_number u = st_sequence_number t"
    "account_sequence_number (mt_sequence_info u) = st_sequence_number t"
    using insertable_new [of "st_sequence_number t" t NonQualified] by (simp_all add: u_def mempool_transaction_new_def get_sender_def)
  have new: "get_mempool_txn ?s (get_sender u) (mt_sequence_number u) = None" using assms(5) u by (simp add: store_get_def)
  then have chk: "insert_checked ?T pick u False ?s = Inr (status, ?s')"
    using ins [folded u_def] by (simp add: store_insert_def Let_def)
  have "ts_sequence_numbers ?s' (st_sender t) = Some (st_sequence_number t)"
    using insert_checked_number [OF inv u(1) new chk] assms(6) u by (simp add: store_get_def)
  moreover have "sequence_numbers_ok ?s'" using insert_checked_ok [OF inv chk u(1) new] by (simp add: store_inv_def)
  ultimately show ?thesis using assms(7) by (fastforce simp: store_get_def sequence_numbers_ok_def)
qed

section \<open>A small network\<close>

text \<open>An environment with a database that never fails, and encodings of the few values that occur. The block strings
  \<open>[1]\<close> and \<open>[2]\<close> are two encodings of one block; \<open>[1]\<close> is the one the node itself gives it.\<close>

definition toy_blocks :: "(byte_string \<times> snow_fields) list" where
  "toy_blocks = [([0], (0, 0, 0, [9])), ([1], (100, 1, 5, [7])), ([3], (101, 2, 5, [7])), ([2], (100, 1, 5, [7]))]"

definition toy_chain :: "(byte_string \<Rightarrow> byte_string option) snow_env" where
  "toy_chain =
     \<lparr> sha256 = (\<lambda>x. case x of [a] \<Rightarrow> 100 + ucast a | _ \<Rightarrow> 1), empty_id = 0,
       id_to_vec = (\<lambda>i. replicate (unat i) 0), id_from_slice = (\<lambda>x. of_nat (length x)),
       block_to_json = (\<lambda>f. map_of (map prod.swap toy_blocks) f), block_from_json = map_of toy_blocks,
       stored_to_json = (\<lambda>(x, st). map_option (\<lambda>t. t # x)
         (case st of Processing_Status \<Rightarrow> Some 0 | Rejected_Status \<Rightarrow> Some 1 | Accepted_Status \<Rightarrow> Some 2 | Unknown_Status _ \<Rightarrow> None)),
       stored_from_json = (\<lambda>x. case x of [] \<Rightarrow> None | t # y \<Rightarrow>
         map_option (Pair y) (map_of [(0, Processing_Status), (1, Rejected_Status), (2, Accepted_Status)] t)),
       default_status = Unknown_Status [], new_memdb = Map.empty,
       db_get = (\<lambda>d k. case d k of None \<Rightarrow> Inl (Err NotFound) | Some x \<Rightarrow> Inr x), db_has = (\<lambda>d k. Inr (d k \<noteq> None)),
       db_put = (\<lambda>d k x. (Inr (), d(k \<mapsto> x))), db_contents = (\<lambda>d. d) \<rparr>"

lemma toy_chain_ok: "snow_env_ok toy_chain"
proof -
  have "db_laws toy_chain" by (auto simp: db_laws_def toy_chain_def split: option.splits)
  moreover have "block_from_json toy_chain x = Some f" if "block_to_json toy_chain f = Some x" for f x
    using that by (auto simp: toy_chain_def toy_blocks_def split: if_splits)
  moreover have "stored_from_json toy_chain x = Some r" if "stored_to_json toy_chain r = Some x" for r x
    using that by (cases r) (auto simp: toy_chain_def split: snow_status.splits)
  ultimately show ?thesis by (simp add: snow_env_ok_def codec_laws_def) (simp add: toy_chain_def)
qed

lemma toy_reads: "db_reads toy_chain"
  by (simp add: db_reads_def toy_chain_def)

definition toy_bytes :: "byte_string set" where
  "toy_bytes = {[0], [1], [2], [3]}"

lemma toy_collision_free: "collision_free toy_chain toy_bytes"
  by (auto simp: collision_free_def inj_on_def toy_bytes_def toy_chain_def toy_blocks_def split: if_splits)

definition toy_block_txns :: "signed_transaction list \<Rightarrow> transaction list" where
  "toy_block_txns txs =
     BlockMetadata \<lparr> bm_id = 11, bm_epoch = 1, bm_round = 0, bm_proposer = 4, bm_previous_block_votes_bitvec = [],
         bm_failed_proposer_indices = [], bm_timestamp_usecs = 50 \<rparr>
       # map UserTransaction txs @ [StateCheckpoint 12]"

definition toy_data :: "byte_string \<Rightarrow> aptos_data" where
  "toy_data x = \<lparr> ad_block_txns = x, ad_block_id = 11, ad_parent_block_id = 0, ad_next_epoch = 1, ad_timestamp_usecs = 50 \<rparr>"

definition toy_env :: "(byte_string \<Rightarrow> byte_string option, nat) vm_env" where
  "toy_env =
     \<lparr> ve_chain = toy_chain, ve_txn = pool_env,
       data_to_json = (\<lambda>d. if d = genesis_data then Some [9] else if d = toy_data [5] then Some [7] else if d = toy_data [6] then Some [8] else None),
       data_from_json = map_of [([9], genesis_data), ([7], toy_data [5]), ([8], toy_data [6])],
       txns_to_json = (\<lambda>ts. if ts = toy_block_txns [] then Some [5] else if ts = toy_block_txns [pool_txn 7 0] then Some [6] else None),
       txns_from_json = map_of [([5], toy_block_txns []), ([6], toy_block_txns [pool_txn 7 0])],
       txn_to_json = (\<lambda>_. Some [1]), txn_from_json = (\<lambda>_. Some (pool_txn 7 0)), txn_from_bcs = (\<lambda>_. Some (pool_txn 7 0)),
       txns_from_bcs = (\<lambda>_. None), ve_author = 4,
       sign_ledger_info = (\<lambda>li. \<lparr> lis_ledger_info = li, lis_signatures = aggregate_signature_empty \<rparr>),
       committed_block_id = (\<lambda>_. 0), latest_next_block_epoch = (\<lambda>_. Inr 1),
       execute_block = (\<lambda>x _ _ _. (Inr \<lparr> sc_root_hash = 1, sc_version = 2, sc_epoch_state = None \<rparr>, Suc x)),
       commit_blocks = (\<lambda>x _ _. (Inr (), x)) \<rparr>"

lemma toy_json: "json_laws toy_env"
  by (auto simp: json_laws_def toy_env_def toy_data_def genesis_data_def hash_zero_def toy_block_txns_def split: if_splits)

definition toy_pool :: mempool where
  "toy_pool =
     \<lparr> mp_transactions =
         \<lparr> ts_transactions = Map.empty, ts_sequence_numbers = Map.empty, ts_priority_index = [], ts_expiration_time_index = [],
           ts_system_ttl_index = [],
           ts_timeline_index =
             \<lparr> mb_timelines = [\<lparr> tl_timeline_id = 1, tl_timeline = [] \<rparr>, \<lparr> tl_timeline_id = 1, tl_timeline = [] \<rparr>,
                 \<lparr> tl_timeline_id = 1, tl_timeline = [] \<rparr>],
               mb_bucket_mins = [0, 150, 300] \<rparr>,
           ts_parking_lot_index = \<lparr> pl_data = [], pl_account_indices = Map.empty, pl_size = 0 \<rparr>,
           ts_hash_index = Map.empty, ts_size_bytes = 0, ts_gas_upgraded_index = Map.empty,
           ts_capacity = 10, ts_capacity_bytes = 10000, ts_capacity_per_user = 5, ts_max_batch_bytes = 1000,
           ts_eager_expire_threshold = None, ts_eager_expire_time = 6000000000 \<rparr>,
       mp_system_transaction_timeout = 600000000000 \<rparr>"

lemma toy_pool_new: "mempool_new pool_config = Inr toy_pool"
  by (simp add: toy_pool_def pool_simps run_simps cong: and_then_weak_cong let_weak_cong del: and_then_Inr)

definition toy_start :: "(byte_string \<Rightarrow> byte_string option, nat) vm" where
  "toy_start =
     \<lparr> vm_state = Some \<lparr> ss_db = [block_with_status_key toy_chain 100 \<mapsto> [2, 0], LAST_ACCEPTED_BLOCK_KEY \<mapsto> id_to_vec toy_chain 100],
         ss_verified_blocks = Map.empty \<rparr>,
       vm_preferred = 100, vm_bootstrapped = False, vm_aptos = Some \<lparr> ap_executor = 0, ap_mempool = toy_pool \<rparr>,
       vm_to_engine = Some True, vm_notified = 0, vm_app_sender = Some True, vm_gossiped = [], vm_build_status = 0,
       vm_has_pending_tx = False \<rparr>"

lemma toy_chain_simps [simp]:
  "sha256 toy_chain [a] = 100 + ucast a" "empty_id toy_chain = 0" "default_status toy_chain = Unknown_Status []"
  "stored_to_json toy_chain (x, Rejected_Status) = Some (1 # x)" "stored_to_json toy_chain (x, Accepted_Status) = Some (2 # x)"
  "stored_from_json toy_chain (1 # x) = Some (x, Rejected_Status)" "stored_from_json toy_chain (2 # x) = Some (x, Accepted_Status)"
  "db_get toy_chain d k = (case d k of None \<Rightarrow> Inl (Err NotFound) | Some x \<Rightarrow> Inr x)" "db_has toy_chain d k = Inr (d k \<noteq> None)"
  "db_put toy_chain d k x = (Inr (), d(k \<mapsto> x))" "db_contents toy_chain d = d" "new_memdb toy_chain = Map.empty"
  "block_to_json toy_chain (0, 0, 0, [9]) = Some [0]" "block_to_json toy_chain (100, 1, 5, [7]) = Some [1]"
  "block_to_json toy_chain (101, 2, 5, [7]) = Some [3]"
  "block_from_json toy_chain [0] = Some (0, 0, 0, [9])" "block_from_json toy_chain [1] = Some (100, 1, 5, [7])"
  "block_from_json toy_chain [2] = Some (100, 1, 5, [7])" "block_from_json toy_chain [3] = Some (101, 2, 5, [7])"
  by (simp_all add: toy_chain_def toy_blocks_def)

lemma toy_keys [simp]: "block_with_status_key toy_chain i = block_with_status_key toy_chain j \<longleftrightarrow> i = j"
  "LAST_ACCEPTED_BLOCK_KEY \<noteq> block_with_status_key toy_chain i"
  using toy_chain_ok by (simp_all add: snow_env_ok_def status_key_inj not_sym [OF status_key_last])

lemma toy_env_simps [simp]:
  "ve_chain toy_env = toy_chain" "ve_txn toy_env = pool_env" "data_to_json toy_env genesis_data = Some [9]"
  "data_to_json toy_env (toy_data [5]) = Some [7]" "data_to_json toy_env (toy_data [6]) = Some [8]"
  "data_from_json toy_env [7] = Some (toy_data [5])" "data_from_json toy_env [8] = Some (toy_data [6])"
  "txns_to_json toy_env (toy_block_txns []) = Some [5]" "txns_to_json toy_env (toy_block_txns [pool_txn 7 0]) = Some [6]"
  "txns_from_json toy_env [5] = Some (toy_block_txns [])" "txns_from_json toy_env [6] = Some (toy_block_txns [pool_txn 7 0])"
  "txn_to_json toy_env t = Some [1]" "txn_from_json toy_env x = Some (pool_txn 7 0)" "txn_from_bcs toy_env x = Some (pool_txn 7 0)"
  "committed_block_id toy_env n = 0" "latest_next_block_epoch toy_env n = Inr 1"
  "execute_block toy_env n i ts p = (Inr \<lparr> sc_root_hash = 1, sc_version = 2, sc_epoch_state = None \<rparr>, Suc n)"
  "commit_blocks toy_env n is li = (Inr (), n)"
  by (simp_all add: toy_env_def toy_data_def genesis_data_def hash_zero_def toy_block_txns_def)

lemmas chain_simps = s_bind_def s_lift_def s_modify_def s_return_def s_gets_def on_state_def json_result_def ok_or_def to_slice_def sb_fields_def
  snow_block_new_def block_from_slice_def stored_encode_def stored_from_slice_def state_put_def set_last_accepted_block_def
  has_last_accepted_block_def get_last_accepted_block_id_def add_verified_def remove_verified_def write_block_def decode_stored_def
  state_get_block_def verify_parent_def block_verify_def block_accepted_def block_reject_def with_state_def vm_parse_block_def vm_get_block_def
  expect_def unwrap_def checked_add_def checked_sub_def Let_def is_ok_def

lemma toy_initialized: "initialize toy_env pool_config 0 (Inr Map.empty) (vm_new toy_chain) = (Inr (), toy_start)"
  by (simp add: initialize_def init_aptos_def toy_pool_new vm_new_def block_accept_def set_preference_def toy_start_def chain_simps)

lemma toy_start_reached: "snow_reach toy_env toy_bytes toy_start"
  by (rule snow_init [of toy_env pool_config 0 Map.empty toy_start "[9]" "[0]"]) (simp_all add: toy_initialized toy_bytes_def)

definition toy_child :: snow_block where
  "toy_child = \<lparr> sb_parent_id = 100, sb_height = 1, sb_timestamp = 5, sb_data = [7], sb_status = Processing_Status,
     sb_bytes = [1], sb_id = 101, sb_state = Shared True \<rparr>"

definition toy_copy :: snow_block where
  "toy_copy = toy_child\<lparr> sb_bytes := [2], sb_id := 102 \<rparr>"

definition toy_verified :: "snow_block \<Rightarrow> (byte_string \<Rightarrow> byte_string option, nat) vm" where
  "toy_verified b = toy_start\<lparr> vm_state := Some \<lparr>
     ss_db = [block_with_status_key toy_chain 100 \<mapsto> [2, 0], LAST_ACCEPTED_BLOCK_KEY \<mapsto> id_to_vec toy_chain 100],
     ss_verified_blocks = [sb_id b \<mapsto> b] \<rparr> \<rparr>"

lemma toy_verified_reached: "snow_reach toy_env toy_bytes (toy_verified toy_child)" "snow_reach toy_env toy_bytes (toy_verified toy_copy)"
proof -
  show "snow_reach toy_env toy_bytes (toy_verified toy_child)"
    by (rule snow_verify [OF toy_start_reached, of "[1]" toy_child 10 "Inr ()"])
       (simp_all add: toy_start_def toy_child_def toy_verified_def toy_bytes_def chain_simps)
  show "snow_reach toy_env toy_bytes (toy_verified toy_copy)"
    by (rule snow_verify [OF toy_start_reached, of "[2]" toy_copy 10 "Inr ()"])
       (simp_all add: toy_start_def toy_child_def toy_copy_def toy_verified_def toy_bytes_def chain_simps)
qed

theorem subnet_chain_ancestry_witness:
  "\<exists>s g. vm_state (toy_verified toy_child) = Some s \<and> vm_get_block toy_env (toy_verified toy_child) 101 = Inr toy_child \<and>
     ancestor toy_chain s toy_child 1 = Some g \<and> genesis_like toy_chain g"
proof -
  have b: "vm_get_block toy_env (toy_verified toy_child) 101 = Inr toy_child"
    by (simp add: vm_get_block_def toy_verified_def toy_child_def state_get_block_def)
  obtain s where s: "vm_state (toy_verified toy_child) = Some s" by (simp add: toy_verified_def)
  have "unat (sb_height toy_child) = 1" by (simp add: toy_child_def)
  then show ?thesis
    using subnet_chain_ancestry [OF _ _ toy_verified_reached(1) s b] toy_chain_ok toy_collision_free s b by auto
qed

lemma toy_block_transactions: "block_transactions toy_env 11 1 50 12 txs = toy_block_txns txs"
  by (simp add: block_transactions_def toy_block_txns_def toy_env_def)

lemmas batch_simps = get_pending_tx_def get_batch_def seen_initially_def seen_excluded_def priority_iter_def batch_loop.simps fill_block.simps
  unwrap_def Let_def

lemma toy_built_data: "build_block_data toy_env 50 11 12 toy_start = Inr [7]"
proof -
  have "get_pending_tx toy_env 500 toy_start = Inr []" by (simp add: toy_start_def toy_pool_def batch_simps)
  moreover have "vm_aptos toy_start = Some \<lparr> ap_executor = 0, ap_mempool = toy_pool \<rparr>" by (simp add: toy_start_def)
  ultimately show ?thesis
    by (simp add: build_block_data_def toy_block_transactions expect_def unwrap_def toy_data_def [symmetric])
qed

lemma toy_built: "vm_build_block toy_env 5 50 11 12 toy_start =
    (Inr (toy_child\<lparr> sb_state := Shared False \<rparr>), toy_verified (toy_child\<lparr> sb_state := Shared False \<rparr>))"
proof -
  have "vm_state toy_start = Some \<lparr> ss_db = [block_with_status_key toy_chain 100 \<mapsto> [2, 0], LAST_ACCEPTED_BLOCK_KEY \<mapsto> id_to_vec toy_chain 100],
         ss_verified_blocks = Map.empty \<rparr>" "vm_preferred toy_start = 100" by (simp_all add: toy_start_def)
  then show ?thesis
    by (simp add: vm_build_block_def toy_built_data s_unwrap_def chain_simps toy_child_def toy_verified_def)
qed

theorem built_block_verifies_witness:
  "\<exists>b v'. vm_build_block toy_env 5 50 11 12 toy_start = (Inr b, v') \<and> sb_parent_id b = 100 \<and>
     fst (block_verify toy_chain 10 (b\<lparr> sb_state := Shared True \<rparr>) (the (vm_state toy_start))) = Inr ()"
proof -
  obtain s where s: "vm_state toy_start = Some s" by (simp add: toy_start_def)
  have b: "sb_bytes (toy_child\<lparr> sb_state := Shared False \<rparr>) \<in> toy_bytes" "sb_parent_id toy_child = 100"
    "sb_parent_id (toy_child\<lparr> sb_state := Shared False \<rparr>) = 100" "vm_preferred toy_start = 100"
    by (simp_all add: toy_child_def toy_bytes_def toy_start_def)
  have "\<exists>p. state_get_block toy_chain s 100 = Inr p \<and> sb_id p = 100 \<and>
      (\<forall>t q now'. state_get_block toy_chain t 100 = Inr q \<longrightarrow> sb_fields q = sb_fields p \<longrightarrow> 5 < unat now' + 3600 \<longrightarrow>
        fst (block_verify toy_chain now' (toy_child\<lparr> sb_state := Shared True \<rparr>) t) = Inr ())"
    using built_block_verifies [OF _ _ toy_start_reached s toy_built b(1)] toy_chain_ok toy_collision_free b by auto
  then have "fst (block_verify toy_chain 10 (toy_child\<lparr> sb_state := Shared True \<rparr>) s) = Inr ()" by auto
  then show ?thesis using toy_built s b by simp
qed

lemma toy_accept_data: "inner_build_block toy_env [7] toy_start = (Inr (), toy_start\<lparr> vm_aptos := Some \<lparr> ap_executor = 1, ap_mempool = toy_pool \<rparr> \<rparr>)"
  by (simp add: inner_build_block_def s_bind_def s_gets_def s_lift_def expect_def unwrap_def toy_data_def toy_block_txns_def on_executor_def on_pool_def
      execute_and_commit_def s_modify_def update_build_block_status_def toy_start_def)

theorem accepted_block_reads_back_witness:
  "\<exists>b' v'. block_accept toy_env toy_copy toy_start = (Inr b', v') \<and> last_accepted toy_env v' = Inr 102 \<and>
     vm_get_block toy_env v' 102 = Inr (toy_child\<lparr> sb_status := Accepted_Status \<rparr>)"
proof -
  have "is_ok (fst (block_accept toy_env toy_copy toy_start))"
    by (simp add: block_accept_def toy_accept_data toy_copy_def toy_child_def s_bind_def [of "inner_build_block _ _"])
       (simp add: toy_start_def chain_simps)
  then obtain b' v' where acc: "block_accept toy_env toy_copy toy_start = (Inr b', v')"
    by (cases "block_accept toy_env toy_copy toy_start") (auto simp: is_ok_iff)
  have c: "sb_state toy_copy = Shared True" "sb_fields toy_copy = (100, 1, 5, [7])" "sb_id toy_copy = 102"
    by (simp_all add: toy_copy_def toy_child_def sb_fields_def)
  have "last_accepted toy_env v' = Inr 102 \<and> vm_get_block toy_env v' 102 =
      Inr (toy_copy\<lparr> sb_status := Accepted_Status, sb_bytes := [1], sb_id := 101, sb_state := Shared True \<rparr>)"
    using accepted_block_reads_back [OF _ _ acc c(1), of "[1]" 102] toy_chain_ok toy_reads c by simp
  then show ?thesis using acc by (simp add: toy_copy_def toy_child_def)
qed

definition toy_rejected :: "(byte_string \<Rightarrow> byte_string option, nat) vm" where
  "toy_rejected = toy_start\<lparr> vm_state := Some \<lparr>
     ss_db = [block_with_status_key toy_chain 100 \<mapsto> [2, 0], LAST_ACCEPTED_BLOCK_KEY \<mapsto> id_to_vec toy_chain 100,
       block_with_status_key toy_chain 102 \<mapsto> [1, 1]],
     ss_verified_blocks = Map.empty \<rparr> \<rparr>"

lemma toy_rejected_reached: "snow_reach toy_env toy_bytes toy_rejected"
  by (rule snow_reject [OF toy_verified_reached(2), of 102 toy_copy "Inr (toy_copy\<lparr> sb_status := Rejected_Status \<rparr>)"])
     (simp_all add: toy_verified_def toy_copy_def toy_child_def toy_rejected_def chain_simps)


theorem stored_block_not_reverified_witness:
  "\<exists>b. vm_parse_block toy_env toy_rejected [2] = Inr b \<and>
     on_state (block_verify toy_chain 10 b) toy_rejected = (Inl (Err NotFound), toy_rejected)"
proof -
  obtain s where s: "vm_state toy_rejected = Some s" "ss_verified_blocks s 102 = None" "is_ok (state_get_block toy_chain s 102)"
    by (simp add: toy_rejected_def chain_simps)
  have b: "vm_parse_block toy_env toy_rejected [2] = Inr (toy_child\<lparr> sb_status := Rejected_Status, sb_state := Detached \<rparr>)"
    by (simp add: toy_rejected_def toy_child_def chain_simps)
  show ?thesis
    using stored_block_not_reverified [OF _ s(1) b] toy_chain_ok s b by (simp add: genesis_like_def toy_child_def)
qed


definition toy_entry :: "u64 \<Rightarrow> mempool_transaction" where
  "toy_entry n = \<lparr> mt_txn = pool_txn 7 n, mt_expiration_time = 600000001000, mt_ranking_score = 0, mt_timeline_state = NonQualified,
     mt_sequence_info = \<lparr> transaction_sequence_number = n, account_sequence_number = n \<rparr>,
     mt_insertion_info = \<lparr> ii_insertion_time = 1000, ii_submitted_by = Client \<rparr>, mt_was_parked = False \<rparr>"

definition toy_pool_one :: mempool where
  "toy_pool_one = toy_pool\<lparr> mp_transactions := (mp_transactions toy_pool)
     \<lparr> ts_transactions := [7 \<mapsto> [(0, toy_entry 0)]], ts_sequence_numbers := [7 \<mapsto> 0],
       ts_priority_index := [(OrderedQueueKey 0 600000001000 7 0, 0)],
       ts_expiration_time_index := [(TTLOrderingKey 700000000000 7 0, ())],
       ts_system_ttl_index := [(TTLOrderingKey 600000001000 7 0, ())],
       ts_hash_index := [7000 \<mapsto> (7, 0)], ts_size_bytes := 152 \<rparr> \<rparr>"

lemma toy_add: "\<exists>status. add_txn pool_env 0 1000 (pool_txn 7 0) 0 0 NonQualified True toy_pool = Inr (status, toy_pool_one)"
  by (simp add: toy_pool_def toy_pool_one_def toy_entry_def pool_simps run_simps cong: and_then_weak_cong let_weak_cong del: and_then_Inr)

definition toy_pooled :: "(byte_string \<Rightarrow> byte_string option, nat) vm" where
  "toy_pooled = toy_start\<lparr> vm_aptos := Some \<lparr> ap_executor = 0, ap_mempool = toy_pool_one \<rparr> \<rparr>"

lemma toy_added: "add_pool toy_env 0 1000 (pool_txn 7 0) (v\<lparr> vm_aptos := Some \<lparr> ap_executor = 0, ap_mempool = toy_pool \<rparr> \<rparr>) =
    (Inr (), v\<lparr> vm_aptos := Some \<lparr> ap_executor = 0, ap_mempool = toy_pool_one \<rparr> \<rparr>)"
proof -
  have "st_sequence_number (pool_txn 7 0) = 0" by (simp add: st_sequence_number_def pool_txn_def)
  then show ?thesis using toy_add by (auto simp: add_pool_def on_pool_def unwrap_def)
qed

lemma toy_start_aptos: "toy_start\<lparr> vm_aptos := Some \<lparr> ap_executor = 0, ap_mempool = toy_pool \<rparr> \<rparr> = toy_start"
  by (simp add: toy_start_def)

lemma toy_pooled_reached: "snow_reach toy_env toy_bytes toy_pooled"
  by (rule snow_gossip [OF toy_start_reached, of 0 1000 "[]" "Inr ()"])
     (use toy_added [of toy_start] in \<open>simp add: app_gossip_def toy_start_aptos toy_pooled_def\<close>)

lemma toy_pending: "get_pending_tx toy_env 500 (v\<lparr> vm_aptos := Some \<lparr> ap_executor = 0, ap_mempool = toy_pool_one \<rparr> \<rparr>) = Inr [pool_txn 7 0]"
  by (simp add: toy_pool_one_def toy_pool_def toy_entry_def batch_simps pool_simps key_pointer_def seen_previous_def take_pointer_def batch_full_def
      get_sequence_number_def get_with_ranking_score_def get_mempool_txn_def store_get_def st_sequence_number_def take_skipped.simps expect_def checked_add_def)

lemma toy_pooled_data: "build_block_data toy_env 50 11 12 (v\<lparr> vm_aptos := Some \<lparr> ap_executor = 0, ap_mempool = toy_pool_one \<rparr> \<rparr>) = Inr [8]"
  by (simp add: build_block_data_def toy_pending toy_block_transactions expect_def unwrap_def toy_data_def [symmetric])

lemma toy_commit: "is_ok (commit_transaction pool_env 7 0 toy_pool_one)"
  by (simp add: toy_pool_one_def toy_pool_def toy_entry_def pool_simps commit_simps run_simps cong: and_then_weak_cong let_weak_cong)

lemma toy_pooled_executed:
  "\<exists>w'. inner_build_block toy_env [8] (v\<lparr> vm_aptos := Some \<lparr> ap_executor = 0, ap_mempool = toy_pool_one \<rparr> \<rparr>) = (Inr (), w')"
proof -
  obtain m where m: "commit_transaction pool_env 7 0 toy_pool_one = Inr m" using toy_commit by (auto simp: is_ok_iff)
  have "st_sequence_number (pool_txn 7 0) = 0" "st_sender (pool_txn 7 0) = 7" by (simp_all add: st_sequence_number_def st_sender_def pool_txn_def)
  then show ?thesis using m
    by (simp add: inner_build_block_def s_bind_def s_gets_def s_lift_def expect_def unwrap_def toy_data_def toy_block_txns_def on_executor_def on_pool_def
      execute_and_commit_def s_modify_def)
qed

theorem built_block_clears_mempool_witness:
  "\<exists>w' ap'. inner_build_block toy_env [8] toy_pooled = (Inr (), w') \<and> vm_aptos w' = Some ap' \<and>
     store_get (mp_transactions toy_pool_one) 7 0 \<noteq> None \<and> store_get (mp_transactions (ap_mempool ap')) 7 0 = None"
proof -
  obtain w' where w': "inner_build_block toy_env [8] toy_pooled = (Inr (), w')" using toy_pooled_executed toy_pooled_def by metis
  have v: "build_block_data toy_env 50 11 12 toy_pooled = Inr [8]" "get_pending_tx toy_env 500 toy_pooled = Inr [pool_txn 7 0]"
    "vm_aptos toy_pooled = Some \<lparr> ap_executor = 0, ap_mempool = toy_pool_one \<rparr>"
    using toy_pooled_data toy_pending by (simp_all add: toy_pooled_def)
  have t: "st_sequence_number (pool_txn 7 0) = 0" "st_sender (pool_txn 7 0) = 7" by (simp_all add: st_sequence_number_def st_sender_def pool_txn_def)
  have "store_get (mp_transactions toy_pool_one) 7 0 \<noteq> None" by (simp add: toy_pool_one_def store_get_def get_mempool_txn_def)
  then show ?thesis
    using built_block_clears_mempool [OF toy_json v(1,2) toy_pooled_reached v(3) w'] w' t by auto
qed


lemma toy_second:
  "\<exists>status m. add_txn pool_env 0 1000 (pool_txn 7 1) 0 1 NonQualified True toy_pool_one = Inr (status, m) \<and> store_get (mp_transactions m) 7 1 \<noteq> None"
  by (simp add: toy_pool_one_def toy_pool_def toy_entry_def pool_simps commit_simps run_simps store_get_def
      cong: and_then_weak_cong let_weak_cong del: and_then_Inr)

theorem add_pool_drops_earlier_witness:
  "\<exists>v' ap'. add_pool toy_env 0 1000 (pool_txn 7 1) toy_pooled = (Inr (), v') \<and> vm_aptos v' = Some ap' \<and>
     store_get (mp_transactions toy_pool_one) 7 0 \<noteq> None \<and> store_get (mp_transactions (ap_mempool ap')) 7 0 = None"
proof -
  have t: "st_sequence_number (pool_txn 7 1) = 1" "st_sender (pool_txn 7 1) = 7" by (simp_all add: st_sequence_number_def st_sender_def pool_txn_def)
  obtain status m where m: "add_txn pool_env 0 1000 (pool_txn 7 1) 0 1 NonQualified True toy_pool_one = Inr (status, m)"
    "store_get (mp_transactions m) 7 1 \<noteq> None" using toy_second by blast
  let ?v = "toy_start\<lparr> vm_aptos := Some \<lparr> ap_executor = 0, ap_mempool = m \<rparr> \<rparr>"
  have v: "vm_aptos toy_pooled = Some \<lparr> ap_executor = 0, ap_mempool = toy_pool_one \<rparr>" by (simp add: toy_pooled_def)
  have add: "add_pool toy_env 0 1000 (pool_txn 7 1) toy_pooled = (Inr (), ?v)"
    using m t by (simp add: add_pool_def on_pool_def unwrap_def toy_pooled_def)
  have "store_get (mp_transactions toy_pool_one) 7 0 \<noteq> None" "store_get (mp_transactions toy_pool_one) 7 1 = None"
    by (simp_all add: toy_pool_one_def store_get_def get_mempool_txn_def)
  then show ?thesis
    using add_pool_drops_earlier [OF toy_pooled_reached v add, of "\<lparr> ap_executor = 0, ap_mempool = m \<rparr>" 0] add m(2) t by auto
qed

end
