(* ===== verification/Txn_Order.thy ===== *)
theory Txn_Order
  imports Mempool_Index "HOL-Library.Multiset"
begin

text \<open>
  What consensus does with the transactions of a block before they are executed: the removal of duplicates
  (consensus/src/txn_hash_and_authenticator_deduper.rs) and the shuffling by sender (consensus/src/sender_aware_shuffler.rs).

  \<^item> The hash of a transaction is the parameter \<open>committed_hash\<close> of \<open>txn_env\<close>; it is computed in parallel, which does not
    matter to the result.
  \<^item> The conflict window has at most \<open>u32::MAX\<close> transactions, as the on-chain configuration gives it. The counters and
    timers are left out.
\<close>

section \<open>Duplicates\<close>

text \<open>The first loop: where a sender and a sequence number were seen first, and which transactions share them.\<close>

fun mark_duplicates ::
  "nat \<Rightarrow> signed_transaction list \<Rightarrow> (account_address \<times> u64 \<Rightarrow> nat option) \<Rightarrow> bool \<times> bool list \<Rightarrow> bool \<times> bool list" where
  "mark_duplicates i [] seen (is_possible_duplicate, possible_duplicates) = (is_possible_duplicate, possible_duplicates)"
| "mark_duplicates i (txn # txns) seen (is_possible_duplicate, possible_duplicates) =
     (case seen (st_sender txn, st_sequence_number txn) of
        None \<Rightarrow>
          mark_duplicates (Suc i) txns (seen((st_sender txn, st_sequence_number txn) \<mapsto> i)) (is_possible_duplicate, possible_duplicates)
      | Some first_index \<Rightarrow>
          mark_duplicates (Suc i) txns seen (True, possible_duplicates[first_index := True, i := True]))"

fun filter_seen :: "('h option \<times> 't) list \<Rightarrow> 'h set \<Rightarrow> 't list" where
  "filter_seen [] seen_hashes = []"
| "filter_seen ((maybe_hash, txn) # rest) seen_hashes =
     (case maybe_hash of
        None \<Rightarrow> txn # filter_seen rest seen_hashes
      | Some h \<Rightarrow>
          if h \<notin> seen_hashes then txn # filter_seen rest (insert h seen_hashes) else filter_seen rest seen_hashes)"

definition dedup :: "txn_env \<Rightarrow> signed_transaction list \<Rightarrow> signed_transaction list" where
  "dedup E transactions =
     (let (is_possible_duplicate, possible_duplicates) =
        mark_duplicates 0 transactions Map.empty (False, replicate (length transactions) False)
      in if \<not> is_possible_duplicate then transactions
         else let hash_and_authenticators =
                map (\<lambda>(need_hash, txn). if need_hash then Some (committed_hash E txn, st_authenticator txn) else None)
                  (zip possible_duplicates transactions)
              in filter_seen (zip hash_and_authenticators transactions) {})"

section \<open>Shuffling\<close>

record pending_transactions =
  txns_by_senders :: "account_address \<Rightarrow> signed_transaction list option"
  ordered_txns :: "signed_transaction list"

definition pending_new :: pending_transactions where
  "pending_new = \<lparr> txns_by_senders = Map.empty, ordered_txns = [] \<rparr>"

definition pending_add :: "signed_transaction \<Rightarrow> pending_transactions \<Rightarrow> pending_transactions" where
  "pending_add txn p =
     \<lparr> txns_by_senders = (txns_by_senders p)(st_sender txn \<mapsto>
         (case txns_by_senders p (st_sender txn) of None \<Rightarrow> [] | Some txns \<Rightarrow> txns) @ [txn]),
       ordered_txns = ordered_txns p @ [txn] \<rparr>"

definition remove_pending_from_sender ::
  "account_address \<Rightarrow> pending_transactions \<Rightarrow> signed_transaction option \<times> pending_transactions" where
  "remove_pending_from_sender sender p =
     (case txns_by_senders p sender of
        Some (txn # txns) \<Rightarrow> (Some txn, p\<lparr> txns_by_senders := (txns_by_senders p)(sender \<mapsto> txns) \<rparr>)
      | _ \<Rightarrow> (None, p))"

text \<open>The loop that pops \<open>ordered_txns\<close> until its front is a transaction that is still pending.\<close>

fun pop_ordered ::
  "signed_transaction list \<Rightarrow> (account_address \<Rightarrow> signed_transaction list option) \<Rightarrow>
   (signed_transaction option \<times> pending_transactions) anyhow" where
  "pop_ordered [] m = Inr (None, \<lparr> txns_by_senders = m, ordered_txns = [] \<rparr>)"
| "pop_ordered (txn # ordered) m =
     and_then (expect (m (st_sender txn))) (\<lambda>txns.
       if txns \<noteq> [] \<and> hd txns = txn
       then Inr (remove_pending_from_sender (st_sender txn) \<lparr> txns_by_senders = m, ordered_txns = ordered \<rparr>)
       else pop_ordered ordered m)"

definition remove_first_pending :: "pending_transactions \<Rightarrow> (signed_transaction option \<times> pending_transactions) anyhow" where
  "remove_first_pending p = pop_ordered (ordered_txns p) (txns_by_senders p)"

record sliding_window_state =
  start_index :: int
  senders_in_window :: "account_address \<Rightarrow> nat option"
  sw_txns :: "signed_transaction list"

definition sliding_window_new :: "u32 \<Rightarrow> sliding_window_state" where
  "sliding_window_new window_size = \<lparr> start_index = - uint window_size, senders_in_window = Map.empty, sw_txns = [] \<rparr>"

definition txn_at :: "sliding_window_state \<Rightarrow> int \<Rightarrow> signed_transaction anyhow" where
  "txn_at w i = expect (if nat i < length (sw_txns w) then Some (sw_txns w ! nat i) else None)"

definition slide_out :: "sliding_window_state \<Rightarrow> (account_address \<Rightarrow> nat option) anyhow" where
  "slide_out w =
     (if 0 \<le> start_index w
      then and_then (txn_at w (start_index w)) (\<lambda>txn.
           case senders_in_window w (st_sender txn) of
             None \<Rightarrow> Inr (senders_in_window w)
           | Some n \<Rightarrow> and_then (nat_sub n 1) (\<lambda>n'. Inr ((senders_in_window w)(st_sender txn \<mapsto> n'))))
      else Inr (senders_in_window w))"

definition window_add :: "signed_transaction \<Rightarrow> sliding_window_state \<Rightarrow> sliding_window_state anyhow" where
  "window_add txn w =
     and_then (slide_out w) (\<lambda>senders.
       Inr \<lparr> start_index = start_index w + 1,
             senders_in_window = senders(st_sender txn \<mapsto> (case senders (st_sender txn) of None \<Rightarrow> 0 | Some n \<Rightarrow> n) + 1),
             sw_txns = sw_txns w @ [txn] \<rparr>)"

definition has_conflict :: "sliding_window_state \<Rightarrow> account_address \<Rightarrow> bool" where
  "has_conflict w addr = (case senders_in_window w addr of None \<Rightarrow> False | Some n \<Rightarrow> n \<noteq> 0)"

definition last_dropped_sender :: "sliding_window_state \<Rightarrow> account_address option anyhow" where
  "last_dropped_sender w =
     (if 0 \<le> start_index w - 1
      then and_then (txn_at w (start_index w - 1)) (\<lambda>txn.
           and_then (expect (senders_in_window w (st_sender txn))) (\<lambda>n.
             Inr (if n = 0 then Some (st_sender txn) else None)))
      else Inr None)"

text \<open>The closure \<open>next_to_add\<close>, with the transactions it takes from: the rest of the original ones and the pending ones.\<close>

fun take_non_conflicting ::
  "sliding_window_state \<Rightarrow> signed_transaction list \<Rightarrow> pending_transactions \<Rightarrow>
   signed_transaction option \<times> signed_transaction list \<times> pending_transactions" where
  "take_non_conflicting w [] p = (None, [], p)"
| "take_non_conflicting w (txn # orig) p =
     (if \<not> has_conflict w (st_sender txn) then (Some txn, orig, p) else take_non_conflicting w orig (pending_add txn p))"

definition next_to_add ::
  "sliding_window_state \<Rightarrow> signed_transaction list \<Rightarrow> pending_transactions \<Rightarrow>
   (signed_transaction \<times> signed_transaction list \<times> pending_transactions) anyhow" where
  "next_to_add w orig p =
     and_then (last_dropped_sender w) (\<lambda>dropped.
       case (case dropped of None \<Rightarrow> (None, p) | Some sender \<Rightarrow> remove_pending_from_sender sender p) of
         (Some txn, p') \<Rightarrow> Inr (txn, orig, p')
       | (None, p') \<Rightarrow>
           (case take_non_conflicting w orig p' of
              (Some txn, orig', p'') \<Rightarrow> Inr (txn, orig', p'')
            | (None, orig', p'') \<Rightarrow>
                and_then (remove_first_pending p'') (\<lambda>(first, p3).
                and_then (expect first) (\<lambda>txn. Inr (txn, orig', p3)))))"

lemma window_add_length: "window_add txn w = Inr w' \<Longrightarrow> length (sw_txns w') = Suc (length (sw_txns w))"
  by (auto simp: window_add_def and_then_Inr)

function shuffle_loop ::
  "nat \<Rightarrow> sliding_window_state \<Rightarrow> signed_transaction list \<Rightarrow> pending_transactions \<Rightarrow> signed_transaction list anyhow" where
  "shuffle_loop num_transactions w orig p =
     (if length (sw_txns w) < num_transactions
      then and_then (next_to_add w orig p) (\<lambda>(txn, orig', p').
           and_then (window_add txn w) (\<lambda>w'. shuffle_loop num_transactions w' orig' p'))
      else Inr (sw_txns w))"
  by pat_completeness auto
termination shuffle_loop
  by (relation "measure (\<lambda>(n, w, _). n - length (sw_txns w))") (auto dest: window_add_length)

declare shuffle_loop.simps [simp del]

definition shuffle :: "u32 \<Rightarrow> signed_transaction list \<Rightarrow> signed_transaction list anyhow" where
  "shuffle conflict_window_size txns =
     (if txns = [] then Inr txns
      else if conflict_window_size = 0 then Inr txns
      else shuffle_loop (length txns) (sliding_window_new conflict_window_size) txns pending_new)"

section \<open>The execution configuration\<close>

datatype transaction_shuffler_type = NoShuffling | DeprecatedSenderAwareV1 u32 | SenderAwareV2 u32

datatype transaction_deduper_type = NoDedup | TxnHashAndAuthenticatorV1

record execution_config_v1 =
  v1_transaction_shuffler_type :: transaction_shuffler_type

record execution_config_v2 =
  v2_transaction_shuffler_type :: transaction_shuffler_type
  v2_block_gas_limit :: "u64 option"

record execution_config_v3 =
  v3_transaction_shuffler_type :: transaction_shuffler_type
  v3_block_gas_limit :: "u64 option"
  v3_transaction_deduper_type :: transaction_deduper_type

datatype on_chain_execution_config =
  ExecutionV1 execution_config_v1 | ExecutionV2 execution_config_v2 | ExecutionV3 execution_config_v3 | ExecutionMissing

fun config_shuffler_type :: "on_chain_execution_config \<Rightarrow> transaction_shuffler_type" where
  "config_shuffler_type ExecutionMissing = NoShuffling"
| "config_shuffler_type (ExecutionV1 c) = v1_transaction_shuffler_type c"
| "config_shuffler_type (ExecutionV2 c) = v2_transaction_shuffler_type c"
| "config_shuffler_type (ExecutionV3 c) = v3_transaction_shuffler_type c"

fun config_block_gas_limit :: "on_chain_execution_config \<Rightarrow> u64 option" where
  "config_block_gas_limit ExecutionMissing = None"
| "config_block_gas_limit (ExecutionV1 c) = None"
| "config_block_gas_limit (ExecutionV2 c) = v2_block_gas_limit c"
| "config_block_gas_limit (ExecutionV3 c) = v3_block_gas_limit c"

fun config_deduper_type :: "on_chain_execution_config \<Rightarrow> transaction_deduper_type" where
  "config_deduper_type ExecutionMissing = TxnHashAndAuthenticatorV1"
| "config_deduper_type (ExecutionV1 c) = NoDedup"
| "config_deduper_type (ExecutionV2 c) = NoDedup"
| "config_deduper_type (ExecutionV3 c) = v3_transaction_deduper_type c"

definition default_for_genesis :: on_chain_execution_config where
  "default_for_genesis = ExecutionV3
     \<lparr> v3_transaction_shuffler_type = SenderAwareV2 32, v3_block_gas_limit = Some 35000,
       v3_transaction_deduper_type = TxnHashAndAuthenticatorV1 \<rparr>"

fun create_transaction_shuffler ::
  "transaction_shuffler_type \<Rightarrow> signed_transaction list \<Rightarrow> signed_transaction list anyhow" where
  "create_transaction_shuffler NoShuffling = Inr"
| "create_transaction_shuffler (DeprecatedSenderAwareV1 _) = Inr"
| "create_transaction_shuffler (SenderAwareV2 conflict_window_size) = shuffle conflict_window_size"

fun create_transaction_deduper ::
  "txn_env \<Rightarrow> transaction_deduper_type \<Rightarrow> signed_transaction list \<Rightarrow> signed_transaction list" where
  "create_transaction_deduper E NoDedup = (\<lambda>txns. txns)"
| "create_transaction_deduper E TxnHashAndAuthenticatorV1 = dedup E"

text \<open>What \<open>compute\<close> and \<open>commit\<close> of consensus/src/state_computer.rs do with the transactions of a block, with the deduper
  and the shuffler that the epoch manager created from the configuration of the epoch.\<close>

definition execution_order ::
  "txn_env \<Rightarrow> on_chain_execution_config \<Rightarrow> signed_transaction list \<Rightarrow> signed_transaction list anyhow" where
  "execution_order E config txns =
     (let deduped_txns = create_transaction_deduper E (config_deduper_type config) txns
      in create_transaction_shuffler (config_shuffler_type config) deduped_txns)"

section \<open>The window\<close>

abbreviation from_sender :: "account_address \<Rightarrow> signed_transaction list \<Rightarrow> signed_transaction list" where
  "from_sender a \<equiv> filter (\<lambda>t. st_sender t = a)"

text \<open>The last \<open>k\<close> transactions.\<close>

definition window :: "nat \<Rightarrow> 'a list \<Rightarrow> 'a list" where
  "window k xs = drop (length xs - k) xs"

lemma window_snoc: "0 < k \<Longrightarrow> window k (xs @ [x]) = (if length xs < k then window k xs else tl (window k xs)) @ [x]"
  by (auto simp: window_def tl_drop Suc_diff_le not_less drop_Suc [symmetric])

lemma window_hd: "0 < k \<Longrightarrow> k \<le> length xs \<Longrightarrow> window k xs = xs ! (length xs - k) # tl (window k xs)"
  using Cons_nth_drop_Suc [of "length xs - k" xs] by (simp add: window_def tl_drop drop_Suc [symmetric])

definition window_ok :: "nat \<Rightarrow> sliding_window_state \<Rightarrow> bool" where
  "window_ok k w \<longleftrightarrow>
     start_index w = int (length (sw_txns w)) - int k \<and>
     (\<forall>a. (case senders_in_window w a of None \<Rightarrow> 0 | Some n \<Rightarrow> n) = length (from_sender a (window k (sw_txns w)))) \<and>
     (\<forall>t \<in> set (sw_txns w). senders_in_window w (st_sender t) \<noteq> None)"

definition in_window :: "nat \<Rightarrow> sliding_window_state \<Rightarrow> account_address \<Rightarrow> bool" where
  "in_window k w a \<longleftrightarrow> from_sender a (window k (sw_txns w)) \<noteq> []"

lemma has_conflict_iff: "window_ok k w \<Longrightarrow> has_conflict w a \<longleftrightarrow> in_window k w a"
  by (auto simp: window_ok_def has_conflict_def in_window_def split: option.splits dest!: spec [of _ a])

lemma last_dropped_ok:
  assumes "window_ok k w" "0 < k"
  shows "last_dropped_sender w = Inr (if k < length (sw_txns w) \<and> \<not> in_window k w (st_sender (sw_txns w ! (length (sw_txns w) - k - 1)))
    then Some (st_sender (sw_txns w ! (length (sw_txns w) - k - 1))) else None)"
proof (cases "k < length (sw_txns w)")
  case True
  let ?t = "sw_txns w ! (length (sw_txns w) - k - 1)"
  have "nat (start_index w - 1) = length (sw_txns w) - k - 1" "0 \<le> start_index w - 1"
    using assms True by (auto simp: window_ok_def)
  moreover have t: "?t \<in> set (sw_txns w)" using True assms(2) by simp
  obtain n where n: "senders_in_window w (st_sender ?t) = Some n" using assms(1) t unfolding window_ok_def by blast
  moreover have "n = length (from_sender (st_sender ?t) (window k (sw_txns w)))"
    using assms(1) n unfolding window_ok_def by (metis option.simps(5))
  ultimately show ?thesis using True assms(2)
    by (simp add: last_dropped_sender_def txn_at_def expect_def in_window_def)
next
  case False
  then have "\<not> 0 \<le> start_index w - 1" using assms by (auto simp: window_ok_def)
  then show ?thesis using False by (simp add: last_dropped_sender_def)
qed

lemma window_add_ok:
  assumes ok: "window_ok k w" and k: "0 < k"
  shows "\<exists>w'. window_add txn w = Inr w' \<and> window_ok k w' \<and> sw_txns w' = sw_txns w @ [txn]"
proof -
  let ?ts = "sw_txns w" and ?n = "\<lambda>m a. case m a of None \<Rightarrow> 0 | Some n \<Rightarrow> (n :: nat)"
  have cnt: "?n (senders_in_window w) a = length (from_sender a (window k ?ts))" for a
    using ok unfolding window_ok_def by blast
  have start: "start_index w = int (length ?ts) - int k" using ok unfolding window_ok_def by blast
  have "\<exists>m. slide_out w = Inr m \<and> dom m = dom (senders_in_window w) \<and>
      (\<forall>a. ?n m a = length (from_sender a (if length ?ts < k then window k ?ts else tl (window k ?ts))))"
  proof (cases "length ?ts < k")
    case True
    then show ?thesis using cnt start by (simp add: slide_out_def)
  next
    case False
    let ?t = "?ts ! (length ?ts - k)"
    have hd: "window k ?ts = ?t # tl (window k ?ts)" by (rule window_hd [OF k]) (use False in simp)
    have t: "?t \<in> set ?ts" using k False by simp
    obtain n where n: "senders_in_window w (st_sender ?t) = Some n" using ok t unfolding window_ok_def by blast
    define rest where "rest = tl (window k ?ts)"
    have win: "window k ?ts = ?t # rest" using hd by (simp add: rest_def)
    then have len: "length (from_sender a (window k ?ts)) = length (from_sender a rest) + (if a = st_sender ?t then 1 else 0)" for a
      by simp
    have "n = Suc (length (from_sender (st_sender ?t) rest))" using cnt [of "st_sender ?t"] n len [of "st_sender ?t"] by simp
    moreover have "txn_at w (start_index w) = Inr ?t" "0 \<le> start_index w" using start k False by (auto simp: txn_at_def expect_def nat_diff_distrib)
    ultimately have out: "slide_out w = Inr ((senders_in_window w)(st_sender ?t \<mapsto> length (from_sender (st_sender ?t) rest)))"
      using n by (simp add: slide_out_def nat_sub_def)
    have "?n ((senders_in_window w)(st_sender ?t \<mapsto> length (from_sender (st_sender ?t) rest))) a = length (from_sender a rest)" for a
      using cnt [of a] len [of a] by simp
    then show ?thesis using out n False by (auto simp: rest_def [symmetric] domI)
  qed
  then obtain m where m: "slide_out w = Inr m" "dom m = dom (senders_in_window w)"
    "\<And>a. ?n m a = length (from_sender a (if length ?ts < k then window k ?ts else tl (window k ?ts)))" by blast
  have "senders_in_window w (st_sender t) \<noteq> None" if "t \<in> set ?ts" for t using ok that unfolding window_ok_def by blast
  then have "m (st_sender t) \<noteq> None" if "t \<in> set ?ts" for t using m(2) that by (metis domIff)
  then show ?thesis using m(1,3) start k
    by (auto simp: window_add_def window_ok_def window_snoc)
qed

section \<open>The pending transactions\<close>

definition pending :: "pending_transactions \<Rightarrow> account_address \<Rightarrow> signed_transaction list" where
  "pending p a = (case txns_by_senders p a of None \<Rightarrow> [] | Some txns \<Rightarrow> txns)"

text \<open>The transactions of a sender that are pending are the last ones of the sender among the ordered ones, which may have
  others that are no longer pending.\<close>

definition pending_ok :: "pending_transactions \<Rightarrow> bool" where
  "pending_ok p \<longleftrightarrow>
     (\<forall>t \<in> set (ordered_txns p). txns_by_senders p (st_sender t) \<noteq> None) \<and>
     (\<forall>a. (\<forall>t \<in> set (pending p a). st_sender t = a) \<and> (\<exists>gone. from_sender a (ordered_txns p) = gone @ pending p a))"

lemma pending_new_ok: "pending_ok pending_new" "pending pending_new a = []"
  by (simp_all add: pending_ok_def pending_new_def pending_def)

lemma pending_add_ok:
  assumes "pending_ok p"
  shows "pending_ok (pending_add t p)" "pending (pending_add t p) a = pending p a @ from_sender a [t]"
proof -
  show pend: "pending (pending_add t p) a = pending p a @ from_sender a [t]" for a
    by (simp add: pending_def pending_add_def)
  have "\<exists>gone. from_sender a (ordered_txns (pending_add t p)) = gone @ pending (pending_add t p) a" for a
  proof -
    obtain gone where "from_sender a (ordered_txns p) = gone @ pending p a" using assms unfolding pending_ok_def by blast
    then show ?thesis unfolding pend by (auto simp: pending_add_def)
  qed
  moreover have "\<forall>u \<in> set (pending (pending_add t p) a). st_sender u = a" for a
    using assms unfolding pend pending_ok_def by auto
  moreover have "\<forall>u \<in> set (ordered_txns (pending_add t p)). txns_by_senders (pending_add t p) (st_sender u) \<noteq> None"
    using assms by (auto simp: pending_ok_def pending_add_def)
  ultimately show "pending_ok (pending_add t p)" by (simp add: pending_ok_def)
qed

lemma remove_from_sender_ok:
  assumes "pending_ok p"
  shows "pending p a = [] \<Longrightarrow> remove_pending_from_sender a p = (None, p)"
    and "pending p a = t # ts \<Longrightarrow> \<exists>p'. remove_pending_from_sender a p = (Some t, p') \<and> pending_ok p' \<and> pending p' = (pending p)(a := ts)"
proof -
  show "pending p a = [] \<Longrightarrow> remove_pending_from_sender a p = (None, p)"
    by (auto simp: pending_def remove_pending_from_sender_def split: option.splits)
  assume t: "pending p a = t # ts"
  let ?p = "p\<lparr> txns_by_senders := (txns_by_senders p)(a \<mapsto> ts) \<rparr>"
  have pend: "pending ?p = (pending p)(a := ts)" by (simp add: pending_def fun_eq_iff)
  have rem: "remove_pending_from_sender a p = (Some t, ?p)"
    using t by (auto simp: pending_def remove_pending_from_sender_def split: option.splits)
  have "\<exists>gone. from_sender b (ordered_txns p) = gone @ pending ?p b" for b
  proof -
    obtain gone where "from_sender b (ordered_txns p) = gone @ pending p b" using assms unfolding pending_ok_def by blast
    then show ?thesis using t unfolding pend by (cases "b = a") (auto intro: exI [of _ "gone @ [t]"])
  qed
  moreover have "\<forall>u \<in> set (pending ?p b). st_sender u = b" for b
  proof -
    have "\<forall>u \<in> set (pending p b). st_sender u = b" using assms unfolding pending_ok_def by blast
    then show ?thesis using t unfolding pend by (cases "b = a") auto
  qed
  ultimately have "pending_ok ?p" using assms by (auto simp: pending_ok_def)
  then show "\<exists>p'. remove_pending_from_sender a p = (Some t, p') \<and> pending_ok p' \<and> pending p' = (pending p)(a := ts)"
    using rem pend by blast
qed

text \<open>The first transaction that is still pending is found, and none only if none is left.\<close>

lemma pop_ordered_ok:
  assumes "pending_ok \<lparr> txns_by_senders = m, ordered_txns = ordered \<rparr>"
  shows "\<exists>first p'. pop_ordered ordered m = Inr (first, p') \<and> pending_ok p' \<and>
    (case first of
       None \<Rightarrow> (\<forall>a. pending \<lparr> txns_by_senders = m, ordered_txns = ordered \<rparr> a = [])
     | Some t \<Rightarrow> pending \<lparr> txns_by_senders = m, ordered_txns = ordered \<rparr> (st_sender t) = t # pending p' (st_sender t) \<and>
         (\<forall>a. a \<noteq> st_sender t \<longrightarrow> pending p' a = pending \<lparr> txns_by_senders = m, ordered_txns = ordered \<rparr> a))"
  using assms
proof (induction ordered)
  case Nil
  then show ?case by (auto simp: pending_ok_def)
next
  case (Cons t ordered)
  let ?p = "\<lparr> txns_by_senders = m, ordered_txns = t # ordered \<rparr>" and ?q = "\<lparr> txns_by_senders = m, ordered_txns = ordered \<rparr>"
  have same: "pending ?q = pending ?p" by (simp add: pending_def fun_eq_iff)
  obtain txns where txns: "m (st_sender t) = Some txns" using Cons.prems by (auto simp: pending_ok_def)
  then have pt: "pending ?p (st_sender t) = txns" by (simp add: pending_def)
  have own: "\<forall>u \<in> set (pending ?p a). st_sender u = a" for a using Cons.prems unfolding pending_ok_def by blast
  have dom: "\<forall>u \<in> set ordered. m (st_sender u) \<noteq> None" using Cons.prems by (simp add: pending_ok_def)
  have rest: "\<exists>gone. from_sender a (t # ordered) = gone @ pending ?p a" for a using Cons.prems unfolding pending_ok_def by auto
  show ?case
  proof (cases "txns \<noteq> [] \<and> hd txns = t")
    case True
    then obtain ts where ts: "txns = t # ts" by (cases txns) auto
    define p' where "p' = \<lparr> txns_by_senders = m(st_sender t \<mapsto> ts), ordered_txns = ordered \<rparr>"
    have pend: "pending p' = (pending ?p)(st_sender t := ts)" by (simp add: p'_def pending_def fun_eq_iff)
    have "\<exists>gone. from_sender a ordered = gone @ pending p' a" for a
    proof -
      obtain gone where "from_sender a (t # ordered) = gone @ pending ?p a" using rest by blast
      then show ?thesis using pt ts unfolding pend by (cases gone; cases "a = st_sender t") (auto simp: append_eq_Cons_conv)
    qed
    moreover have "\<forall>u \<in> set (pending p' a). st_sender u = a" for a
      using own [of a] pt ts unfolding pend by (cases "a = st_sender t") auto
    ultimately have "pending_ok p'" using dom by (simp add: pending_ok_def p'_def)
    moreover have "pop_ordered (t # ordered) m = Inr (Some t, p')"
      using txns ts by (simp add: expect_def remove_pending_from_sender_def p'_def)
    ultimately show ?thesis using pt ts pend by auto
  next
    case False
    have "\<exists>gone. from_sender a ordered = gone @ pending ?p a" for a
    proof (cases "a = st_sender t")
      case True
      obtain gone where g: "t # from_sender (st_sender t) ordered = gone @ txns" using rest [of "st_sender t"] pt by auto
      then show ?thesis using False pt True by (cases gone) auto
    next
      case other: False
      then show ?thesis using rest [of a] by simp
    qed
    then have "pending_ok ?q" using own dom by (simp add: pending_ok_def same)
    note found = Cons.IH [OF this, unfolded same]
    have "pop_ordered (t # ordered) m = pop_ordered ordered m" using txns False by (auto simp: expect_def)
    then show ?thesis using found by (simp only:)
  qed
qed

lemma remove_first_ok:
  assumes "pending_ok p"
  shows "\<exists>first p'. remove_first_pending p = Inr (first, p') \<and> pending_ok p' \<and>
    (case first of
       None \<Rightarrow> (\<forall>a. pending p a = [])
     | Some t \<Rightarrow> pending p (st_sender t) = t # pending p' (st_sender t) \<and> (\<forall>a. a \<noteq> st_sender t \<longrightarrow> pending p' a = pending p a))"
proof -
  obtain m ordered where p: "p = \<lparr> txns_by_senders = m, ordered_txns = ordered \<rparr>" by (cases p)
  have "pending_ok \<lparr> txns_by_senders = m, ordered_txns = ordered \<rparr>" using assms p by simp
  from pop_ordered_ok [OF this] show ?thesis unfolding remove_first_pending_def p pending_transactions.simps .
qed

section \<open>One step\<close>

lemma take_non_conflicting_ok:
  assumes "pending_ok p" "take_non_conflicting w orig p = (found, orig', p')"
  shows "pending_ok p' \<and>
    (case found of
       None \<Rightarrow> orig' = [] \<and> (\<forall>a. pending p' a = pending p a @ from_sender a orig) \<and> (\<forall>t \<in> set orig. has_conflict w (st_sender t))
     | Some t \<Rightarrow> \<not> has_conflict w (st_sender t) \<and>
         (\<exists>ts. orig = ts @ t # orig' \<and> (\<forall>u \<in> set ts. has_conflict w (st_sender u)) \<and> (\<forall>a. pending p' a = pending p a @ from_sender a ts)))"
  using assms
proof (induction w orig p rule: take_non_conflicting.induct)
  case (2 w t orig p)
  show ?case
  proof (cases "has_conflict w (st_sender t)")
    case True
    note add = pending_add_ok [OF 2(2), of t]
    have run: "take_non_conflicting w orig (pending_add t p) = (found, orig', p')" using 2(3) True by simp
    from 2(1) [OF _ add(1) run] True have *: "pending_ok p' \<and>
      (case found of
         None \<Rightarrow> orig' = [] \<and> (\<forall>a. pending p' a = (pending p a @ from_sender a [t]) @ from_sender a orig) \<and> (\<forall>t \<in> set orig. has_conflict w (st_sender t))
       | Some u \<Rightarrow> \<not> has_conflict w (st_sender u) \<and>
           (\<exists>ts. orig = ts @ u # orig' \<and> (\<forall>u \<in> set ts. has_conflict w (st_sender u)) \<and>
             (\<forall>a. pending p' a = (pending p a @ from_sender a [t]) @ from_sender a ts)))"
      unfolding add(2) by simp
    show ?thesis
    proof (cases found)
      case None
      then show ?thesis using * True by auto
    next
      case (Some u)
      then obtain ts where "pending_ok p'" "\<not> has_conflict w (st_sender u)" "orig = ts @ u # orig'" "\<forall>u \<in> set ts. has_conflict w (st_sender u)"
        "\<forall>a. pending p' a = (pending p a @ from_sender a [t]) @ from_sender a ts" using * by auto
      then show ?thesis using Some True by (auto intro!: exI [of _ "t # ts"])
    qed
  next
    case False
    then show ?thesis using 2 by auto
  qed
qed auto

text \<open>A transaction whose sender is in the window is only added when every sender that has one left is in the window.\<close>

definition forced :: "nat \<Rightarrow> signed_transaction list \<Rightarrow> signed_transaction list \<Rightarrow> signed_transaction \<Rightarrow> bool" where
  "forced k txns ts t \<longleftrightarrow>
     (from_sender (st_sender t) (window k ts) \<noteq> [] \<longrightarrow>
        (\<forall>a. from_sender a ts \<noteq> from_sender a txns \<longrightarrow> from_sender a (window k ts) \<noteq> []))"

definition spaced :: "nat \<Rightarrow> signed_transaction list \<Rightarrow> signed_transaction list \<Rightarrow> bool" where
  "spaced k txns ts \<longleftrightarrow> (\<forall>i < length ts. forced k txns (take i ts) (ts ! i))"

lemma spaced_snoc: "spaced k txns ts \<Longrightarrow> forced k txns ts t \<Longrightarrow> spaced k txns (ts @ [t])"
  by (auto simp: spaced_def less_Suc_eq nth_append)

text \<open>The transactions of each sender are, in their order, in the block, pending or still to come; and a sender with pending
  transactions is in the window, or has just left it.\<close>

definition shuffle_inv :: "nat \<Rightarrow> signed_transaction list \<Rightarrow> sliding_window_state \<Rightarrow> signed_transaction list \<Rightarrow> pending_transactions \<Rightarrow> bool" where
  "shuffle_inv k txns w orig p \<longleftrightarrow>
     window_ok k w \<and> pending_ok p \<and> spaced k txns (sw_txns w) \<and>
     (\<forall>a. from_sender a (sw_txns w) @ pending p a @ from_sender a orig = from_sender a txns) \<and>
     (\<forall>a. pending p a \<noteq> [] \<longrightarrow> in_window k w a \<or> last_dropped_sender w = Inr (Some a))"

text \<open>What \<open>next_to_add\<close> gives: a transaction that comes next among those of its sender.\<close>

definition next_ok ::
  "nat \<Rightarrow> signed_transaction list \<Rightarrow> sliding_window_state \<Rightarrow> signed_transaction \<Rightarrow> signed_transaction list \<Rightarrow> pending_transactions \<Rightarrow> bool" where
  "next_ok k txns w t orig p \<longleftrightarrow>
     pending_ok p \<and> forced k txns (sw_txns w) t \<and>
     (\<forall>a. from_sender a (sw_txns w @ [t]) @ pending p a @ from_sender a orig = from_sender a txns) \<and>
     (\<forall>a. pending p a \<noteq> [] \<longrightarrow> in_window k w a \<or> a = st_sender t)"

lemma senders_mset:
  assumes "\<And>a. from_sender a xs = from_sender a ys"
  shows "mset xs = mset ys"
proof (rule multiset_eqI)
  fix t
  have "count (mset zs) t = count (mset (from_sender (st_sender t) zs)) t" for zs by (induction zs) auto
  then show "count (mset xs) t = count (mset ys) t" using assms by metis
qed

lemma next_from_dropped:
  assumes inv: "shuffle_inv k txns w orig p" and d: "last_dropped_sender w = Inr (Some a)" and t: "pending p a = t # ts"
    and k: "0 < k"
  shows "\<exists>p'. next_to_add w orig p = Inr (t, orig, p') \<and> next_ok k txns w t orig p'"
proof -
  have w: "window_ok k w" and ok: "pending_ok p" and ord: "\<And>b. from_sender b (sw_txns w) @ pending p b @ from_sender b orig = from_sender b txns"
    and win: "\<And>b. pending p b \<noteq> [] \<Longrightarrow> in_window k w b \<or> last_dropped_sender w = Inr (Some b)"
    using inv unfolding shuffle_inv_def by blast+
  from remove_from_sender_ok(2) [OF ok t] obtain p' where p': "remove_pending_from_sender a p = (Some t, p')" "pending_ok p'"
    "pending p' = (pending p)(a := ts)" by blast
  have a: "st_sender t = a" using ok t unfolding pending_ok_def by (metis list.set_intros(1))
  have "from_sender b (sw_txns w @ [t]) @ pending p' b @ from_sender b orig = from_sender b txns" for b
    using ord [of b] t a unfolding p'(3) by (cases "b = a") auto
  moreover have "in_window k w b \<or> b = st_sender t" if "pending p' b \<noteq> []" for b
    using win [of b] that d a unfolding p'(3) by (cases "b = a") auto
  moreover have "forced k txns (sw_txns w) t"
    using last_dropped_ok [OF w k] d a by (auto simp: forced_def in_window_def split: if_splits)
  ultimately show ?thesis using p'(1,2) d by (simp add: next_to_add_def next_ok_def)
qed

lemma next_from_rest:
  assumes inv: "shuffle_inv k txns w orig p" and more: "length (sw_txns w) < length txns"
    and d: "\<And>a. last_dropped_sender w = Inr (Some a) \<Longrightarrow> pending p a = []" and k: "0 < k"
  shows "\<exists>t orig' p'. next_to_add w orig p = Inr (t, orig', p') \<and> next_ok k txns w t orig' p'"
proof -
  have w: "window_ok k w" and ok: "pending_ok p" and ord: "\<And>b. from_sender b (sw_txns w) @ pending p b @ from_sender b orig = from_sender b txns"
    and win: "\<And>b. pending p b \<noteq> [] \<Longrightarrow> in_window k w b"
    using inv d unfolding shuffle_inv_def by blast+
  obtain found orig' p1 where scan: "take_non_conflicting w orig p = (found, orig', p1)" by (cases "take_non_conflicting w orig p")
  note s = take_non_conflicting_ok [OF ok scan]
  obtain dropped where dropped: "last_dropped_sender w = Inr dropped" using last_dropped_ok [OF w k] by blast
  have no: "(case dropped of None \<Rightarrow> (None, p) | Some a \<Rightarrow> remove_pending_from_sender a p) = (None, p)"
    using remove_from_sender_ok(1) [OF ok] d dropped by (auto split: option.splits)
  note conflict = has_conflict_iff [OF w]
  show ?thesis
  proof (cases found)
    case (Some t)
    then obtain ts where ts: "\<not> in_window k w (st_sender t)" "orig = ts @ t # orig'" "\<forall>u \<in> set ts. in_window k w (st_sender u)"
      "\<And>a. pending p1 a = pending p a @ from_sender a ts" "pending_ok p1" using s conflict by auto
    have none: "pending p1 (st_sender t) = []"
      using win ts(1,3) unfolding ts(4) by (auto simp: filter_empty_conv)
    have "from_sender b (sw_txns w @ [t]) @ pending p1 b @ from_sender b orig' = from_sender b txns" for b
      using ord [of b] none ts(2,4) by (cases "b = st_sender t") auto
    moreover have "in_window k w b \<or> b = st_sender t" if "pending p1 b \<noteq> []" for b
      using win [of b] that ts(3) unfolding ts(4) by (auto simp: filter_empty_conv)
    moreover have "forced k txns (sw_txns w) t" using ts(1) by (simp add: forced_def in_window_def)
    ultimately show ?thesis using Some scan no dropped ts(5) by (simp add: next_to_add_def next_ok_def)
  next
    case None
    then have n: "orig' = []" "\<And>a. pending p1 a = pending p a @ from_sender a orig" "pending_ok p1" using s by auto
    from remove_first_ok [OF n(3)] obtain first p' where rem: "remove_first_pending p1 = Inr (first, p')" "pending_ok p'"
      "case first of None \<Rightarrow> (\<forall>a. pending p1 a = [])
       | Some t \<Rightarrow> pending p1 (st_sender t) = t # pending p' (st_sender t) \<and> (\<forall>a. a \<noteq> st_sender t \<longrightarrow> pending p' a = pending p1 a)" by blast
    have ord1: "from_sender b (sw_txns w) @ pending p1 b = from_sender b txns" for b using ord n(2) by simp
    have "first \<noteq> None"
    proof
      assume "first = None"
      then have "from_sender b (sw_txns w) = from_sender b txns" for b using rem(3) ord1 [of b] by simp
      then have "mset (sw_txns w) = mset txns" by (rule senders_mset)
      then have "length (sw_txns w) = length txns" by (metis size_mset)
      then show False using more by simp
    qed
    then obtain t where t: "first = Some t" by blast
    have left: "in_window k w b" if "pending p1 b \<noteq> []" for b
      using win [of b] that None s conflict unfolding n(2) by (auto simp: filter_empty_conv)
    then have "forced k txns (sw_txns w) t" unfolding forced_def using ord1 by (metis append_Nil2 in_window_def)
    moreover have "from_sender b (sw_txns w @ [t]) @ pending p' b @ from_sender b [] = from_sender b txns" for b
      using ord1 [of b] rem(3) t by (cases "b = st_sender t") auto
    moreover have "in_window k w b \<or> b = st_sender t" if "pending p' b \<noteq> []" for b
    proof (cases "b = st_sender t")
      case False
      then have "pending p1 b \<noteq> []" using rem(3) t that by simp
      then show ?thesis using left by blast
    qed simp
    ultimately show ?thesis using None scan no dropped rem(1,2) t n(1) by (simp add: next_to_add_def next_ok_def expect_def)
  qed
qed

lemma last_dropped_window:
  assumes "window_ok k w" "window_ok k w'" "sw_txns w' = sw_txns w @ [t]" "0 < k" "in_window k w a" "\<not> in_window k w' a"
  shows "last_dropped_sender w' = Inr (Some a)"
proof -
  let ?ts = "sw_txns w"
  have len: "\<not> length ?ts < k" using assms by (auto simp: in_window_def window_snoc)
  then have win: "window k ?ts = ?ts ! (length ?ts - k) # tl (window k ?ts)" by (intro window_hd [OF assms(4)]) simp
  have "from_sender a (tl (window k ?ts)) = []" using assms(3,4,6) len by (auto simp: in_window_def window_snoc)
  then have "st_sender (?ts ! (length ?ts - k)) = a" using assms(5) unfolding in_window_def by (subst (asm) win) (auto split: if_splits)
  moreover have "sw_txns w' ! (length (sw_txns w') - k - 1) = ?ts ! (length ?ts - k)" using len assms(3,4) by (simp add: nth_append)
  ultimately show ?thesis using last_dropped_ok [OF assms(2,4)] assms(3,6) len by simp
qed

lemma shuffle_step:
  assumes inv: "shuffle_inv k txns w orig p" and more: "length (sw_txns w) < length txns" and k: "0 < k"
  shows "\<exists>t orig' p' w'. next_to_add w orig p = Inr (t, orig', p') \<and> window_add t w = Inr w' \<and> sw_txns w' = sw_txns w @ [t] \<and>
    shuffle_inv k txns w' orig' p'"
proof -
  have "\<exists>t orig' p'. next_to_add w orig p = Inr (t, orig', p') \<and> next_ok k txns w t orig' p'"
  proof (cases "\<exists>a t ts. last_dropped_sender w = Inr (Some a) \<and> pending p a = t # ts")
    case True
    then show ?thesis using next_from_dropped [OF inv _ _ k] by blast
  next
    case False
    then show ?thesis using next_from_rest [OF inv more _ k] by (metis list.exhaust)
  qed
  then obtain t orig' p' where nxt: "next_to_add w orig p = Inr (t, orig', p')" and ok: "next_ok k txns w t orig' p'" by blast
  have w: "window_ok k w" using inv by (simp add: shuffle_inv_def)
  from window_add_ok [OF w k] obtain w' where w': "window_add t w = Inr w'" "window_ok k w'" "sw_txns w' = sw_txns w @ [t]" by blast
  have new: "in_window k w' (st_sender t)" using w'(3) k by (simp add: in_window_def window_snoc)
  have "in_window k w' a \<or> last_dropped_sender w' = Inr (Some a)" if "pending p' a \<noteq> []" for a
    using ok that new last_dropped_window [OF w w'(2,3) k] unfolding next_ok_def by blast
  moreover have "spaced k txns (sw_txns w')" using inv ok w'(3) spaced_snoc by (simp add: shuffle_inv_def next_ok_def)
  ultimately have "shuffle_inv k txns w' orig' p'" using ok w' by (simp add: shuffle_inv_def next_ok_def)
  then show ?thesis using nxt w' by blast
qed

lemma shuffle_loop_ok:
  assumes "shuffle_inv k txns w orig p" "0 < k" "length (sw_txns w) \<le> length txns"
  shows "\<exists>out. shuffle_loop (length txns) w orig p = Inr out \<and> length out = length txns \<and>
    spaced k txns out \<and> (\<forall>a. \<exists>r. from_sender a out @ r = from_sender a txns)"
  using assms
proof (induction "length txns - length (sw_txns w)" arbitrary: w orig p)
  case 0
  then have "length (sw_txns w) = length txns" by simp
  moreover have "spaced k txns (sw_txns w)" "\<forall>a. \<exists>r. from_sender a (sw_txns w) @ r = from_sender a txns" using 0 unfolding shuffle_inv_def by blast+
  ultimately show ?case by (subst shuffle_loop.simps) simp
next
  case (Suc n)
  then have less: "length (sw_txns w) < length txns" by simp
  from shuffle_step [OF Suc(3) this Suc(4)] obtain t orig' p' w' where s: "next_to_add w orig p = Inr (t, orig', p')" "window_add t w = Inr w'"
    "sw_txns w' = sw_txns w @ [t]" "shuffle_inv k txns w' orig' p'" by blast
  have "\<exists>out. shuffle_loop (length txns) w' orig' p' = Inr out \<and> length out = length txns \<and>
    spaced k txns out \<and> (\<forall>a. \<exists>r. from_sender a out @ r = from_sender a txns)"
    by (rule Suc(1)) (use Suc s less in auto)
  then show ?case using s less by (subst shuffle_loop.simps) simp
qed

lemma count_from_sender: "count (mset (from_sender (st_sender t) zs)) t = count (mset zs) t"
  by (induction zs) auto

lemma senders_prefix:
  assumes len: "length out = length txns" and pre: "\<And>a. \<exists>r. from_sender a out @ r = from_sender a txns"
  shows "from_sender a out = from_sender a txns"
proof -
  have "count (mset out) t \<le> count (mset txns) t" for t
  proof -
    obtain r where "from_sender (st_sender t) out @ r = from_sender (st_sender t) txns" using pre by blast
    then have "count (mset (from_sender (st_sender t) out @ r)) t = count (mset txns) t" by (simp only: count_from_sender)
    then show ?thesis by (simp add: count_from_sender)
  qed
  then have "mset out \<subseteq># mset txns" by (simp add: subseteq_mset_def)
  then have "mset out = mset txns" using len mset_subset_size [of "mset out" "mset txns"] by (auto simp: subset_mset.less_le)
  then have eq: "size (mset (from_sender a out)) = size (mset (from_sender a txns))" by simp
  obtain r where r: "from_sender a out @ r = from_sender a txns" using pre by blast
  have "r = []" using eq by (simp flip: r)
  then show ?thesis using r by simp
qed

lemma shuffle_inv_start: "shuffle_inv (unat k) txns (sliding_window_new k) txns pending_new"
  by (simp add: shuffle_inv_def window_ok_def sliding_window_new_def pending_new_ok window_def spaced_def)

lemma shuffle_out:
  "\<exists>out. shuffle conflict_window_size txns = Inr out \<and> (\<forall>a. from_sender a out = from_sender a txns) \<and>
     (conflict_window_size \<noteq> 0 \<longrightarrow> spaced (unat conflict_window_size) txns out)"
proof (cases "txns = [] \<or> conflict_window_size = 0")
  case False
  then have "0 < unat conflict_window_size" by (simp add: unat_gt_0)
  from shuffle_loop_ok [OF shuffle_inv_start this, of txns] obtain out where out:
    "shuffle_loop (length txns) (sliding_window_new conflict_window_size) txns pending_new = Inr out" "length out = length txns"
    "\<And>a. \<exists>r. from_sender a out @ r = from_sender a txns" "spaced (unat conflict_window_size) txns out"
    by (auto simp: sliding_window_new_def)
  then have "shuffle conflict_window_size txns = Inr out" using False by (simp add: shuffle_def)
  then show ?thesis using senders_prefix [OF out(2,3)] out(4) by blast
qed (auto simp: shuffle_def spaced_def)

text \<open>C21. The shuffler never panics: for every conflict window it returns the transactions it was given, each as often as
  before, and the transactions of every sender in the order they had.\<close>

theorem shuffle_keeps_order:
  "\<exists>out. shuffle conflict_window_size txns = Inr out \<and> mset out = mset txns \<and> (\<forall>a. from_sender a out = from_sender a txns)"
  using shuffle_out [of conflict_window_size txns] senders_mset by blast

text \<open>C22. The shuffler separates the transactions of a sender as long as it can: when it places a transaction whose sender
  is among the senders of the last \<open>conflict_window_size\<close> transactions, so is the sender of every transaction that
  is placed later.\<close>

theorem shuffle_spaces_senders:
  assumes "shuffle conflict_window_size txns = Inr out" "i \<le> j" "j < length out"
    "st_sender (out ! i) \<in> st_sender ` set (window (unat conflict_window_size) (take i out))"
  shows "st_sender (out ! j) \<in> st_sender ` set (window (unat conflict_window_size) (take i out))"
proof -
  let ?k = "unat conflict_window_size" and ?a = "st_sender (out ! j)"
  have "conflict_window_size \<noteq> 0" using assms(4) by (auto simp: window_def)
  then have sp: "forced ?k txns (take i out) (out ! i)" and same: "from_sender ?a out = from_sender ?a txns"
    using shuffle_out [of conflict_window_size txns] assms(1,2,3) by (auto simp: spaced_def)
  have "out ! j \<in> set (drop i out)" using assms(2,3) by (auto simp: in_set_conv_nth intro!: exI [of _ "j - i"])
  then have "from_sender ?a (drop i out) \<noteq> []" by (auto simp: filter_empty_conv)
  moreover have "from_sender ?a txns = from_sender ?a (take i out) @ from_sender ?a (drop i out)"
    unfolding same [symmetric] filter_append [symmetric] append_take_drop_id ..
  ultimately have "from_sender ?a (take i out) \<noteq> from_sender ?a txns" by simp
  moreover have "from_sender (st_sender (out ! i)) (window ?k (take i out)) \<noteq> []" using assms(4) by (auto simp: filter_empty_conv)
  ultimately have "from_sender ?a (window ?k (take i out)) \<noteq> []" using sp unfolding forced_def by blast
  then obtain t where "t \<in> set (window ?k (take i out))" "st_sender t = ?a" by (auto simp: filter_empty_conv)
  then show ?thesis by (metis imageI)
qed

lemma shuffle_loop_distinct:
  assumes "shuffle_inv k txns w orig p" "0 < k" "distinct (map st_sender txns)" "sw_txns w @ orig = txns" "\<And>a. pending p a = []"
  shows "shuffle_loop (length txns) w orig p = Inr txns"
  using assms
proof (induction orig arbitrary: w p)
  case Nil
  then show ?case by (subst shuffle_loop.simps) simp
next
  case (Cons t orig)
  have w: "window_ok k w" and ok: "pending_ok p" using Cons.prems(1) by (simp_all add: shuffle_inv_def)
  have "st_sender t \<notin> st_sender ` set (sw_txns w)" using Cons.prems(3,4) by auto
  then have "\<not> in_window k w (st_sender t)" by (auto simp: in_window_def window_def filter_empty_conv image_iff dest!: in_set_dropD)
  then have nc: "\<not> has_conflict w (st_sender t)" by (simp add: has_conflict_iff [OF w])
  obtain dropped where d: "last_dropped_sender w = Inr dropped" using last_dropped_ok [OF w Cons.prems(2)] by blast
  have "(case dropped of None \<Rightarrow> (None, p) | Some a \<Rightarrow> remove_pending_from_sender a p) = (None, p)"
    using remove_from_sender_ok(1) [OF ok Cons.prems(5)] by (auto split: option.splits)
  then have nxt: "next_to_add w (t # orig) p = Inr (t, orig, p)" using d nc by (simp add: next_to_add_def)
  have less: "length (sw_txns w) < length txns" using Cons.prems(4) by auto
  from shuffle_step [OF Cons.prems(1) less Cons.prems(2)] nxt obtain w' where w': "window_add t w = Inr w'"
    "sw_txns w' = sw_txns w @ [t]" "shuffle_inv k txns w' orig p" by auto
  have "shuffle_loop (length txns) w' orig p = Inr txns"
    by (rule Cons.IH) (use Cons.prems w' in auto)
  then show ?case using nxt w'(1) less by (subst shuffle_loop.simps) simp
qed

text \<open>C23. When no sender has two transactions in the block the shuffler leaves the order as it is, whatever the conflict
  window.\<close>

theorem shuffle_distinct_senders:
  assumes "distinct (map st_sender txns)"
  shows "shuffle conflict_window_size txns = Inr txns"
proof (cases "txns = [] \<or> conflict_window_size = 0")
  case False
  then have "0 < unat conflict_window_size" by (simp add: unat_gt_0)
  then have "shuffle_loop (length txns) (sliding_window_new conflict_window_size) txns pending_new = Inr txns"
    using shuffle_loop_distinct [OF shuffle_inv_start _ assms] by (simp add: sliding_window_new_def pending_new_ok)
  then show ?thesis using False by (simp add: shuffle_def)
qed (auto simp: shuffle_def)

section \<open>Removing duplicates\<close>

abbreviation txn_key :: "signed_transaction \<Rightarrow> account_address \<times> u64" where
  "txn_key t \<equiv> (st_sender t, st_sequence_number t)"

text \<open>The reference: a transaction stays when it was not there before.\<close>

fun keep_first :: "'a set \<Rightarrow> 'a list \<Rightarrow> 'a list" where
  "keep_first D [] = []"
| "keep_first D (t # ts) = (if t \<in> D then keep_first D ts else t # keep_first (insert t D) ts)"

lemma keep_first_distinct: "distinct ts \<Longrightarrow> set ts \<inter> D = {} \<Longrightarrow> keep_first D ts = ts"
  by (induction ts arbitrary: D) auto

lemma keep_first_ok: "distinct (keep_first D ts) \<and> set (keep_first D ts) = set ts - D"
  by (induction ts arbitrary: D) auto

text \<open>After \<open>i\<close> transactions of the first loop: \<open>seen\<close> has the first position of a sender and a sequence number, and two
  transactions that share them are marked.\<close>

definition marked :: "signed_transaction list \<Rightarrow> nat \<Rightarrow> (account_address \<times> u64 \<Rightarrow> nat option) \<Rightarrow> bool \<Rightarrow> bool list \<Rightarrow> bool" where
  "marked xs i seen d fs \<longleftrightarrow>
     length fs = length xs \<and>
     (\<forall>k j. seen k = Some j \<longrightarrow> j < i \<and> txn_key (xs ! j) = k \<and> (\<forall>l < j. txn_key (xs ! l) \<noteq> k)) \<and>
     (\<forall>j < i. seen (txn_key (xs ! j)) \<noteq> None) \<and>
     (\<forall>p q. p < q \<and> q < i \<and> txn_key (xs ! p) = txn_key (xs ! q) \<longrightarrow> d \<and> fs ! p \<and> fs ! q)"

lemma marked_new:
  assumes m: "marked xs i seen d fs" and i: "i < length xs" and new: "seen (txn_key (xs ! i)) = None"
  shows "marked xs (Suc i) (seen(txn_key (xs ! i) \<mapsto> i)) d fs"
proof -
  have "txn_key (xs ! l) \<noteq> txn_key (xs ! i)" if "l < i" for l using m new that unfolding marked_def by metis
  then show ?thesis using m unfolding marked_def by (auto simp: less_Suc_eq) 
qed

lemma marked_again:
  assumes m: "marked xs i seen d fs" and i: "i < length xs" and first: "seen (txn_key (xs ! i)) = Some j"
  shows "marked xs (Suc i) seen True (fs[j := True, i := True])"
proof -
  have j: "j < i" "txn_key (xs ! j) = txn_key (xs ! i)" "\<And>l. l < j \<Longrightarrow> txn_key (xs ! l) \<noteq> txn_key (xs ! i)"
    and len: "length fs = length xs" using m first unfolding marked_def by metis+
  have old: "fs ! p \<and> fs ! q" if "p < q" "q < i" "txn_key (xs ! p) = txn_key (xs ! q)" for p q
    using m that unfolding marked_def by blast
  have "fs[j := True, i := True] ! p \<and> fs[j := True, i := True] ! q"
    if "p < q" "q < Suc i" "txn_key (xs ! p) = txn_key (xs ! q)" for p q
  proof (cases "q = i")
    case True
    then have "j \<le> p" using j(3) [of p] that(3) by (meson not_le)
    then show ?thesis using True old [of j p] that j i len by (auto simp: nth_list_update)
  next
    case False
    then show ?thesis using old [of p q] that i j(1) len by (auto simp: nth_list_update)
  qed
  then show ?thesis using m first len unfolding marked_def
    by (simp add: less_Suc_eq) blast
qed

lemma mark_duplicates_ok:
  assumes "marked xs i seen d fs" "i \<le> length xs" "mark_duplicates i (drop i xs) seen (d, fs) = (d', fs')"
  shows "\<exists>seen'. marked xs (length xs) seen' d' fs'"
  using assms
proof (induction "length xs - i" arbitrary: i seen d fs)
  case 0
  then show ?case by auto
next
  case (Suc n)
  then have i: "i < length xs" and drp: "drop i xs = xs ! i # drop (Suc i) xs" by (simp_all add: Cons_nth_drop_Suc)
  show ?case
  proof (cases "seen (txn_key (xs ! i))")
    case None
    show ?thesis
      by (rule Suc.hyps(1) [OF _ marked_new [OF Suc.prems(1) i None]]) (use Suc i drp None in auto)
  next
    case (Some j)
    show ?thesis
      by (rule Suc.hyps(1) [OF _ marked_again [OF Suc.prems(1) i Some]]) (use Suc i drp Some in auto)
  qed
qed

lemma filter_seen_keep_first:
  assumes "length fs = length ts" "inj_on h (set ts \<union> D)"
    "\<And>j. j < length ts \<Longrightarrow> ts ! j \<in> D \<Longrightarrow> fs ! j"
    "\<And>i j. i < j \<Longrightarrow> j < length ts \<Longrightarrow> ts ! i = ts ! j \<Longrightarrow> fs ! i \<and> fs ! j"
    "S \<subseteq> h ` D" "\<And>t. t \<in> set ts \<Longrightarrow> t \<in> D \<Longrightarrow> h t \<in> S"
  shows "filter_seen (zip (map (\<lambda>(need_hash, t). if need_hash then Some (h t) else None) (zip fs ts)) ts) S = keep_first D ts"
  using assms
proof (induction ts arbitrary: fs D S)
  case (Cons t ts)
  then obtain f fs' where fs: "fs = f # fs'" "length fs' = length ts" by (cases fs) auto
  have dup: "f \<and> fs' ! j" if "j < length ts" "ts ! j = t" for j using Cons.prems(4) [of 0 "Suc j"] that fs by auto
  have inD: "fs' ! j" if "j < length ts" "ts ! j \<in> D" for j using Cons.prems(3) [of "Suc j"] that fs by auto
  have rest: "fs' ! i \<and> fs' ! j" if "i < j" "j < length ts" "ts ! i = ts ! j" for i j
    using Cons.prems(4) [of "Suc i" "Suc j"] that fs by auto
  have tD: "f" if "t \<in> D" using Cons.prems(3) [of 0] that fs by auto
  have hS: "h t \<in> S \<longleftrightarrow> t \<in> D"
    using Cons.prems(2,5,6) by (auto dest: inj_onD)
  show ?case
  proof (cases "t \<in> D")
    case True
    then have "filter_seen (zip (map (\<lambda>(n, t). if n then Some (h t) else None) (zip fs' ts)) ts) S = keep_first D ts"
      using Cons.prems inD rest fs by (intro Cons.IH) (auto intro: inj_on_subset)
    then show ?thesis using True tD hS fs by simp
  next
    case False
    define S' where "S' = (if f then insert (h t) S else S)"
    have "filter_seen (zip (map (\<lambda>(n, t). if n then Some (h t) else None) (zip fs' ts)) ts) S' = keep_first (insert t D) ts"
    proof (rule Cons.IH [OF fs(2)])
      show "fs' ! j" if "j < length ts" "ts ! j \<in> insert t D" for j using that dup inD by blast
      show "h u \<in> S'" if "u \<in> set ts" "u \<in> insert t D" for u
        using that dup Cons.prems(6) by (auto simp: S'_def in_set_conv_nth)
    qed (use Cons.prems(2,5) rest in \<open>auto simp: S'_def\<close>)
    then show ?thesis using False hS fs by (auto simp: S'_def)
  qed
qed simp

lemma dedup_first:
  assumes "inj_on (committed_hash E) (set txns)"
  shows "dedup E txns = keep_first {} txns"
proof -
  obtain d fs where m: "mark_duplicates 0 txns Map.empty (False, replicate (length txns) False) = (d, fs)" by (cases "mark_duplicates 0 txns Map.empty (False, replicate (length txns) False)")
  have "marked txns 0 Map.empty False (replicate (length txns) False)" by (simp add: marked_def)
  from mark_duplicates_ok [OF this] m obtain seen where seen: "marked txns (length txns) seen d fs" by auto
  then have len: "length fs = length txns" unfolding marked_def by blast
  have dup: "\<And>p q. p < q \<Longrightarrow> q < length txns \<Longrightarrow> txns ! p = txns ! q \<Longrightarrow> d \<and> fs ! p \<and> fs ! q"
    using seen unfolding marked_def by metis
  show ?thesis
  proof (cases d)
    case True
    have "inj_on (\<lambda>t. (committed_hash E t, st_authenticator t)) (set txns)" using assms by (auto simp: inj_on_def)
    from filter_seen_keep_first [OF len, of "\<lambda>t. (committed_hash E t, st_authenticator t)" "{}" "{}"] this dup True
    show ?thesis using m by (simp add: dedup_def)
  next
    case False
    then have "distinct txns" using dup by (metis distinct_conv_nth linorder_neqE_nat)
    then show ?thesis using m False by (simp add: dedup_def keep_first_distinct)
  qed
qed

section \<open>The order of execution\<close>

lemma create_shuffler_out:
  "\<exists>out. create_transaction_shuffler s txns = Inr out \<and> (\<forall>a. from_sender a out = from_sender a txns)"
proof (cases s)
  case (SenderAwareV2 k)
  then show ?thesis using shuffle_out [of k txns] by auto
qed auto

lemma keep_first_cong: "(\<And>t. t \<in> set ts \<Longrightarrow> t \<in> D \<longleftrightarrow> t \<in> D') \<Longrightarrow> keep_first D ts = keep_first D' ts"
proof (induction ts arbitrary: D D')
  case (Cons t ts)
  have "keep_first D ts = keep_first D' ts" by (rule Cons.IH) (simp add: Cons.prems)
  moreover have "keep_first (insert t D) ts = keep_first (insert t D') ts" by (rule Cons.IH) (simp add: Cons.prems)
  ultimately show ?case using Cons.prems [of t] by simp
qed simp

lemma keep_first_filter: "filter P (keep_first D ts) = keep_first D (filter P ts)"
proof (induction ts arbitrary: D)
  case (Cons t ts)
  have "keep_first (insert t D) (filter P ts) = keep_first D (filter P ts)" if "\<not> P t"
    using that by (intro keep_first_cong) auto
  then show ?case using Cons by simp
qed simp

text \<open>C20. With the deduper of the configuration switched on, and no two different transactions of the block with the same
  hash, the transactions consensus executes for a block are those of its payload, each exactly once; those of a sender
  are in the order in which they first occur in the payload.\<close>

theorem execution_order_once:
  assumes "config_deduper_type config = TxnHashAndAuthenticatorV1" "inj_on (committed_hash E) (set txns)"
  shows "\<exists>out. execution_order E config txns = Inr out \<and> distinct out \<and> set out = set txns \<and>
    (\<forall>a. from_sender a out = keep_first {} (from_sender a txns))"
proof -
  obtain out where out: "execution_order E config txns = Inr out"
    "\<And>a. from_sender a out = from_sender a (keep_first {} txns)"
    using create_shuffler_out [of "config_shuffler_type config" "dedup E txns"] assms
    by (auto simp: execution_order_def dedup_first)
  then have m: "mset out = mset (keep_first {} txns)" by (intro senders_mset)
  then have "distinct out" using keep_first_ok [of "{}" txns] mset_eq_imp_distinct_iff by blast
  moreover have "set out = set txns" using mset_eq_setD [OF m] keep_first_ok [of "{}" txns] by simp
  ultimately show ?thesis using out by (simp add: keep_first_filter)
qed

definition order_txn :: "account_address \<Rightarrow> u64 \<Rightarrow> signed_transaction" where
  "order_txn a n = \<lparr> st_raw_txn = \<lparr> rt_sender = a, rt_sequence_number = n, rt_payload = [], rt_max_gas_amount = 0,
     rt_gas_unit_price = 0, rt_expiration_timestamp_secs = 0, rt_chain_id = 0 \<rparr>, st_authenticator = [] \<rparr>"

definition order_env :: txn_env where
  "order_env = \<lparr> raw_txn_bytes_len = (\<lambda>r. 100), committed_hash = (\<lambda>t. 10 * st_sender t + ucast (st_sequence_number t)), txn_overhead_bytes = 0 \<rparr>"

lemmas order_simps = order_txn_def order_env_def st_sender_def st_sequence_number_def

lemma shuffle_example:
  "shuffle 1 [order_txn 1 0, order_txn 1 1, order_txn 1 2, order_txn 1 3, order_txn 2 0] =
     Inr [order_txn 1 0, order_txn 2 0, order_txn 1 1, order_txn 1 2, order_txn 1 3]"
  by (simp add: shuffle_def shuffle_loop.simps sliding_window_new_def pending_new_def next_to_add_def last_dropped_sender_def
    txn_at_def expect_def remove_pending_from_sender_def has_conflict_def pending_add_def remove_first_pending_def
    window_add_def slide_out_def nat_sub_def order_simps numeral_eq_Suc)

theorem shuffle_spaces_senders_witness:
  "shuffle 1 [order_txn 1 0, order_txn 1 1, order_txn 1 2, order_txn 1 3, order_txn 2 0] =
     Inr [order_txn 1 0, order_txn 2 0, order_txn 1 1, order_txn 1 2, order_txn 1 3] \<and>
   st_sender (order_txn 1 2) \<in> st_sender ` set (window 1 [order_txn 1 0, order_txn 2 0, order_txn 1 1]) \<and>
   st_sender (order_txn 1 3) \<in> st_sender ` set (window 1 [order_txn 1 0, order_txn 2 0, order_txn 1 1])"
  using shuffle_spaces_senders [OF shuffle_example, of 3 4] shuffle_example by (simp add: window_def order_simps)

theorem shuffle_distinct_senders_witness:
  "shuffle 2 [order_txn 1 7, order_txn 3 0, order_txn 2 4] = Inr [order_txn 1 7, order_txn 3 0, order_txn 2 4]"
  using shuffle_distinct_senders [of "[order_txn 1 7, order_txn 3 0, order_txn 2 4]" 2] by (simp add: order_simps)

theorem execution_order_once_witness:
  "\<exists>out. execution_order order_env default_for_genesis [order_txn 1 0, order_txn 1 1, order_txn 1 0, order_txn 2 0] = Inr out \<and>
     distinct out \<and> set out = {order_txn 1 0, order_txn 1 1, order_txn 2 0} \<and> from_sender 1 out = [order_txn 1 0, order_txn 1 1]"
proof -
  have "config_deduper_type default_for_genesis = TxnHashAndAuthenticatorV1" by (simp add: default_for_genesis_def)
  moreover have "inj_on (committed_hash order_env) (set [order_txn 1 0, order_txn 1 1, order_txn 1 0, order_txn 2 0])"
    by (auto simp: inj_on_def order_simps)
  ultimately obtain out where out:
    "execution_order order_env default_for_genesis [order_txn 1 0, order_txn 1 1, order_txn 1 0, order_txn 2 0] = Inr out"
    "distinct out" "set out = set [order_txn 1 0, order_txn 1 1, order_txn 1 0, order_txn 2 0]"
    "\<forall>a. from_sender a out = keep_first {} (from_sender a [order_txn 1 0, order_txn 1 1, order_txn 1 0, order_txn 2 0])"
    using execution_order_once by blast
  moreover have "from_sender 1 out = [order_txn 1 0, order_txn 1 1]" using out(4) by (simp add: order_simps)
  ultimately show ?thesis by (auto simp: insert_commute)
qed

end
