(* ===== verification/Spec2Isabelle.thy ===== *)
theory Spec2Isabelle
  imports Two_Chain_Agreement Subnet_Props Txn_Order
begin

text \<open>
  The consensus core of the repository.
\<close>

end
